(* ===== verification/Prelude.thy ===== *)
theory Prelude
  imports Main "HOL-Library.Char_ord" "HOL-Library.List_Lexorder" "HOL-Library.Sublist"
begin

text \<open>
  Shared vocabulary of the development. A Go \<^verbatim>\<open>string\<close> and a \<^verbatim>\<open>[]byte\<close> are both
  byte sequences, and a HOL \<^typ>\<open>char\<close> is a byte, so both are \<^typ>\<open>string\<close>. A Go
  \<^verbatim>\<open>error\<close> result is a sum whose left side names the sentinel error. An
  \<^verbatim>\<open>int64\<close> is an \<^typ>\<open>int\<close> with its two's complement wrap-around written out.
\<close>

named_theorems int64_defs \<open>the range of an int64, for linear arithmetic\<close>

type_synonym bytes = string

section \<open>Bytes\<close>

abbreviation byte_nat :: "char \<Rightarrow> nat" where
  "byte_nat c \<equiv> of_char c"

abbreviation nat_byte :: "nat \<Rightarrow> char" where
  "nat_byte n \<equiv> char_of n"

lemma byte_nat_less [simp]: "(of_char c :: nat) < 256"
  using nat_of_char_less_256 by simp

lemma byte_nat_inject: "(of_char a :: nat) = of_char b \<longleftrightarrow> a = b"
  by simp

lemma char_small: "n < 256 \<Longrightarrow> (of_char (char_of (n::nat)) :: nat) = n"
  by (simp only: of_char_of mod_less)

section \<open>Two's complement integers\<close>

definition minInt64 :: int where "minInt64 = - (2 ^ 63)"
definition maxInt64 :: int where "maxInt64 = 2 ^ 63 - 1"

definition wrap64 :: "int \<Rightarrow> int" where
  "wrap64 x = (x + 2 ^ 63) mod 2 ^ 64 - 2 ^ 63"

definition is_int64 :: "int \<Rightarrow> bool" where
  "is_int64 x \<longleftrightarrow> minInt64 \<le> x \<and> x \<le> maxInt64"

declare minInt64_def [int64_defs] maxInt64_def [int64_defs] is_int64_def [int64_defs]

definition clamp64 :: "int \<Rightarrow> int" where
  "clamp64 x = max minInt64 (min maxInt64 x)"

lemma wrap64_id: "is_int64 x \<Longrightarrow> wrap64 x = x"
  unfolding wrap64_def int64_defs by (simp add: mod_pos_pos_trivial)

lemma is_int64_wrap64 [simp]: "is_int64 (wrap64 x)"
proof -
  have "0 \<le> (x + 2 ^ 63) mod 2 ^ 64" "(x + 2 ^ 63) mod 2 ^ 64 < 2 ^ 64" by simp_all
  then show ?thesis unfolding wrap64_def int64_defs by simp
qed

lemma is_int64_clamp64 [simp]: "is_int64 (clamp64 x)"
  by (simp add: clamp64_def int64_defs)

lemma clamp64_id: "is_int64 x \<Longrightarrow> clamp64 x = x"
  by (simp add: clamp64_def is_int64_def)

lemma wrap64_period: "wrap64 (x - 2 ^ 64) = wrap64 x" "wrap64 (x + 2 ^ 64) = wrap64 x"
proof -
  have "(x - 2 ^ 64 + 2 ^ 63) mod 2 ^ 64 = (x + 2 ^ 63 - 1 * 2 ^ 64) mod 2 ^ 64" by simp
  also have "\<dots> = (x + 2 ^ 63) mod 2 ^ 64" by (rule mod_diff_right_eq [symmetric, THEN trans]) simp
  finally show "wrap64 (x - 2 ^ 64) = wrap64 x" unfolding wrap64_def by simp
  have "(x + 2 ^ 64 + 2 ^ 63) mod 2 ^ 64 = (x + 2 ^ 63 + 2 ^ 64) mod 2 ^ 64" by simp
  also have "\<dots> = (x + 2 ^ 63) mod 2 ^ 64" by (rule mod_add_self2)
  finally show "wrap64 (x + 2 ^ 64) = wrap64 x" unfolding wrap64_def by simp
qed

text \<open>One wrap of a sum or difference of two 64-bit values leaves by at most one turn.\<close>

lemma wrap64_over: "maxInt64 < x \<Longrightarrow> x \<le> maxInt64 + 2 ^ 64 \<Longrightarrow> wrap64 x = x - 2 ^ 64"
proof -
  assume "maxInt64 < x" "x \<le> maxInt64 + 2 ^ 64"
  then have "is_int64 (x - 2 ^ 64)"
    by (simp add: int64_defs)
  then have "wrap64 (x - 2 ^ 64) = x - 2 ^ 64" by (rule wrap64_id)
  moreover have "wrap64 (x - 2 ^ 64) = wrap64 x"
    by (rule wrap64_period)
  ultimately show ?thesis by simp
qed

lemma wrap64_under: "x < minInt64 \<Longrightarrow> minInt64 - 2 ^ 64 \<le> x \<Longrightarrow> wrap64 x = x + 2 ^ 64"
proof -
  assume "x < minInt64" "minInt64 - 2 ^ 64 \<le> x"
  then have "is_int64 (x + 2 ^ 64)"
    by (simp add: int64_defs)
  then have "wrap64 (x + 2 ^ 64) = x + 2 ^ 64" by (rule wrap64_id)
  then show ?thesis by (simp only: wrap64_period)
qed

end
