(* ===== verification/Record_Chain.thy ===== *)
theory Record_Chain
  imports Prelude
begin

text \<open>
  Package \<^verbatim>\<open>chain\<close> (chain/chain.go): the delegation chain as the record holds it, an
  ordered root-first list of \<^verbatim>\<open>agent://\<close> or \<^verbatim>\<open>user://\<close> entries. The theory
  holds \<^verbatim>\<open>Append\<close> and \<^verbatim>\<open>Validate\<close>, the abstract rule they implement
  (\<open>wf_chain\<close>), and the interface \<open>chain_builder\<close> that both this package's
  \<^verbatim>\<open>Append\<close> and the delegation package's \<^verbatim>\<open>Extend\<close> implement.
\<close>

section \<open>Data\<close>

definition chain_MaxDepth :: nat where
  "chain_MaxDepth = 32"

datatype chain_error = Chain_ErrCycle | Chain_ErrTooDeep | Chain_ErrInvalidEntry

definition entryPattern :: "string \<Rightarrow> bool" where
  "entryPattern p \<longleftrightarrow> prefix ''agent://'' p \<or> prefix ''user://'' p"

text \<open>The rule of SPEC 5.1: acyclic, at most 32 entries, every entry of a known scheme.\<close>

definition wf_chain :: "string list \<Rightarrow> bool" where
  "wf_chain xs \<longleftrightarrow> length xs \<le> chain_MaxDepth \<and> distinct xs \<and> list_all entryPattern xs"

section \<open>Append\<close>

definition chain_Append :: "string list \<Rightarrow> string \<Rightarrow> chain_error + string list" where
  "chain_Append chain p =
     (if p \<in> set chain then Inl Chain_ErrCycle
      else if length chain \<ge> chain_MaxDepth then Inl Chain_ErrTooDeep
      else Inr (chain @ [p]))"

section \<open>Validate\<close>

text \<open>The loop body: the set \<open>seen\<close> is tested before the scheme, as in the source.\<close>

fun validate_loop :: "string set \<Rightarrow> string list \<Rightarrow> chain_error option" where
  "validate_loop seen [] = None"
| "validate_loop seen (p # ps) =
     (if p \<in> seen then Some Chain_ErrCycle
      else if \<not> entryPattern p then Some Chain_ErrInvalidEntry
      else validate_loop (insert p seen) ps)"

definition chain_Validate :: "string list \<Rightarrow> chain_error option" where
  "chain_Validate chain =
     (if length chain > chain_MaxDepth then Some Chain_ErrTooDeep
      else validate_loop {} chain)"

lemma validate_loop_None:
  "validate_loop seen xs = None \<longleftrightarrow> distinct xs \<and> set xs \<inter> seen = {} \<and> list_all entryPattern xs"
  by (induction seen xs rule: validate_loop.induct) auto

text \<open>The first entry that fails decides the error, and everything before it was good.\<close>

lemma validate_loop_Some:
  "validate_loop seen xs = Some e \<Longrightarrow>
     \<exists>pre p post. xs = pre @ p # post \<and> validate_loop seen pre = None \<and>
       (e = Chain_ErrCycle \<and> p \<in> seen \<union> set pre \<or>
        e = Chain_ErrInvalidEntry \<and> p \<notin> seen \<union> set pre \<and> \<not> entryPattern p)"
proof (induction seen xs rule: validate_loop.induct)
  case (1 seen)
  then show ?case by simp
next
  case (2 seen p ps)
  show ?case
  proof (cases "p \<in> seen \<or> \<not> entryPattern p")
    case True
    with "2.prems" show ?thesis
      by (intro exI [of _ "[]"] exI [of _ p] exI [of _ ps]) (auto split: if_splits)
  next
    case False
    with 2 obtain pre q post where *: "ps = pre @ q # post" "validate_loop (insert p seen) pre = None"
      "e = Chain_ErrCycle \<and> q \<in> insert p seen \<union> set pre \<or>
       e = Chain_ErrInvalidEntry \<and> q \<notin> insert p seen \<union> set pre \<and> \<not> entryPattern q"
      by auto
    with False show ?thesis
      by (intro exI [of _ "p # pre"] exI [of _ q] exI [of _ post]) auto
  qed
qed

section \<open>The rule both operations implement\<close>

lemma Validate_iff_wf: "chain_Validate xs = None \<longleftrightarrow> wf_chain xs"
  by (auto simp: chain_Validate_def wf_chain_def validate_loop_None)

lemma wf_chain_Nil [simp]: "wf_chain []"
  by (simp add: wf_chain_def)

lemma wf_chain_snoc:
  "wf_chain (xs @ [p]) \<longleftrightarrow>
     wf_chain xs \<and> p \<notin> set xs \<and> length xs < chain_MaxDepth \<and> entryPattern p"
  by (auto simp: wf_chain_def)

lemma wf_chain_take: "wf_chain xs \<Longrightarrow> wf_chain (take n xs)"
  by (auto simp: wf_chain_def list_all_iff dest: in_set_takeD)

lemma Append_Inr:
  "chain_Append xs p = Inr ys \<longleftrightarrow> ys = xs @ [p] \<and> p \<notin> set xs \<and> length xs < chain_MaxDepth"
  by (auto simp: chain_Append_def)

section \<open>Interface: growing a chain one principal at a time\<close>

text \<open>
  A service appends exactly one entry, its own principal. What a client of that operation
  relies on is stated here once; the record's \<^verbatim>\<open>Append\<close> and the door's
  \<^verbatim>\<open>Extend\<close> are its two providers.
\<close>

fun grow_all :: "(string list \<Rightarrow> string \<Rightarrow> 'e + string list) \<Rightarrow> string list \<Rightarrow> string list \<Rightarrow> 'e + string list" where
  "grow_all grow xs [] = Inr xs"
| "grow_all grow xs (p # ps) = (case grow xs p of Inl e \<Rightarrow> Inl e | Inr ys \<Rightarrow> grow_all grow ys ps)"

locale chain_builder =
  fixes grow :: "string list \<Rightarrow> string \<Rightarrow> 'e + string list"
    and max_depth :: nat
    and nameable :: "string \<Rightarrow> bool"
  assumes grow_result: "grow xs p = Inr ys \<Longrightarrow> ys = xs @ [p]"
    and grow_fresh: "grow xs p = Inr ys \<Longrightarrow> p \<notin> set xs"
    and grow_bound: "grow xs p = Inr ys \<Longrightarrow> length xs < max_depth"
    and grow_nameable: "grow xs p = Inr ys \<Longrightarrow> nameable p"
    and grow_total: "p \<notin> set xs \<Longrightarrow> length xs < max_depth \<Longrightarrow> nameable p \<Longrightarrow> \<exists>ys. grow xs p = Inr ys"
begin

lemma grow_iff:
  "grow xs p = Inr ys \<longleftrightarrow> ys = xs @ [p] \<and> p \<notin> set xs \<and> length xs < max_depth \<and> nameable p"
  using grow_result grow_fresh grow_bound grow_nameable grow_total by metis

lemma grow_all_iff:
  "grow_all grow xs ps = Inr ys \<longleftrightarrow>
     ys = xs @ ps \<and> distinct ps \<and> set ps \<inter> set xs = {} \<and> list_all nameable ps \<and>
     (ps \<noteq> [] \<longrightarrow> length xs + length ps \<le> max_depth)"
proof (induction ps arbitrary: xs)
  case Nil
  then show ?case by auto
next
  case (Cons p ps)
  show ?case
  proof (cases "grow xs p")
    case (Inl e)
    then have no: "\<nexists>ys. grow xs p = Inr ys" by simp
    have "\<not> (p \<notin> set xs \<and> length xs < max_depth \<and> nameable p)"
      using no grow_total by blast
    with Inl show ?thesis by auto
  next
    case (Inr zs)
    then have "zs = xs @ [p]" "p \<notin> set xs" "length xs < max_depth" "nameable p"
      by (auto simp: grow_iff)
    with Inr Cons.IH [of zs] show ?thesis by auto
  qed
qed

end

interpretation on_record: chain_builder chain_Append chain_MaxDepth "\<lambda>_. True"
  by unfold_locales (auto simp: chain_Append_def split: if_splits)

section \<open>Properties\<close>

text \<open>
  C1. \<^verbatim>\<open>Validate\<close> accepts exactly the chains SPEC 5.1 allows, and when it refuses, the
  error names the first rule broken: depth before anything else, then, at the first bad entry, a
  repeated entry before a bad scheme.
\<close>

theorem Validate_complete:
  "(chain_Validate xs = None \<longleftrightarrow> wf_chain xs) \<and>
   (chain_Validate xs = Some Chain_ErrTooDeep \<longleftrightarrow> length xs > 32) \<and>
   (\<forall>e. e \<noteq> Chain_ErrTooDeep \<and> chain_Validate xs = Some e \<longrightarrow>
      (\<exists>pre p post. xs = pre @ p # post \<and> wf_chain pre \<and>
        (e = Chain_ErrCycle \<and> p \<in> set pre \<or>
         e = Chain_ErrInvalidEntry \<and> p \<notin> set pre \<and> \<not> entryPattern p)))"
proof (intro conjI allI impI)
  show "chain_Validate xs = None \<longleftrightarrow> wf_chain xs" by (rule Validate_iff_wf)
  have "validate_loop {} xs \<noteq> Some Chain_ErrTooDeep"
    using validate_loop_Some by fastforce
  then show "chain_Validate xs = Some Chain_ErrTooDeep \<longleftrightarrow> length xs > 32"
    by (simp add: chain_Validate_def chain_MaxDepth_def)
next
  fix e assume e: "e \<noteq> Chain_ErrTooDeep \<and> chain_Validate xs = Some e"
  then have "validate_loop {} xs = Some e" and len: "length xs \<le> chain_MaxDepth"
    by (auto simp: chain_Validate_def split: if_splits)
  from validate_loop_Some [OF this(1)] obtain pre p post
    where "xs = pre @ p # post" "validate_loop {} pre = None"
      "e = Chain_ErrCycle \<and> p \<in> set pre \<or>
       e = Chain_ErrInvalidEntry \<and> p \<notin> set pre \<and> \<not> entryPattern p"
    by auto
  moreover from this(1,2) len have "wf_chain pre"
    by (auto simp: wf_chain_def validate_loop_None)
  ultimately show "\<exists>pre p post. xs = pre @ p # post \<and> wf_chain pre \<and>
        (e = Chain_ErrCycle \<and> p \<in> set pre \<or>
         e = Chain_ErrInvalidEntry \<and> p \<notin> set pre \<and> \<not> entryPattern p)"
    by blast
qed

theorem Validate_complete_witness:
  "\<exists>pre p post. [''user://a'', ''agent://b'', ''user://a''] = pre @ p # post \<and> wf_chain pre \<and> p \<in> set pre"
proof -
  have "chain_Validate [''user://a'', ''agent://b'', ''user://a''] = Some Chain_ErrCycle"
    by (simp add: chain_Validate_def chain_MaxDepth_def entryPattern_def)
  with Validate_complete [of "[''user://a'', ''agent://b'', ''user://a'']"] show ?thesis
    by (metis chain_error.distinct(2,3))
qed

end
