(* ===== verification/Deleg_Chain.thy ===== *)
theory Deleg_Chain
  imports Record_Chain
begin

text \<open>
  Package \<^verbatim>\<open>delegation\<close>, delegation/chain.go: the RFC 8693 \<^verbatim>\<open>act\<close> claim and
  its conversion to and from the root-first chain of the record. The theory shows that building
  and reading are inverse (the reversal is done once each way), and that the door's rule
  (\<^verbatim>\<open>Chain\<close>) agrees with the record's (\<^verbatim>\<open>chain.Validate\<close>).
\<close>

section \<open>Data\<close>

definition MaxDepth :: nat where
  "MaxDepth = 32"

definition MaxActorsWithSubject :: nat where
  "MaxActorsWithSubject = MaxDepth - 1"

text \<open>
  The sentinel errors of the whole package (chain.go, jose.go, dpop.go, verify.go, access.go,
  revocations.go). \<open>ErrWrongKeyBecause\<close> is the wrapping \<^verbatim>\<open>fmt.Errorf\<close> of
  \<^verbatim>\<open>ErrWrongKey\<close> around the proof's own reason, and \<open>ErrOther\<close> an error with no
  sentinel.
\<close>

datatype deleg_error =
    ErrNoSubject | ErrTooDeep | ErrSelf | ErrCycle | ErrInvalidEntry
  | ErrNoKid | ErrUnknownKid | ErrBadSignature | ErrAlgNotAllowed
  | ErrNoKey | ErrPrivate | ErrSignature | ErrBinding | ErrStale | ErrReplay
  | ErrExpired | ErrIssuer | ErrAudience | ErrNotBound | ErrWrongKey | ErrRevoked
  | ErrNoProof | ErrMalformed
  | ErrNotYetValid | ErrNotConfigured | ErrReplayCacheFull
  | ErrCursorWentBackwards | ErrNoCursor
  | ErrWrongKeyBecause deleg_error
  | ErrOther

text \<open>\<^verbatim>\<open>Act\<close>: a subject and, behind a pointer that may be nil, the prior actor.\<close>

datatype Act = Act (act_Sub: string) (act_Act: "Act option")

section \<open>Building, reading, extending\<close>

text \<open>The loop of \<^verbatim>\<open>BuildAct\<close>: each name wraps what came before.\<close>

fun BuildAct_loop :: "Act option \<Rightarrow> string list \<Rightarrow> deleg_error + Act option" where
  "BuildAct_loop a [] = Inr a"
| "BuildAct_loop a (s # chain) =
     (if s = [] then Inl ErrNoSubject else BuildAct_loop (Some (Act s a)) chain)"

definition BuildAct :: "string list \<Rightarrow> deleg_error + Act option" where
  "BuildAct chain =
     (if length chain = 0 then Inr None
      else if length chain > MaxDepth then Inl ErrTooDeep
      else BuildAct_loop None chain)"

fun ReadAct_loop :: "Act option \<Rightarrow> string list \<Rightarrow> deleg_error + string list" where
  "ReadAct_loop None reversed = Inr reversed"
| "ReadAct_loop (Some (Act s prior)) reversed =
     (if length reversed \<ge> MaxDepth then Inl ErrTooDeep
      else if s = [] then Inl ErrNoSubject
      else ReadAct_loop prior (reversed @ [s]))"

definition ReadAct :: "Act option \<Rightarrow> deleg_error + string list" where
  "ReadAct act = (case ReadAct_loop act [] of Inl e \<Rightarrow> Inl e | Inr reversed \<Rightarrow> Inr (rev reversed))"

definition Extend :: "string list \<Rightarrow> string \<Rightarrow> deleg_error + string list" where
  "Extend chain actor =
     (if actor = [] then Inl ErrNoSubject
      else if length chain + 1 > MaxDepth then Inl ErrTooDeep
      else if actor \<in> set chain then Inl ErrSelf
      else Inr (chain @ [actor]))"

fun Chain_loop :: "string set \<Rightarrow> string list \<Rightarrow> deleg_error option" where
  "Chain_loop seen [] = None"
| "Chain_loop seen (p # ps) =
     (if p \<in> seen then Some ErrCycle
      else if \<not> prefix ''agent://'' p \<and> \<not> prefix ''user://'' p then Some ErrInvalidEntry
      else Chain_loop (insert p seen) ps)"

definition Chain :: "string \<Rightarrow> Act option \<Rightarrow> deleg_error + string list" where
  "Chain sub act =
     (case ReadAct act of
        Inl e \<Rightarrow> Inl e
      | Inr actors \<Rightarrow>
          if sub \<noteq> [] \<and> length actors > MaxActorsWithSubject then Inl ErrTooDeep
          else
            let out = (if sub \<noteq> [] then sub # actors else actors)
            in case Chain_loop {} out of Some e \<Rightarrow> Inl e | None \<Rightarrow> Inr out)"

section \<open>The names an act claim holds\<close>

text \<open>Abstract view of an \<^verbatim>\<open>act\<close> claim: its names, outermost (current) first.\<close>

fun act_names :: "Act option \<Rightarrow> string list" where
  "act_names None = []"
| "act_names (Some (Act s prior)) = s # act_names prior"

lemma act_names_inj: "act_names a = act_names b \<longleftrightarrow> a = b"
proof (induction a arbitrary: b rule: act_names.induct)
  case 1
  then show ?case by (cases b rule: act_names.cases) auto
next
  case (2 s prior)
  then show ?case by (cases b rule: act_names.cases) auto
qed

lemma BuildAct_loop_iff:
  "BuildAct_loop a xs = Inr b \<longleftrightarrow> [] \<notin> set xs \<and> act_names b = rev xs @ act_names a"
proof (induction xs arbitrary: a)
  case Nil
  show ?case using act_names_inj [of b a] by auto
next
  case (Cons s xs)
  then show ?case by auto
qed

lemma BuildAct_iff:
  "BuildAct xs = Inr b \<longleftrightarrow> length xs \<le> MaxDepth \<and> [] \<notin> set xs \<and> act_names b = rev xs"
proof (cases "xs = []")
  case True
  have "b = None \<longleftrightarrow> act_names b = []"
    using act_names_inj [of b None] by simp
  with True show ?thesis by (auto simp: BuildAct_def)
next
  case False
  then show ?thesis by (auto simp: BuildAct_def BuildAct_loop_iff)
qed

lemma ReadAct_loop_iff:
  "length acc \<le> MaxDepth \<Longrightarrow>
   ReadAct_loop a acc = Inr ys \<longleftrightarrow>
     ys = acc @ act_names a \<and> [] \<notin> set (act_names a) \<and> length acc + length (act_names a) \<le> MaxDepth"
proof (induction a acc rule: ReadAct_loop.induct)
  case (1 reversed)
  then show ?case by auto
next
  case (2 s prior reversed)
  then show ?case by (cases "length reversed < MaxDepth") auto
qed

lemma ReadAct_iff:
  "ReadAct a = Inr ys \<longleftrightarrow>
     ys = rev (act_names a) \<and> [] \<notin> set (act_names a) \<and> length (act_names a) \<le> MaxDepth"
proof -
  have "ReadAct a = Inr ys \<longleftrightarrow> (\<exists>r. ReadAct_loop a [] = Inr r \<and> ys = rev r)"
    by (auto simp: ReadAct_def split: sum.splits)
  then show ?thesis by (simp add: ReadAct_loop_iff conj_commute)
qed

lemma Chain_loop_None:
  "Chain_loop seen xs = None \<longleftrightarrow> validate_loop seen xs = None"
  by (induction seen xs rule: Chain_loop.induct) (auto simp: entryPattern_def)

lemma Chain_loop_validate:
  "Chain_loop seen xs = map_option (\<lambda>e. case e of Chain_ErrCycle \<Rightarrow> ErrCycle
       | Chain_ErrTooDeep \<Rightarrow> ErrTooDeep | Chain_ErrInvalidEntry \<Rightarrow> ErrInvalidEntry)
     (validate_loop seen xs)"
  by (induction seen xs rule: Chain_loop.induct) (auto simp: entryPattern_def)

text \<open>What \<^verbatim>\<open>Chain\<close> returns, in one equation: the assembled list, when it is one.\<close>

definition assembled :: "string \<Rightarrow> Act option \<Rightarrow> string list" where
  "assembled sub act = (if sub \<noteq> [] then sub # rev (act_names act) else rev (act_names act))"

lemma Chain_readable:
  assumes "ReadAct act = Inr actors"
  shows "Chain sub act =
    (if sub \<noteq> [] \<and> length actors > MaxActorsWithSubject then Inl ErrTooDeep
     else case Chain_loop {} (assembled sub act) of Some e \<Rightarrow> Inl e | None \<Rightarrow> Inr (assembled sub act))"
proof -
  have "actors = rev (act_names act)" using assms by (simp add: ReadAct_iff)
  then have "(if sub \<noteq> [] then sub # actors else actors) = assembled sub act"
    by (simp add: assembled_def)
  with assms show ?thesis by (simp only: Chain_def Let_def sum.case)
qed

lemma length_assembled:
  "length (assembled sub act) = length (act_names act) + (if sub \<noteq> [] then 1 else 0)"
  by (simp add: assembled_def)

lemma Chain_iff:
  "Chain sub act = Inr out \<longleftrightarrow>
     out = assembled sub act \<and> [] \<notin> set (act_names act) \<and> wf_chain out"
proof (cases "ReadAct act")
  case (Inl e)
  then have "\<nexists>ys. ReadAct act = Inr ys" by simp
  then have "\<not> ([] \<notin> set (act_names act) \<and> length (act_names act) \<le> MaxDepth)"
    using ReadAct_iff by blast
  moreover have "wf_chain (assembled sub act) \<Longrightarrow> length (act_names act) \<le> MaxDepth"
    using length_assembled [of sub act]
    by (simp add: wf_chain_def chain_MaxDepth_def MaxDepth_def split: if_splits)
  ultimately show ?thesis using Inl by (auto simp: Chain_def)
next
  case (Inr actors)
  then have r: "actors = rev (act_names act)" "[] \<notin> set (act_names act)"
    "length (act_names act) \<le> 32"
    by (simp_all add: ReadAct_iff MaxDepth_def)
  have loop: "Chain_loop {} (assembled sub act) = None \<and> length (assembled sub act) \<le> 32 \<longleftrightarrow>
      wf_chain (assembled sub act)"
    unfolding Chain_loop_None validate_loop_None wf_chain_def chain_MaxDepth_def by auto
  have deep: "sub \<noteq> [] \<and> length actors > MaxActorsWithSubject \<longleftrightarrow> length (assembled sub act) > 32"
    using r length_assembled [of sub act] by (auto simp: MaxActorsWithSubject_def MaxDepth_def)
  show ?thesis
    unfolding Chain_readable [OF Inr] deep using r(2) loop
    by (cases "Chain_loop {} (assembled sub act)") auto
qed

interpretation at_door: chain_builder Extend MaxDepth "\<lambda>p. p \<noteq> []"
  by unfold_locales (auto simp: Extend_def split: if_splits)

section \<open>Properties\<close>

text \<open>
  C2. Building an \<^verbatim>\<open>act\<close> claim from a chain and reading it back gives the same
  chain, in the same order: the two reversals cancel for every chain that can be built, and
  conversely every claim that can be read is the one its chain builds. The direction is the
  RFC's: the last entry of the chain, the immediate actor, is the outermost actor.
\<close>

theorem BuildAct_ReadAct_roundtrip:
  "(BuildAct xs = Inr a \<longrightarrow> ReadAct a = Inr xs) \<and>
   (ReadAct a = Inr xs \<longrightarrow> BuildAct xs = Inr a) \<and>
   (BuildAct (xs @ [p]) = Inr (Some b) \<longrightarrow> act_Sub b = p)"
proof (intro conjI impI)
  assume "BuildAct xs = Inr a"
  then show "ReadAct a = Inr xs"
    by (auto simp: BuildAct_iff ReadAct_iff)
next
  assume "ReadAct a = Inr xs"
  then show "BuildAct xs = Inr a"
    by (auto simp: BuildAct_iff ReadAct_iff)
next
  assume "BuildAct (xs @ [p]) = Inr (Some b)"
  then have "act_names (Some b) = p # rev xs" by (simp add: BuildAct_iff)
  then show "act_Sub b = p" by (cases b) simp
qed

theorem BuildAct_ReadAct_roundtrip_witness:
  "ReadAct (Some (Act ''agent://r'' (Some (Act ''user://a'' None)))) = Inr [''user://a'', ''agent://r'']"
proof -
  have "BuildAct [''user://a'', ''agent://r''] =
      Inr (Some (Act ''agent://r'' (Some (Act ''user://a'' None))))"
    by (simp add: BuildAct_def MaxDepth_def)
  with BuildAct_ReadAct_roundtrip [of "[''user://a'', ''agent://r'']"
      "Some (Act ''agent://r'' (Some (Act ''user://a'' None)))" "[]" "Act [] None"]
  show ?thesis by blast
qed

text \<open>
  C3. The door and the record agree. A chain the door assembles from a token is one the record's
  \<^verbatim>\<open>Validate\<close> accepts; a chain the record accepts, whose subject and actors a token
  names, is one the door accepts, in the same order; and every refusal of the door for a readable
  claim is the record's refusal of the assembled list, error for error.
\<close>

theorem door_and_record_agree:
  "(Chain sub act = Inr out \<longrightarrow> chain_Validate out = None \<and> out = assembled sub act) \<and>
   (sub \<noteq> [] \<and> chain_Validate (sub # actors) = None \<and> BuildAct actors = Inr act \<longrightarrow>
      Chain sub act = Inr (sub # actors)) \<and>
   (\<forall>actors e. ReadAct act = Inr actors \<and> Chain sub act = Inl e \<longrightarrow>
      (\<exists>e'. chain_Validate (assembled sub act) = Some e' \<and>
        e = (case e' of Chain_ErrCycle \<Rightarrow> ErrCycle | Chain_ErrTooDeep \<Rightarrow> ErrTooDeep
             | Chain_ErrInvalidEntry \<Rightarrow> ErrInvalidEntry)))"
proof (intro conjI impI allI)
  assume "Chain sub act = Inr out"
  then show "chain_Validate out = None" and "out = assembled sub act"
    unfolding Chain_iff Validate_iff_wf by blast+
next
  assume a: "sub \<noteq> [] \<and> chain_Validate (sub # actors) = None \<and> BuildAct actors = Inr act"
  then have "wf_chain (sub # actors)" "act_names act = rev actors" "[] \<notin> set actors"
    by (simp_all add: Validate_iff_wf BuildAct_iff)
  with a show "Chain sub act = Inr (sub # actors)"
    by (simp add: Chain_iff assembled_def)
next
  fix actors e
  assume a: "ReadAct act = Inr actors \<and> Chain sub act = Inl e"
  then have r: "actors = rev (act_names act)" "length (act_names act) \<le> 32"
    by (simp_all add: ReadAct_iff MaxDepth_def)
  then have deep: "sub \<noteq> [] \<and> length actors > MaxActorsWithSubject \<longleftrightarrow> length (assembled sub act) > 32"
    using length_assembled [of sub act] by (auto simp: MaxActorsWithSubject_def MaxDepth_def)
  from a show "\<exists>e'. chain_Validate (assembled sub act) = Some e' \<and>
        e = (case e' of Chain_ErrCycle \<Rightarrow> ErrCycle | Chain_ErrTooDeep \<Rightarrow> ErrTooDeep
             | Chain_ErrInvalidEntry \<Rightarrow> ErrInvalidEntry)"
    unfolding Chain_readable [OF conjunct1 [OF a]] deep Chain_loop_validate
      chain_Validate_def chain_MaxDepth_def
    by (auto split: if_splits option.splits)
qed

theorem door_and_record_agree_witness:
  "Chain ''user://a'' (Some (Act ''agent://r'' None)) = Inr [''user://a'', ''agent://r'']"
proof -
  have "chain_Validate [''user://a'', ''agent://r''] = None"
    by (simp add: chain_Validate_def chain_MaxDepth_def entryPattern_def)
  moreover have "BuildAct [''agent://r''] = Inr (Some (Act ''agent://r'' None))"
    by (simp add: BuildAct_def MaxDepth_def)
  ultimately show ?thesis
    using door_and_record_agree [of "''user://a''" "Some (Act ''agent://r'' None)" "[]" "[''agent://r'']"]
    by simp
qed

text \<open>
  Growing a chain one principal at a time, with the record's \<^verbatim>\<open>Append\<close> or the
  door's \<^verbatim>\<open>Extend\<close>, from the empty chain: every step succeeds exactly when the result
  names each principal once and holds at most 32 of them, the result is the principals in the
  order they were added, and the two builders never disagree on a chain of named principals.
\<close>

theorem builders_agree:
  "(grow_all chain_Append [] ps = Inr ys \<longleftrightarrow> ys = ps \<and> distinct ps \<and> length ps \<le> 32) \<and>
   (grow_all Extend [] ps = Inr ys \<longleftrightarrow> ys = ps \<and> distinct ps \<and> length ps \<le> 32 \<and> [] \<notin> set ps)"
  unfolding on_record.grow_all_iff at_door.grow_all_iff
  by (auto simp: chain_MaxDepth_def MaxDepth_def list_all_iff)

end
