(* ===== verification/Clock.thy ===== *)
theory Clock
  imports Prelude
begin

text \<open>
  Go's \<^verbatim>\<open>time.Time\<close> and \<^verbatim>\<open>time.Duration\<close> as far as the module uses them.
  A time is its distance from the Unix epoch in nanoseconds, a duration a number of nanoseconds;
  \<^verbatim>\<open>Time.Sub\<close> saturates at the ends of the 64-bit range, and \<^verbatim>\<open>time.Unix\<close>
  wraps when it rebases a second to year one. The clock itself is an argument of every operation
  that reads it.
\<close>

type_synonym gtime = int
type_synonym duration = int

definition Second :: duration where "Second = 1000000000"
definition Minute :: duration where "Minute = 60 * Second"

text \<open>Seconds from year one to 1970, the offset \<^verbatim>\<open>time.Unix\<close> adds.\<close>

definition unixToInternal :: int where "unixToInternal = 62135596800"

definition time_of_unix :: "int \<Rightarrow> gtime" where
  "time_of_unix sec = (wrap64 (sec + unixToInternal) - unixToInternal) * Second"

definition time_Unix :: "gtime \<Rightarrow> int" where
  "time_Unix t = t div Second"

definition time_Sub :: "gtime \<Rightarrow> gtime \<Rightarrow> duration" where
  "time_Sub t u = clamp64 (t - u)"

text \<open>A time whose Unix second fits an \<^verbatim>\<open>int64\<close>, as every Go time read from a clock does.\<close>

definition clock_time :: "gtime \<Rightarrow> bool" where
  "clock_time t \<longleftrightarrow> is_int64 (time_Unix t)"

lemma time_Sub_le [simp]: "is_int64 w \<Longrightarrow> w < maxInt64 \<Longrightarrow> time_Sub t u \<le> w \<longleftrightarrow> t - u \<le> w"
  by (auto simp: time_Sub_def clamp64_def is_int64_def)

lemma time_Sub_less [simp]: "is_int64 w \<Longrightarrow> minInt64 < w \<Longrightarrow> time_Sub t u < w \<longleftrightarrow> t - u < w"
  by (auto simp: time_Sub_def clamp64_def is_int64_def)

lemma time_Unix_mono: "t \<le> u \<Longrightarrow> time_Unix t \<le> time_Unix u"
  by (simp add: time_Unix_def Second_def zdiv_mono1)

lemma time_Unix_shift: "time_Unix (t + k * Second) = time_Unix t + k"
  by (simp add: time_Unix_def Second_def)

lemma time_Unix_of_unix: "is_int64 (s + unixToInternal) \<Longrightarrow> time_Unix (time_of_unix s) = s"
  by (simp add: time_Unix_def time_of_unix_def wrap64_id Second_def)

text \<open>Sixty seconds either side of a moment, read in nanoseconds or in whole seconds.\<close>

lemma window_seconds:
  assumes "t - u \<le> k * Second"
  shows "time_Unix t \<le> time_Unix u + k"
proof -
  from assms have "t \<le> u + k * Second" by simp
  then have "time_Unix t \<le> time_Unix (u + k * Second)" by (rule time_Unix_mono)
  then show ?thesis by (simp add: time_Unix_shift)
qed

end
