(* ===== verification/Replay.thy ===== *)
theory Replay
  imports Clock Deleg_Chain
begin

text \<open>
  The two memories that make a proof single use: the \<^verbatim>\<open>ReplayCache\<close> of
  delegation/replay.go (two generations, bounded) and the \<^verbatim>\<open>Verifier\<close>'s seen-set of
  delegation/dpop.go (one map, pruned by the proof's own \<^verbatim>\<open>iat\<close>). What a verifier relies
  on is the locale \<open>single_use\<close>, proved for both.
\<close>

section \<open>Constants\<close>

definition Window :: duration where "Window = 60 * Second"
definition replayGeneration :: duration where "replayGeneration = 2 * Window"

lemma Window_eq: "Window = 60000000000" by (simp add: Window_def Second_def)

lemma Window_int64 [simp]: "is_int64 Window" "is_int64 (- Window)" "Window < maxInt64" "minInt64 < - Window"
  by (simp_all add: Window_eq int64_defs)

text \<open>The freshness test of \<^verbatim>\<open>verifyProof\<close>.\<close>

definition stale :: "gtime \<Rightarrow> gtime \<Rightarrow> bool" where
  "stale now iatTime \<longleftrightarrow> (let drift = time_Sub now iatTime in drift < - Window \<or> drift > Window)"

lemma not_stale: "\<not> stale now t \<longleftrightarrow> - Window \<le> now - t \<and> now - t \<le> Window"
proof -
  have "time_Sub now t < - Window \<longleftrightarrow> now - t < - Window" by (rule time_Sub_less) simp_all
  moreover have "time_Sub now t \<le> Window \<longleftrightarrow> now - t \<le> Window" by (rule time_Sub_le) simp_all
  ultimately show ?thesis unfolding stale_def Let_def by linarith
qed

section \<open>Saturating subtraction\<close>

definition saturatingSub :: "int \<Rightarrow> int \<Rightarrow> int" where
  "saturatingSub a b =
     (let d = wrap64 (a - b) in
      if (b < 0 \<and> d < a) \<or> (b > 0 \<and> d > a)
      then (if b < 0 then maxInt64 else minInt64)
      else d)"

lemma saturatingSub_clamp:
  assumes "is_int64 a" "is_int64 b"
  shows "saturatingSub a b = clamp64 (a - b)"
proof -
  consider "is_int64 (a - b)" | "maxInt64 < a - b" | "a - b < minInt64"
    unfolding is_int64_def by linarith
  then show ?thesis
  proof cases
    case 1
    then show ?thesis by (auto simp: saturatingSub_def wrap64_id clamp64_id)
  next
    case 2
    then have "b < 0" using assms by (simp add: is_int64_def)
    moreover have "wrap64 (a - b) = a - b - 2 ^ 64"
      using 2 assms by (intro wrap64_over) (auto simp: int64_defs)
    ultimately show ?thesis using 2 assms
      by (simp add: saturatingSub_def clamp64_def int64_defs)
  next
    case 3
    then have "b > 0" using assms by (simp add: is_int64_def)
    moreover have "wrap64 (a - b) = a - b + 2 ^ 64"
      using 3 assms by (intro wrap64_under) (auto simp: int64_defs)
    ultimately show ?thesis using 3 assms
      by (simp add: saturatingSub_def clamp64_def int64_defs)
  qed
qed

section \<open>The replay cache\<close>

record ReplayCache =
  rc_cap :: int
  begun :: bool
  started :: int
  current :: "string set"
  previous :: "string set"

definition NewReplayCache :: "int \<Rightarrow> ReplayCache" where
  "NewReplayCache c = \<lparr>rc_cap = c, begun = False, started = 0, current = {}, previous = {}\<rparr>"

text \<open>The rotation at the head of \<^verbatim>\<open>CheckAndRecord\<close>, for a clock second and a generation length.\<close>

definition rotate_generations :: "ReplayCache \<Rightarrow> int \<Rightarrow> int \<Rightarrow> ReplayCache" where
  "rotate_generations c sec gen =
     (if \<not> begun c \<or> saturatingSub sec (started c) \<ge> gen then
        c\<lparr>previous := (if \<not> begun c \<or> saturatingSub sec (started c) \<ge> 2 * gen then {} else current c),
          current := {}, started := sec, begun := True\<rparr>
      else c)"

definition CheckAndRecord :: "ReplayCache \<Rightarrow> string \<Rightarrow> gtime \<Rightarrow> ReplayCache \<times> deleg_error option" where
  "CheckAndRecord c jti now =
     (let sec = time_Unix now;
          gen = replayGeneration div Second;
          c = rotate_generations c sec gen
      in if jti \<in> current c then (c, Some ErrReplay)
         else if jti \<in> previous c then (c, Some ErrReplay)
         else if int (card (current c)) \<ge> rc_cap c then (c, Some ErrReplayCacheFull)
         else (c\<lparr>current := insert jti (current c)\<rparr>, None))"

section \<open>The verifier's seen-set\<close>

type_synonym Verifier = "string \<rightharpoonup> gtime"

definition NewVerifier :: Verifier where
  "NewVerifier = Map.empty"

definition prune_seen :: "Verifier \<Rightarrow> gtime \<Rightarrow> Verifier" where
  "prune_seen seen now =
     (\<lambda>i. case seen i of None \<Rightarrow> None
          | Some seenIat \<Rightarrow> if time_Sub now seenIat > Window then None else Some seenIat)"

definition remember :: "Verifier \<Rightarrow> string \<Rightarrow> gtime \<Rightarrow> gtime \<Rightarrow> Verifier \<times> deleg_error option" where
  "remember seen jti iat now =
     (let seen = prune_seen seen now in
      if seen jti \<noteq> None then (seen, Some ErrReplay) else (seen(jti \<mapsto> iat), None))"

section \<open>Interface: a memory that makes a proof single use\<close>

text \<open>
  \<open>present s jti iat now\<close> offers a proof with identifier \<open>jti\<close> made at \<open>iat\<close>;
  \<open>remembers s jti iat\<close> is what the provider keeps of one it accepted. While the clock has
  not passed the proof's window, whatever else is presented, the memory keeps it and refuses the
  identifier.
\<close>

text \<open>A run of presentations of \<open>(jti, iat, now)\<close>: the answers, in order.\<close>

fun present_all ::
  "('s \<Rightarrow> string \<Rightarrow> gtime \<Rightarrow> gtime \<Rightarrow> 's \<times> deleg_error option) \<Rightarrow>
   's \<Rightarrow> (string \<times> gtime \<times> gtime) list \<Rightarrow> deleg_error option list" where
  "present_all present s [] = []"
| "present_all present s ((jti, iat, now) # ps) =
     (case present s jti iat now of (s', r) \<Rightarrow> r # present_all present s' ps)"

locale single_use =
  fixes present :: "'s \<Rightarrow> string \<Rightarrow> gtime \<Rightarrow> gtime \<Rightarrow> 's \<times> deleg_error option"
    and remembers :: "'s \<Rightarrow> string \<Rightarrow> gtime \<Rightarrow> bool"
    and sound_state :: "'s \<Rightarrow> bool"
  assumes accept_remembers:
      "sound_state s \<Longrightarrow> clock_time now \<Longrightarrow> \<not> stale now iat \<Longrightarrow> present s jti iat now = (s', None) \<Longrightarrow>
       remembers s' jti iat"
    and keeps_remembering:
      "sound_state s \<Longrightarrow> clock_time now \<Longrightarrow> remembers s jti iat \<Longrightarrow> now - iat \<le> Window \<Longrightarrow>
       present s j i now = (s', r) \<Longrightarrow> remembers s' jti iat"
    and refuses_remembered:
      "sound_state s \<Longrightarrow> clock_time now \<Longrightarrow> remembers s jti iat \<Longrightarrow> now - iat \<le> Window \<Longrightarrow>
       present s jti i now = (s', r) \<Longrightarrow> r \<noteq> None"
    and keeps_sound:
      "sound_state s \<Longrightarrow> clock_time now \<Longrightarrow> present s j i now = (s', r) \<Longrightarrow> sound_state s'"
begin

lemma length_present_all [simp]: "length (present_all present s ps) = length ps"
  by (induction ps arbitrary: s) (auto split: prod.splits)

lemma present_all_take:
  "k < n \<Longrightarrow> n \<le> length ps \<Longrightarrow> present_all present s (take n ps) ! k = present_all present s ps ! k"
proof (induction ps arbitrary: s k n)
  case Nil
  then show ?case by simp
next
  case (Cons x ps)
  obtain j i now where "x = (j, i, now)" by (cases x)
  with Cons show ?case by (cases n; cases k) (auto split: prod.splits)
qed

lemma remembered_refused:
  "sound_state s \<Longrightarrow> remembers s jti iat \<Longrightarrow>
   \<forall>(j, i, now) \<in> set ps. clock_time now \<and> now - iat \<le> Window \<Longrightarrow>
   k < length ps \<Longrightarrow> fst (ps ! k) = jti \<Longrightarrow> present_all present s ps ! k \<noteq> None"
proof (induction ps arbitrary: s k)
  case Nil
  then show ?case by simp
next
  case (Cons x ps)
  obtain j i now where x: "x = (j, i, now)" by (cases x)
  note prems = Cons.prems [unfolded x]
  obtain s' r where p: "present s j i now = (s', r)" by (cases "present s j i now")
  from prems have now: "clock_time now" "now - iat \<le> Window" by auto
  show ?case
  proof (cases k)
    case 0
    with prems have "j = jti" by simp
    with p now prems(1,2) have "r \<noteq> None" using refuses_remembered by blast
    with 0 p x show ?thesis by simp
  next
    case (Suc k')
    have "sound_state s'" "remembers s' jti iat"
      using p now prems(1,2) keeps_sound keeps_remembering by blast+
    with Cons.IH prems Suc p x show ?thesis by simp
  qed
qed

lemma accepted_once:
  assumes "sound_state s"
    and "\<forall>(j, i, now) \<in> set ps. clock_time now"
    and "a < b" "b < length ps"
    and "ps ! a = (jti, iat, now)" "\<not> stale now iat" "present_all present s ps ! a = None"
    and "fst (ps ! b) = jti" "present_all present s ps ! b = None"
  shows "\<exists>k. a < k \<and> k \<le> b \<and> snd (snd (ps ! k)) - iat > Window"
  using assms
proof (induction ps arbitrary: s a b)
  case Nil
  then show ?case by simp
next
  case (Cons x ps)
  obtain j i n where x: "x = (j, i, n)" by (cases x)
  note prems = Cons.prems [unfolded x]
  obtain s' r where p: "present s j i n = (s', r)" by (cases "present s j i n")
  from prems(2) have n: "clock_time n" by simp
  have s': "sound_state s'" using p n prems(1) keeps_sound by blast
  show ?case
  proof (cases a)
    case (Suc a')
    then obtain b' where b: "b = Suc b'" using prems(3) by (cases b) auto
    have "\<exists>k. a' < k \<and> k \<le> b' \<and> snd (snd (ps ! k)) - iat > Window"
      by (rule Cons.IH [OF s']) (use prems Suc b p in auto)
    then obtain k where "a' < k \<and> k \<le> b' \<and> snd (snd (ps ! k)) - iat > Window" by blast
    with Suc b x show ?thesis by (intro exI [of _ "Suc k"]) auto
  next
    case 0
    with prems(5,6,7) p have r: "r = None" and eq: "j = jti" "i = iat" "n = now" by auto
    have rem: "remembers s' jti iat"
      using accept_remembers [OF prems(1) n] prems(6) p r eq by blast
    obtain b' where b: "b = Suc b'" using prems(3) by (cases b) auto
    show ?thesis
    proof (rule ccontr)
      assume "\<not> ?thesis"
      then have none: "\<And>k. a < k \<Longrightarrow> k \<le> b \<Longrightarrow> \<not> snd (snd (((j, i, n) # ps) ! k)) - iat > Window"
        unfolding x by blast
      have small: "snd (snd (ps ! k)) - iat \<le> Window" if "k \<le> b'" for k
        using none [of "Suc k"] that 0 b by simp
      have "\<forall>(j, i, now) \<in> set (take (Suc b') ps). clock_time now \<and> now - iat \<le> Window"
      proof (intro ballI)
        fix x assume "x \<in> set (take (Suc b') ps)"
        then obtain k where k: "k \<le> b'" "k < length ps" "x = ps ! k"
          by (auto simp: in_set_conv_nth less_Suc_eq_le)
        then have "x \<in> set ((j, i, n) # ps)" by simp
        then have "case x of (j, i, now) \<Rightarrow> clock_time now" using prems(2) by blast
        then show "case x of (j, i, now) \<Rightarrow> clock_time now \<and> now - iat \<le> Window"
          using small [OF k(1)] k(3) by (auto split: prod.splits)
      qed
      then have "present_all present s' (take (Suc b') ps) ! b' \<noteq> None"
        using prems(4,8) b by (intro remembered_refused [OF s' rem]) auto
      moreover have "present_all present s' (take (Suc b') ps) ! b' = present_all present s' ps ! b'"
        by (rule present_all_take) (use prems(4) b in auto)
      ultimately show False using prems(9) b p by simp
    qed
  qed
qed

end

section \<open>The two providers\<close>

definition rc_present :: "ReplayCache \<Rightarrow> string \<Rightarrow> gtime \<Rightarrow> gtime \<Rightarrow> ReplayCache \<times> deleg_error option" where
  "rc_present c jti iat now = CheckAndRecord c jti now"

definition rc_remembers :: "ReplayCache \<Rightarrow> string \<Rightarrow> gtime \<Rightarrow> bool" where
  "rc_remembers c jti iat \<longleftrightarrow> begun c \<and>
     (jti \<in> current c \<and> started c > time_Unix iat - 180 \<or>
      jti \<in> previous c \<and> started c > time_Unix iat - 60)"

definition rc_sound :: "ReplayCache \<Rightarrow> bool" where
  "rc_sound c \<longleftrightarrow> is_int64 (started c) \<and> finite (current c) \<and> finite (previous c)"

lemma generation_120: "replayGeneration div Second = 120"
  by (simp add: replayGeneration_def Window_def Second_def)

lemma saturatingSub_ge:
  "is_int64 a \<Longrightarrow> is_int64 b \<Longrightarrow> 0 \<le> g \<Longrightarrow> g \<le> 240 \<Longrightarrow> g \<le> saturatingSub a b \<longleftrightarrow> g \<le> a - b"
  by (auto simp: saturatingSub_clamp clamp64_def minInt64_def maxInt64_def)

text \<open>The rotation, with the saturating subtraction read as the true difference.\<close>

lemma rotate_eq:
  assumes "rc_sound c" "is_int64 sec"
  shows "rotate_generations c sec (replayGeneration div Second) =
    (if \<not> begun c \<or> sec - started c \<ge> 120 then
        c\<lparr>previous := (if \<not> begun c \<or> sec - started c \<ge> 240 then {} else current c),
          current := {}, started := sec, begun := True\<rparr>
      else c)"
  using assms by (simp add: rotate_generations_def generation_120 saturatingSub_ge rc_sound_def)

lemma CheckAndRecord_eq:
  assumes "rc_sound c" "clock_time now"
    and "c' = rotate_generations c (time_Unix now) (replayGeneration div Second)"
  shows "CheckAndRecord c jti now =
    (if jti \<in> current c' \<union> previous c' then (c', Some ErrReplay)
     else if int (card (current c')) \<ge> rc_cap c' then (c', Some ErrReplayCacheFull)
     else (c'\<lparr>current := insert jti (current c')\<rparr>, None))"
  using assms by (simp add: CheckAndRecord_def Let_def)

lemma rotate_sound:
  assumes "rc_sound c" "is_int64 sec" "c' = rotate_generations c sec (replayGeneration div Second)"
  shows "rc_sound c' \<and> begun c' \<and> sec - started c' < 120 \<and> rc_cap c' = rc_cap c"
  using assms by (auto simp: rotate_eq rc_sound_def)

lemma rotate_remembers:
  assumes "rc_sound c" "is_int64 sec" "sec \<le> time_Unix iat + 60"
    and "c' = rotate_generations c sec (replayGeneration div Second)"
    and "rc_remembers c jti iat"
  shows "rc_remembers c' jti iat"
  using assms by (auto simp: rotate_eq rc_remembers_def)

lemma rc_remembers_insert:
  "rc_remembers c jti iat \<Longrightarrow> rc_remembers (c\<lparr>current := insert j (current c)\<rparr>) jti iat"
  by (auto simp: rc_remembers_def)

lemma window_unix: "now - iat \<le> Window \<Longrightarrow> time_Unix now \<le> time_Unix iat + 60"
  by (rule window_seconds) (simp add: Window_def)

interpretation cache: single_use rc_present rc_remembers rc_sound
proof (unfold_locales, goal_cases)
  case (1 s now iat jti s')
  define c where "c = rotate_generations s (time_Unix now) (replayGeneration div Second)"
  have "is_int64 (time_Unix now)" using 1(2) by (simp add: clock_time_def)
  note rot = rotate_sound [OF 1(1) this c_def]
  have "time_Unix iat \<le> time_Unix now + 60"
    using 1(3) by (intro window_seconds) (simp add: not_stale Window_def)
  with rot 1(4) show ?case
    by (auto simp: rc_present_def CheckAndRecord_eq [OF 1(1,2) c_def] rc_remembers_def split: if_splits)
next
  case (2 s now jti iat j i s' r)
  define c where "c = rotate_generations s (time_Unix now) (replayGeneration div Second)"
  have "is_int64 (time_Unix now)" using 2(2) by (simp add: clock_time_def)
  then have "rc_remembers c jti iat"
    using 2 window_unix by (intro rotate_remembers [OF 2(1) _ _ c_def]) auto
  with 2(5) show ?case
    by (auto simp: rc_present_def CheckAndRecord_eq [OF 2(1,2) c_def] rc_remembers_insert split: if_splits)
next
  case (3 s now jti iat i s' r)
  define c where "c = rotate_generations s (time_Unix now) (replayGeneration div Second)"
  have "is_int64 (time_Unix now)" using 3(2) by (simp add: clock_time_def)
  then have "rc_remembers c jti iat"
    using 3 window_unix by (intro rotate_remembers [OF 3(1) _ _ c_def]) auto
  then have "jti \<in> current c \<union> previous c" by (auto simp: rc_remembers_def)
  with 3(5) show ?case
    by (auto simp: rc_present_def CheckAndRecord_eq [OF 3(1,2) c_def])
next
  case (4 s now j i s' r)
  define c where "c = rotate_generations s (time_Unix now) (replayGeneration div Second)"
  have "is_int64 (time_Unix now)" using 4(2) by (simp add: clock_time_def)
  note rot = rotate_sound [OF 4(1) this c_def]
  with 4(3) show ?case
    by (auto simp: rc_present_def CheckAndRecord_eq [OF 4(1,2) c_def] rc_sound_def split: if_splits)
qed

definition seen_remembers :: "Verifier \<Rightarrow> string \<Rightarrow> gtime \<Rightarrow> bool" where
  "seen_remembers seen jti iat \<longleftrightarrow> seen jti = Some iat"

lemma prune_seen_iff:
  "prune_seen seen now i = Some t \<longleftrightarrow> seen i = Some t \<and> now - t \<le> Window"
proof -
  have "time_Sub now t \<le> Window \<longleftrightarrow> now - t \<le> Window" for t by (rule time_Sub_le) simp_all
  then show ?thesis by (auto simp: prune_seen_def not_le [symmetric] split: option.splits)
qed

interpretation seen_set: single_use remember seen_remembers "\<lambda>_. True"
proof (unfold_locales, goal_cases)
  case (2 s now jti iat j i s' r)
  then have "prune_seen s now jti = Some iat" by (simp add: prune_seen_iff seen_remembers_def)
  with 2(5) show ?case by (auto simp: remember_def Let_def seen_remembers_def split: if_splits)
next
  case (3 s now jti iat i s' r)
  then have "prune_seen s now jti = Some iat" by (simp add: prune_seen_iff seen_remembers_def)
  with 3(5) show ?case by (auto simp: remember_def Let_def)
qed (auto simp: remember_def Let_def seen_remembers_def split: if_splits)

section \<open>Properties\<close>

text \<open>
  C4. A proof is single use at a door. In any run of presentations to one
  \<^verbatim>\<open>ReplayCache\<close>, by anybody, of any identifiers, with a clock that may even step
  backwards: if a fresh proof was accepted and its identifier is accepted again later, then
  in between the clock showed a moment past the proof's own window, so the proof was stale.
\<close>

theorem ReplayCache_single_use:
  assumes "\<forall>(j, i, now) \<in> set ps. clock_time now"
    and "a < b" "b < length ps"
    and "ps ! a = (jti, iat, now)" "\<not> stale now iat" "fst (ps ! b) = jti"
    and "present_all rc_present (NewReplayCache n) ps ! a = None"
    and "present_all rc_present (NewReplayCache n) ps ! b = None"
  shows "\<exists>k. a < k \<and> k \<le> b \<and> snd (snd (ps ! k)) - iat > Window"
proof -
  have "rc_sound (NewReplayCache n)"
    by (simp add: rc_sound_def NewReplayCache_def int64_defs)
  from cache.accepted_once [OF this assms(1-5) assms(7,6,8)] show ?thesis .
qed

definition replay_example :: "(string \<times> gtime \<times> gtime) list" where
  "replay_example = [(''j'', 0, 0), (''j'', 0, 240 * Second)]"

theorem ReplayCache_single_use_witness:
  "\<exists>k. 0 < k \<and> k \<le> 1 \<and> snd (snd (replay_example ! k)) - 0 > Window"
proof (rule ReplayCache_single_use [where a = 0 and b = 1 and ps = replay_example and jti = "''j''"
      and now = 0 and n = 8])
  show "\<forall>(j, i, now) \<in> set replay_example. clock_time now"
    by (simp add: replay_example_def clock_time_def time_Unix_def Second_def int64_defs)
  show "\<not> stale 0 0" by (simp add: not_stale Window_eq)
qed (simp_all add: replay_example_def rc_present_def CheckAndRecord_def NewReplayCache_def
    rotate_generations_def generation_120 [unfolded Second_def] time_Unix_def Second_def
    saturatingSub_def wrap64_def Let_def)

text \<open>
  The same promise from the \<^verbatim>\<open>Verifier\<close>'s own seen-set, and exactly at its
  edge: an identifier accepted for a fresh proof is refused until the clock has passed that
  proof's \<^verbatim>\<open>iat\<close> by more than the window, which is the first moment the proof itself is
  stale.
\<close>

theorem Verifier_single_use:
  assumes "\<forall>(j, i, now) \<in> set ps. clock_time now"
    and "a < b" "b < length ps"
    and "ps ! a = (jti, iat, now)" "\<not> stale now iat" "fst (ps ! b) = jti"
    and "present_all remember NewVerifier ps ! a = None"
    and "present_all remember NewVerifier ps ! b = None"
  shows "\<exists>k. a < k \<and> k \<le> b \<and> stale (snd (snd (ps ! k))) iat"
proof -
  from seen_set.accepted_once [OF TrueI assms(1-5) assms(7,6,8)] obtain k
    where "a < k" "k \<le> b" "snd (snd (ps ! k)) - iat > Window" by blast
  moreover from this(3) have "stale (snd (snd (ps ! k))) iat" using not_stale [of "snd (snd (ps ! k))" iat] by linarith
  ultimately show ?thesis by blast
qed

theorem Verifier_single_use_witness:
  "\<exists>k. 0 < k \<and> k \<le> 1 \<and> stale (snd (snd (replay_example ! k))) 0"
proof (rule Verifier_single_use [where a = 0 and b = 1 and ps = replay_example and jti = "''j''"
      and now = 0])
  show "\<forall>(j, i, now) \<in> set replay_example. clock_time now"
    by (simp add: replay_example_def clock_time_def time_Unix_def Second_def int64_defs)
  show "\<not> stale 0 0" by (simp add: not_stale Window_eq)
qed (simp_all add: replay_example_def remember_def prune_seen_def NewVerifier_def
    time_Sub_def clamp64_def minInt64_def maxInt64_def Window_eq Second_def Let_def)

fun cache_after :: "ReplayCache \<Rightarrow> (string \<times> gtime) list \<Rightarrow> ReplayCache" where
  "cache_after c [] = c"
| "cache_after c ((jti, now) # ps) = cache_after (fst (CheckAndRecord c jti now)) ps"

definition within_cap :: "ReplayCache \<Rightarrow> bool" where
  "within_cap c \<longleftrightarrow> finite (current c) \<and> finite (previous c) \<and>
     int (card (current c)) \<le> rc_cap c \<and> int (card (previous c)) \<le> rc_cap c"

lemma CheckAndRecord_cap: "rc_cap (fst (CheckAndRecord c jti now)) = rc_cap c"
  by (simp add: CheckAndRecord_def rotate_generations_def Let_def)

lemma CheckAndRecord_within_cap:
  "0 \<le> rc_cap c \<Longrightarrow> within_cap c \<Longrightarrow> within_cap (fst (CheckAndRecord c jti now))"
  by (auto simp: CheckAndRecord_def rotate_generations_def Let_def within_cap_def)

lemma cache_after_within_cap:
  "0 \<le> rc_cap c \<Longrightarrow> within_cap c \<Longrightarrow> within_cap (cache_after c ps) \<and> rc_cap (cache_after c ps) = rc_cap c"
  by (induction c ps rule: cache_after.induct) (auto simp: CheckAndRecord_cap CheckAndRecord_within_cap)

text \<open>What a call leaves held, and whether the call at a position of a run was accepted.\<close>

definition rc_held :: "ReplayCache \<Rightarrow> string set" where
  "rc_held c = current c \<union> previous c"

definition accepted_at :: "int \<Rightarrow> (string \<times> gtime) list \<Rightarrow> nat \<Rightarrow> bool" where
  "accepted_at n ps a \<longleftrightarrow> a < length ps \<and>
     snd (CheckAndRecord (cache_after (NewReplayCache n) (take a ps)) (fst (ps ! a)) (snd (ps ! a))) = None"

text \<open>An identifier recorded at second \<open>s\<close>, as far as a clock of at most \<open>s + 120\<close> is concerned.\<close>

definition recorded :: "ReplayCache \<Rightarrow> string \<Rightarrow> int \<Rightarrow> bool" where
  "recorded c jti s \<longleftrightarrow> begun c \<and> (jti \<in> current c \<and> started c > s - 120 \<or> jti \<in> previous c \<and> started c > s)"

lemma recorded_held: "recorded c jti s \<Longrightarrow> jti \<in> rc_held c"
  by (auto simp: recorded_def rc_held_def)

lemma rotate_recorded:
  assumes "rc_sound c" "is_int64 sec" "sec \<le> s + 120" "c' = rotate_generations c sec (replayGeneration div Second)"
    and "recorded c jti s"
  shows "recorded c' jti s"
  using assms by (auto simp: rotate_eq recorded_def)

lemma call_recorded:
  assumes "rc_sound c" "clock_time now" "time_Unix now \<le> s + 120" "recorded c jti s"
  shows "recorded (fst (CheckAndRecord c j now)) jti s \<and> snd (CheckAndRecord c jti now) = Some ErrReplay"
proof -
  define c' where "c' = rotate_generations c (time_Unix now) (replayGeneration div Second)"
  have "recorded c' jti s"
    by (rule rotate_recorded [OF assms(1) _ assms(3) c'_def assms(4)]) (use assms(2) in \<open>simp add: clock_time_def\<close>)
  then show ?thesis
    using recorded_held [of c' jti s] unfolding CheckAndRecord_eq [OF assms(1,2) c'_def]
    by (auto simp: recorded_def rc_held_def)
qed

lemma call_accepted:
  assumes "rc_sound c" "clock_time now" "snd (CheckAndRecord c jti now) = None"
  shows "recorded (fst (CheckAndRecord c jti now)) jti (time_Unix now)"
proof -
  define c' where "c' = rotate_generations c (time_Unix now) (replayGeneration div Second)"
  have "is_int64 (time_Unix now)" using assms(2) by (simp add: clock_time_def)
  note rot = rotate_sound [OF assms(1) this c'_def]
  show ?thesis
    using assms(3) rot unfolding CheckAndRecord_eq [OF assms(1,2) c'_def]
    by (auto simp: recorded_def split: if_splits)
qed

lemma call_sound: "rc_sound c \<Longrightarrow> clock_time now \<Longrightarrow> rc_sound (fst (CheckAndRecord c j now))"
  using cache.keeps_sound [of c now j undefined] by (auto simp: rc_present_def intro: prod.collapse [symmetric])

lemma cache_after_append: "cache_after c (ps @ qs) = cache_after (cache_after c ps) qs"
  by (induction c ps rule: cache_after.induct) simp_all

lemma cache_after_sound:
  "rc_sound c \<Longrightarrow> list_all (\<lambda>(j, t). clock_time t) ps \<Longrightarrow> rc_sound (cache_after c ps)"
  by (induction c ps rule: cache_after.induct) (auto simp: call_sound)

lemma cache_after_recorded:
  "rc_sound c \<Longrightarrow> list_all (\<lambda>(j, t). clock_time t \<and> time_Unix t \<le> s + 120) ps \<Longrightarrow> recorded c jti s \<Longrightarrow>
     recorded (cache_after c ps) jti s"
  by (induction c ps rule: cache_after.induct) (auto simp: call_sound call_recorded)

lemma accepted_recorded:
  assumes "list_all (\<lambda>(j, t). clock_time t) ps" "accepted_at n ps a"
    and "list_all (\<lambda>t. time_Unix t \<le> time_Unix (snd (ps ! a)) + 120) (map snd (drop (Suc a) ps))"
  shows "recorded (cache_after (NewReplayCache n) ps) (fst (ps ! a)) (time_Unix (snd (ps ! a)))"
proof -
  let ?b = "cache_after (NewReplayCache n) (take a ps)" and ?j = "fst (ps ! a)" and ?t = "snd (ps ! a)"
  have a: "a < length ps" "snd (CheckAndRecord ?b ?j ?t) = None" using assms(2) by (simp_all add: accepted_at_def)
  have split: "ps = take a ps @ (?j, ?t) # drop (Suc a) ps" using a(1) by (simp add: id_take_nth_drop [symmetric])
  have clocks: "list_all (\<lambda>(j, t). clock_time t) (take a ps)" "clock_time ?t" "list_all (\<lambda>(j, t). clock_time t) (drop (Suc a) ps)"
  proof -
    have "\<forall>x \<in> set ps. clock_time (snd x)" using assms(1) by (auto simp: list_all_iff)
    then show "list_all (\<lambda>(j, t). clock_time t) (take a ps)" "clock_time ?t" "list_all (\<lambda>(j, t). clock_time t) (drop (Suc a) ps)"
      using a(1) by (force simp: list_all_iff dest: in_set_takeD in_set_dropD)+
  qed
  have "rc_sound (NewReplayCache n)" by (simp add: rc_sound_def NewReplayCache_def int64_defs)
  from cache_after_sound [OF this clocks(1)] have b: "rc_sound ?b" .
  have "list_all (\<lambda>(j, t). clock_time t \<and> time_Unix t \<le> time_Unix ?t + 120) (drop (Suc a) ps)"
    using clocks(3) assms(3) by (auto simp: list_all_iff)
  from cache_after_recorded [OF call_sound [OF b clocks(2)] this call_accepted [OF b clocks(2) a(2)]]
  have "recorded (cache_after (NewReplayCache n) (take a ps @ (?j, ?t) # drop (Suc a) ps)) ?j (time_Unix ?t)"
    by (cases "ps ! a") (simp add: cache_after_append)
  then show ?thesis by (simp only: split [symmetric])
qed

lemma full_iff:
  assumes "rc_sound c" "clock_time now" "within_cap c" "rc_cap c = n" "0 \<le> n"
  shows "case CheckAndRecord c jti now of (c', r) \<Rightarrow>
    r = (if jti \<notin> rc_held c' then Some ErrReplayCacheFull else if jti \<in> rc_held (rotate_generations c (time_Unix now) 120) then Some ErrReplay else None) \<and>
    (jti \<in> rc_held c' \<or> int (card (current c')) = n)"
proof -
  define c' where "c' = rotate_generations c (time_Unix now) (replayGeneration div Second)"
  have "within_cap c'" "rc_cap c' = n"
    using assms(3-5) by (auto simp: c'_def rotate_generations_def within_cap_def)
  then have "int (card (current c')) \<le> n" by (simp add: within_cap_def)
  then show ?thesis
    using \<open>rc_cap c' = n\<close> unfolding CheckAndRecord_eq [OF assms(1,2) c'_def]
    by (auto simp: rc_held_def c'_def generation_120)
qed

text \<open>
  C5. The replay cache is bounded and never forgets under pressure. After any run of calls, with a
  clock that may step either way, each generation holds at most the cap; an identifier accepted at
  second \<open>s\<close> is still held, and answered as a replay, by every call until the clock has passed
  \<open>s + 120\<close>, however full the generations have become in between; and a call refuses an
  identifier it does not then hold only because the current generation holds exactly the cap.
\<close>

theorem ReplayCache_bounded:
  assumes "0 \<le> n" "list_all (\<lambda>(j, t). clock_time t) ps" "clock_time now" "c = cache_after (NewReplayCache n) ps"
  shows "int (card (current c)) \<le> n \<and> int (card (previous c)) \<le> n \<and>
    (\<forall>a. accepted_at n ps a \<and> list_all (\<lambda>t. time_Unix t \<le> time_Unix (snd (ps ! a)) + 120) (map snd (drop (Suc a) ps) @ [now]) \<longrightarrow>
       fst (ps ! a) \<in> rc_held c \<and> snd (CheckAndRecord c (fst (ps ! a)) now) = Some ErrReplay) \<and>
    (case CheckAndRecord c jti now of
       (c', Some err) \<Rightarrow> if jti \<in> rc_held c' then err = ErrReplay else err = ErrReplayCacheFull \<and> int (card (current c')) = n
     | (c', None) \<Rightarrow> jti \<in> rc_held c' \<and> int (card (current c')) \<le> n)"
proof (intro conjI allI impI)
  have inv: "within_cap c \<and> rc_cap c = n"
    using assms(1,4) cache_after_within_cap [of "NewReplayCache n" ps] by (simp add: NewReplayCache_def within_cap_def)
  then show "int (card (current c)) \<le> n" "int (card (previous c)) \<le> n" by (simp_all add: within_cap_def)
  have "rc_sound (NewReplayCache n)" by (simp add: rc_sound_def NewReplayCache_def int64_defs)
  from cache_after_sound [OF this assms(2)] have c: "rc_sound c" unfolding assms(4) .
  have "within_cap (fst (CheckAndRecord c jti now))" "rc_cap (fst (CheckAndRecord c jti now)) = n"
    using CheckAndRecord_within_cap [of c jti now] inv assms(1) by (simp_all add: CheckAndRecord_cap)
  then show "case CheckAndRecord c jti now of
       (c', Some err) \<Rightarrow> if jti \<in> rc_held c' then err = ErrReplay else err = ErrReplayCacheFull \<and> int (card (current c')) = n
     | (c', None) \<Rightarrow> jti \<in> rc_held c' \<and> int (card (current c')) \<le> n"
    using full_iff [OF c assms(3) inv [THEN conjunct1] inv [THEN conjunct2] assms(1), of jti]
    by (cases "CheckAndRecord c jti now") (auto simp: within_cap_def split: if_splits option.splits)
  fix a
  assume a: "accepted_at n ps a \<and> list_all (\<lambda>t. time_Unix t \<le> time_Unix (snd (ps ! a)) + 120) (map snd (drop (Suc a) ps) @ [now])"
  then have r: "recorded c (fst (ps ! a)) (time_Unix (snd (ps ! a)))"
    using accepted_recorded [OF assms(2)] unfolding assms(4) by simp
  then show "fst (ps ! a) \<in> rc_held c" by (rule recorded_held)
  show "snd (CheckAndRecord c (fst (ps ! a)) now) = Some ErrReplay"
    using call_recorded [OF c assms(3) _ r] a by simp
qed

text \<open>A cache of one: the second identifier does not push the first out.\<close>

definition pressed :: "(string \<times> gtime) list" where
  "pressed = [(''a'', 0), (''b'', 1)]"

theorem ReplayCache_bounded_witness:
  "accepted_at 1 pressed 0 \<and> snd (CheckAndRecord (cache_after (NewReplayCache 1) pressed) ''a'' (120 * Second)) = Some ErrReplay"
proof -
  have acc: "accepted_at 1 pressed 0"
    by (simp add: accepted_at_def pressed_def CheckAndRecord_def NewReplayCache_def rotate_generations_def Let_def)
  have clocks: "list_all (\<lambda>(j, t). clock_time t) pressed" "clock_time (120 * Second)"
    by (simp_all add: pressed_def clock_time_def time_Unix_def Second_def int64_defs)
  have "list_all (\<lambda>t. time_Unix t \<le> time_Unix (snd (pressed ! 0)) + 120) (map snd (drop (Suc 0) pressed) @ [120 * Second])"
    by (simp add: pressed_def time_Unix_def Second_def)
  with ReplayCache_bounded [OF _ clocks refl, of 1] acc
  have "snd (CheckAndRecord (cache_after (NewReplayCache 1) pressed) (fst (pressed ! 0)) (120 * Second)) = Some ErrReplay" by simp
  with acc show ?thesis by (simp add: pressed_def)
qed

end
