(* ===== verification/Revocations.thy ===== *)
theory Revocations
  imports Clock Deleg_Chain
begin

text \<open>
  delegation/revocations.go: the revocation list held locally, its age, and the operator's fail
  mode. The theory shows what each answer means (a hit whatever the age, a miss only from a young
  list), that the cursor of the held list never goes back whatever is offered, and that a failed
  or refused poll changes neither the list nor its age. Reading the list off the wire is
  in \<^verbatim>\<open>Snapshot_Wire\<close>.
\<close>

section \<open>Data\<close>

definition DefaultRevocationMaxAge :: duration where
  "DefaultRevocationMaxAge = Minute"

definition MaxSnapshotBytes :: nat where
  "MaxSnapshotBytes = 4 * 2 ^ 20"

record Revocation =
  rev_JTI :: string
  rev_Subject :: string
  rev_IssuedBefore :: int
  rev_Expires :: int

record Snapshot =
  snap_Revocations :: "Revocation list"
  snap_AsOf :: int

datatype FailMode = FailClosed | FailOpen

datatype Basis = BasisListed | BasisAbsent | BasisStale | BasisNever

record Answer =
  ans_Revoked :: bool
  ans_Basis :: Basis
  ans_Age :: duration

record Revocations =
  maxAge :: duration
  failMode :: FailMode
  held :: "Snapshot option"
  fetchedAt :: gtime
  rejectedBackwards :: nat

definition refuses :: "FailMode \<Rightarrow> bool" where
  "refuses f \<longleftrightarrow> f = FailClosed"

fun FailMode_String :: "FailMode \<Rightarrow> string" where
  "FailMode_String f = (if f = FailClosed then ''closed'' else ''open'')"

fun Basis_String :: "Basis \<Rightarrow> string" where
  "Basis_String BasisListed = ''listed''"
| "Basis_String BasisAbsent = ''absent''"
| "Basis_String BasisStale = ''stale''"
| "Basis_String BasisNever = ''never-fetched''"

definition IsFallback :: "Basis \<Rightarrow> bool" where
  "IsFallback b \<longleftrightarrow> b = BasisStale \<or> b = BasisNever"

section \<open>One entry\<close>

definition covers :: "Revocation \<Rightarrow> string \<Rightarrow> string \<Rightarrow> int \<Rightarrow> bool" where
  "covers e jti subject issuedAt =
     (if rev_JTI e \<noteq> [] \<and> rev_JTI e = jti then True
      else rev_Subject e \<noteq> [] \<and> rev_Subject e = subject \<and> issuedAt \<le> rev_IssuedBefore e)"

definition liveAt :: "Revocation \<Rightarrow> gtime \<Rightarrow> bool" where
  "liveAt e now \<longleftrightarrow> rev_Expires e = 0 \<or> rev_Expires e > time_Unix now"

section \<open>The cache\<close>

definition NewRevocations :: "duration \<Rightarrow> FailMode \<Rightarrow> Revocations" where
  "NewRevocations age mode =
     \<lparr>maxAge = (if age \<le> 0 then DefaultRevocationMaxAge else age), failMode = mode,
      held = None, fetchedAt = 0, rejectedBackwards = 0\<rparr>"

definition SetMaxAge :: "Revocations \<Rightarrow> duration \<Rightarrow> Revocations" where
  "SetMaxAge r d = r\<lparr>maxAge := d\<rparr>"

definition Install :: "Revocations \<Rightarrow> Snapshot \<Rightarrow> gtime \<Rightarrow> Revocations \<times> deleg_error option" where
  "Install r s now =
     (if snap_AsOf s \<le> 0 then (r, Some ErrNoCursor)
      else case held r of
          Some h \<Rightarrow>
            if snap_AsOf s < snap_AsOf h
            then (r\<lparr>rejectedBackwards := (rejectedBackwards r + 1) mod 2 ^ 64\<rparr>, Some ErrCursorWentBackwards)
            else (r\<lparr>held := Some s, fetchedAt := now\<rparr>, None)
        | None \<Rightarrow> (r\<lparr>held := Some s, fetchedAt := now\<rparr>, None))"

text \<open>The search of \<^verbatim>\<open>Check\<close> over the held entries, first match.\<close>

fun listed :: "Revocation list \<Rightarrow> string \<Rightarrow> string \<Rightarrow> int \<Rightarrow> gtime \<Rightarrow> bool" where
  "listed [] jti subject issuedAt now = False"
| "listed (e # es) jti subject issuedAt now =
     (if liveAt e now \<and> covers e jti subject issuedAt then True
      else listed es jti subject issuedAt now)"

definition Check :: "Revocations \<Rightarrow> string \<Rightarrow> string \<Rightarrow> int \<Rightarrow> gtime \<Rightarrow> Answer" where
  "Check r jti subject issuedAt now =
     (case held r of
        None \<Rightarrow> \<lparr>ans_Revoked = refuses (failMode r), ans_Basis = BasisNever, ans_Age = 0\<rparr>
      | Some h \<Rightarrow>
          let age = time_Sub now (fetchedAt r) in
          if listed (snap_Revocations h) jti subject issuedAt now
          then \<lparr>ans_Revoked = True, ans_Basis = BasisListed, ans_Age = age\<rparr>
          else if age \<le> maxAge r
          then \<lparr>ans_Revoked = False, ans_Basis = BasisAbsent, ans_Age = age\<rparr>
          else \<lparr>ans_Revoked = refuses (failMode r), ans_Basis = BasisStale, ans_Age = age\<rparr>)"

text \<open>
  The closure \<^verbatim>\<open>Hook\<close> hands out: the verdict of \<^verbatim>\<open>Check\<close> at one request's
  clock, with the optional observer run on the whole answer. The observer's own state is
  \<open>'w\<close>.
\<close>

definition Hook :: "Revocations \<Rightarrow> gtime \<Rightarrow> (Answer \<Rightarrow> 'w \<Rightarrow> 'w) option \<Rightarrow>
    string \<Rightarrow> string \<Rightarrow> int \<Rightarrow> 'w \<Rightarrow> bool \<times> 'w" where
  "Hook r now observe jti subject issuedAt w =
     (let a = Check r jti subject issuedAt now in
      (ans_Revoked a, case observe of None \<Rightarrow> w | Some f \<Rightarrow> f a w))"

definition Age :: "Revocations \<Rightarrow> gtime \<Rightarrow> duration \<times> bool" where
  "Age r now = (case held r of None \<Rightarrow> (0, False) | Some _ \<Rightarrow> (time_Sub now (fetchedAt r), True))"

definition AsOf :: "Revocations \<Rightarrow> int \<times> bool" where
  "AsOf r = (case held r of None \<Rightarrow> (0, False) | Some h \<Rightarrow> (snap_AsOf h, True))"

definition RejectedBackwards :: "Revocations \<Rightarrow> nat" where
  "RejectedBackwards r = rejectedBackwards r"

text \<open>\<^verbatim>\<open>Refresh\<close>, given what \<^verbatim>\<open>Fetch\<close> returned.\<close>

definition Refresh :: "Revocations \<Rightarrow> deleg_error + Snapshot \<Rightarrow> gtime \<Rightarrow> Revocations \<times> deleg_error option" where
  "Refresh r fetched now =
     (case fetched of Inl err \<Rightarrow> (r, Some err) | Inr s \<Rightarrow> Install r s now)"

section \<open>Runs of the cache\<close>

datatype cache_op = OpInstall Snapshot gtime | OpRefresh "deleg_error + Snapshot" gtime | OpSetMaxAge duration

fun cache_step :: "Revocations \<Rightarrow> cache_op \<Rightarrow> Revocations" where
  "cache_step r (OpInstall s now) = fst (Install r s now)"
| "cache_step r (OpRefresh f now) = fst (Refresh r f now)"
| "cache_step r (OpSetMaxAge d) = SetMaxAge r d"

definition cache_run :: "Revocations \<Rightarrow> cache_op list \<Rightarrow> Revocations" where
  "cache_run r ops = foldl cache_step r ops"

fun offered :: "cache_op \<Rightarrow> Snapshot option" where
  "offered (OpInstall s now) = Some s"
| "offered (OpRefresh (Inr s) now) = Some s"
| "offered (OpRefresh (Inl e) now) = None"
| "offered (OpSetMaxAge d) = None"

lemma listed_iff:
  "listed es jti subject issuedAt now \<longleftrightarrow> (\<exists>e \<in> set es. liveAt e now \<and> covers e jti subject issuedAt)"
  by (induction es) auto

definition live_hit :: "Snapshot \<Rightarrow> string \<Rightarrow> string \<Rightarrow> int \<Rightarrow> gtime \<Rightarrow> bool" where
  "live_hit h jti subject issuedAt now \<longleftrightarrow>
     (\<exists>e \<in> set (snap_Revocations h). liveAt e now \<and> covers e jti subject issuedAt)"

lemma Install_held:
  "held (fst (Install r s now)) = held r \<or> held (fst (Install r s now)) = Some s"
  by (auto simp: Install_def split: option.splits)

lemma Install_cursor:
  "held r = Some h \<Longrightarrow> \<exists>h'. held (fst (Install r s now)) = Some h' \<and> snap_AsOf h \<le> snap_AsOf h'"
  by (auto simp: Install_def)

lemma cache_step_cursor:
  "held r = Some h \<Longrightarrow> \<exists>h'. held (cache_step r c) = Some h' \<and> snap_AsOf h \<le> snap_AsOf h'"
  by (cases c) (auto simp: Install_cursor Refresh_def SetMaxAge_def split: sum.splits)

lemma cache_step_held:
  "held (cache_step r c) = held r \<or> held (cache_step r c) = offered c"
  by (cases c rule: offered.cases) (auto simp: Refresh_def SetMaxAge_def Install_def split: option.splits)

lemma cache_run_snoc: "cache_run r (ops @ [c]) = cache_step (cache_run r ops) c"
  by (simp add: cache_run_def)

lemma cache_run_cursor:
  "held r = Some h \<Longrightarrow> \<exists>h'. held (cache_run r ops) = Some h' \<and> snap_AsOf h \<le> snap_AsOf h'"
proof (induction ops rule: rev_induct)
  case Nil
  then show ?case by (simp add: cache_run_def)
next
  case (snoc c ops)
  then show ?case unfolding cache_run_snoc by (meson cache_step_cursor order_trans)
qed

lemma cache_run_keeps:
  assumes "held r = Some h" "P h" "\<forall>c \<in> set ops. \<forall>s. offered c = Some s \<longrightarrow> P s"
  shows "\<exists>h'. held (cache_run r ops) = Some h' \<and> P h'"
  using assms
proof (induction ops rule: rev_induct)
  case Nil
  then show ?case by (simp add: cache_run_def)
next
  case (snoc c ops)
  then obtain h' where h': "held (cache_run r ops) = Some h'" "P h'" by auto
  obtain h'' where "held (cache_step (cache_run r ops) c) = Some h''"
    using cache_step_cursor [OF h'(1)] by blast
  with cache_step_held [of "cache_run r ops" c] h' snoc.prems(3) show ?case
    unfolding cache_run_snoc by auto
qed

section \<open>Properties\<close>

text \<open>
  The list that is in force after a run: of the offers with a cursor, the last of those whose cursor
  is the highest, and the moment it was offered.
\<close>

fun dated_offer :: "cache_op \<Rightarrow> (Snapshot \<times> gtime) option" where
  "dated_offer (OpInstall s now) = Some (s, now)"
| "dated_offer (OpRefresh (Inr s) now) = Some (s, now)"
| "dated_offer (OpRefresh (Inl e) now) = None"
| "dated_offer (OpSetMaxAge d) = None"

definition dated_offers :: "cache_op list \<Rightarrow> (Snapshot \<times> gtime) list" where
  "dated_offers ops = filter (\<lambda>(s, t). 0 < snap_AsOf s) (List.map_filter dated_offer ops)"

definition in_force :: "cache_op list \<Rightarrow> (Snapshot \<times> gtime) option" where
  "in_force ops =
     (let os = dated_offers ops; top = Max ((snap_AsOf \<circ> fst) ` set os)
      in if os = [] then None else Some (last (filter (\<lambda>(s, t). snap_AsOf s = top) os)))"

text \<open>The age the operator allows: what was set last, or what the cache was made with.\<close>

fun set_age :: "cache_op \<Rightarrow> duration option" where
  "set_age (OpSetMaxAge d) = Some d"
| "set_age _ = None"

definition age_allowed :: "duration \<Rightarrow> cache_op list \<Rightarrow> duration" where
  "age_allowed d ops = last ((if d \<le> 0 then Minute else d) # List.map_filter set_age ops)"

lemma map_filter_snoc: "List.map_filter f (xs @ [x]) = List.map_filter f xs @ (case f x of None \<Rightarrow> [] | Some y \<Rightarrow> [y])"
  by (simp add: List.map_filter_def split: option.split)

lemma in_force_snoc:
  "in_force (ops @ [c]) =
     (case dated_offer c of
        None \<Rightarrow> in_force ops
      | Some (s, t) \<Rightarrow>
          if snap_AsOf s \<le> 0 then in_force ops
          else case in_force ops of
              None \<Rightarrow> Some (s, t)
            | Some (h, u) \<Rightarrow> if snap_AsOf s < snap_AsOf h then in_force ops else Some (s, t))"
proof (cases "dated_offer c")
  case None
  then show ?thesis by (simp add: in_force_def dated_offers_def map_filter_snoc)
next
  case (Some o1)
  obtain s t where o1: "o1 = (s, t)" by (cases o1)
  define os where "os = dated_offers ops"
  define top where "top = Max ((snap_AsOf \<circ> fst) ` set os)"
  have os': "dated_offers (ops @ [c]) = (if snap_AsOf s \<le> 0 then os else os @ [(s, t)])"
    by (simp add: dated_offers_def map_filter_snoc Some o1 os_def)
  have now: "in_force ops = (if os = [] then None else Some (last (filter (\<lambda>(s, t). snap_AsOf s = top) os)))"
    by (simp add: in_force_def os_def top_def Let_def)
  show ?thesis
  proof (cases "os = [] \<or> snap_AsOf s \<le> 0")
    case True
    then show ?thesis by (auto simp: in_force_def os' Some o1 os_def [symmetric])
  next
    case False
    have "top \<in> (snap_AsOf \<circ> fst) ` set os" unfolding top_def using False by (intro Max_in) simp_all
    then have ne: "filter (\<lambda>(s, t). snap_AsOf s = top) os \<noteq> []" by (auto simp: filter_empty_conv)
    obtain h u where hu: "last (filter (\<lambda>(s, t). snap_AsOf s = top) os) = (h, u)" by fastforce
    have h: "snap_AsOf h = top" using last_in_set [OF ne] unfolding hu by simp
    have top': "Max ((snap_AsOf \<circ> fst) ` set (os @ [(s, t)])) = max (snap_AsOf s) top"
      using False by (simp add: top_def)
    have le: "snap_AsOf x \<le> top" if "(x, y) \<in> set os" for x y
      unfolding top_def using that by (intro Max_ge) force+
    show ?thesis
    proof (cases "snap_AsOf s < top")
      case True
      then have "in_force (ops @ [c]) = Some (last (filter (\<lambda>(s, t). snap_AsOf s = top) os))"
        unfolding in_force_def Let_def os' using top' False by (simp add: max_def)
      with True False show ?thesis by (simp add: Some o1 now hu h)
    next
      case ge: False
      then have "in_force (ops @ [c]) = Some (s, t)"
        unfolding in_force_def Let_def os' using top' False by (simp add: max_def)
      with ge False show ?thesis by (simp add: Some o1 now hu h)
    qed
  qed
qed

text \<open>The cache after a run holds exactly that.\<close>

lemma run_in_force:
  fixes d mode ops
  defines "r \<equiv> cache_run (NewRevocations d mode) ops"
  shows "held r = map_option fst (in_force ops) \<and> (case in_force ops of None \<Rightarrow> True | Some (s, t) \<Rightarrow> fetchedAt r = t) \<and>
    maxAge r = age_allowed d ops \<and> failMode r = mode"
  unfolding r_def
proof (induction ops rule: rev_induct)
  case Nil
  show ?case by (simp add: cache_run_def NewRevocations_def in_force_def dated_offers_def age_allowed_def
      List.map_filter_def DefaultRevocationMaxAge_def)
next
  case (snoc c ops)
  let ?r = "cache_run (NewRevocations d mode) ops"
  have age: "age_allowed d (ops @ [x]) = (case set_age x of None \<Rightarrow> age_allowed d ops | Some a \<Rightarrow> a)" for x
    by (simp add: age_allowed_def map_filter_snoc split: option.split)
  have install: "fst (Install ?r s t) =
      (if snap_AsOf s \<le> 0 then ?r
       else case in_force ops of
          None \<Rightarrow> ?r\<lparr>held := Some s, fetchedAt := t\<rparr>
        | Some (h, u) \<Rightarrow> if snap_AsOf s < snap_AsOf h then ?r\<lparr>rejectedBackwards := (rejectedBackwards ?r + 1) mod 2 ^ 64\<rparr>
            else ?r\<lparr>held := Some s, fetchedAt := t\<rparr>)" for s t
    using snoc.IH by (auto simp: Install_def split: option.split)
  show ?case
  proof (cases c)
    case (OpInstall s t)
    with snoc.IH show ?thesis
      by (auto simp: cache_run_snoc install in_force_snoc age split: option.splits prod.splits)
  next
    case (OpRefresh f t)
    with snoc.IH show ?thesis
      by (cases f) (auto simp: cache_run_snoc Refresh_def install in_force_snoc age split: option.splits prod.splits)
  next
    case (OpSetMaxAge a)
    with snoc.IH show ?thesis by (simp add: cache_run_snoc SetMaxAge_def in_force_snoc age split: option.splits prod.splits)
  qed
qed


text \<open>
  The held list never moves backwards and a poll that brings nothing changes nothing. Over
  any run of installs, refreshes (failed or not) and age settings, once a list is held one is held
  for ever and its cursor never decreases; a refused or failed offer leaves the list and the
  moment it was fetched as they were, so its age goes on growing.
\<close>

theorem Revocations_cursor_monotone:
  "(held r = Some h \<longrightarrow>
      (\<exists>h'. held (cache_run r ops) = Some h' \<and> snap_AsOf h \<le> snap_AsOf h')) \<and>
   (Refresh r f now = (r', Some e) \<longrightarrow>
      held r' = held r \<and> fetchedAt r' = fetchedAt r \<and> Age r' t = Age r t) \<and>
   (Refresh r (Inr s) now = (r', None) \<longrightarrow> held r' = Some s \<and> fetchedAt r' = now)"
proof (intro conjI impI)
  show "held r = Some h \<Longrightarrow> \<exists>h'. held (cache_run r ops) = Some h' \<and> snap_AsOf h \<le> snap_AsOf h'"
    by (rule cache_run_cursor)
qed (auto simp: Refresh_def Install_def Age_def split: sum.splits option.splits if_splits)

theorem Revocations_cursor_monotone_witness:
  "\<exists>h'. held (cache_run \<lparr>maxAge = 1, failMode = FailClosed,
      held = Some \<lparr>snap_Revocations = [], snap_AsOf = 5\<rparr>, fetchedAt = 0, rejectedBackwards = 0\<rparr>
      [OpInstall \<lparr>snap_Revocations = [], snap_AsOf = 3\<rparr> 9]) = Some h' \<and> 5 \<le> snap_AsOf h'"
  using Revocations_cursor_monotone [of "\<lparr>maxAge = 1, failMode = FailClosed,
      held = Some \<lparr>snap_Revocations = [], snap_AsOf = 5\<rparr>, fetchedAt = 0, rejectedBackwards = 0\<rparr>"
      "\<lparr>snap_Revocations = [], snap_AsOf = 5\<rparr>"
      "[OpInstall \<lparr>snap_Revocations = [], snap_AsOf = 3\<rparr> 9]"]
  by simp

text \<open>
  A revocation stays in force. While every snapshot the producer offers still carries an
  entry, no order of installs, failed polls, refused cursors or age settings makes the cache
  answer that a token it covers is not revoked: it is a listed hit for as long as the entry lives,
  under either fail mode and at any age.
\<close>

theorem revocation_stays_in_force:
  assumes "held r = Some h" "e \<in> set (snap_Revocations h)"
    and "\<forall>c \<in> set ops. \<forall>s. offered c = Some s \<longrightarrow> e \<in> set (snap_Revocations s)"
    and "covers e jti subject iat" "liveAt e now"
  shows "ans_Revoked (Check (cache_run r ops) jti subject iat now) \<and>
         ans_Basis (Check (cache_run r ops) jti subject iat now) = BasisListed"
proof -
  obtain h' where "held (cache_run r ops) = Some h'" "e \<in> set (snap_Revocations h')"
    using cache_run_keeps [of r h "\<lambda>s. e \<in> set (snap_Revocations s)" ops] assms(1-3) by blast
  with assms(4,5) have "listed (snap_Revocations h') jti subject iat now"
    by (auto simp: listed_iff)
  with \<open>held (cache_run r ops) = Some h'\<close> show ?thesis by (simp add: Check_def Let_def)
qed

definition example_entry :: Revocation where
  "example_entry = \<lparr>rev_JTI = [], rev_Subject = ''agent://a'', rev_IssuedBefore = 9, rev_Expires = 100\<rparr>"

definition example_cache :: Revocations where
  "example_cache = \<lparr>maxAge = 1, failMode = FailOpen,
      held = Some \<lparr>snap_Revocations = [example_entry], snap_AsOf = 5\<rparr>, fetchedAt = 0, rejectedBackwards = 0\<rparr>"

theorem revocation_stays_in_force_witness:
  "ans_Revoked (Check (cache_run example_cache [OpRefresh (Inl ErrOther) 4, OpSetMaxAge 0]) ''t'' ''agent://a'' 9 Minute)"
  by (rule revocation_stays_in_force [where e = example_entry, THEN conjunct1])
    (auto simp: example_cache_def example_entry_def covers_def liveAt_def Minute_def Second_def time_Unix_def)

end
