(* ===== verification/Text.thy ===== *)
theory Text
  imports Prelude
begin

text \<open>
  Byte-string routines of Go's standard library as the module uses them: hexadecimal and
  base64url coding, splitting at a byte, UTF-8 validity, and trimming of Unicode white space.
\<close>

section \<open>Hexadecimal\<close>

definition hexDigit :: "nat \<Rightarrow> char" where
  "hexDigit n = (if n < 10 then char_of (48 + n) else char_of (87 + n))"

fun hex_EncodeToString :: "bytes \<Rightarrow> string" where
  "hex_EncodeToString [] = []"
| "hex_EncodeToString (c # cs) =
     hexDigit (of_char c div 16) # hexDigit (of_char c mod 16) # hex_EncodeToString cs"

definition lowerHex :: "char \<Rightarrow> bool" where
  "lowerHex c \<longleftrightarrow> (let n = (of_char c :: nat) in 48 \<le> n \<and> n \<le> 57 \<or> 97 \<le> n \<and> n \<le> 102)"

lemma of_char_hexDigit: "n < 16 \<Longrightarrow> (of_char (hexDigit n) :: nat) = (if n < 10 then 48 + n else 87 + n)"
  unfolding hexDigit_def if_distrib [of of_char] by (simp only: char_small split: if_split)

lemma hexDigit_inj: "m < 16 \<Longrightarrow> n < 16 \<Longrightarrow> hexDigit m = hexDigit n \<longleftrightarrow> m = n"
proof
  assume b: "m < 16" "n < 16" and "hexDigit m = hexDigit n"
  then have "(if m < 10 then 48 + m else 87 + m) = (if n < 10 then 48 + n else 87 + n)"
    by (metis of_char_hexDigit)
  then show "m = n" using b by (simp split: if_splits)
qed simp

lemma lowerHex_hexDigit: "n < 16 \<Longrightarrow> lowerHex (hexDigit n)"
  by (simp add: lowerHex_def Let_def of_char_hexDigit)

lemma byte_div_16 [simp]: "(of_char c :: nat) div 16 < 16"
  using byte_nat_less [of c] by linarith

lemma byte_halves_eq:
  "(of_char a :: nat) div 16 = of_char b div 16 \<Longrightarrow> (of_char a :: nat) mod 16 = of_char b mod 16 \<Longrightarrow> a = b"
  by (metis div_mult_mod_eq of_char_eq_iff)

lemma hex_inj: "hex_EncodeToString xs = hex_EncodeToString ys \<longleftrightarrow> xs = ys"
proof (induction xs arbitrary: ys)
  case Nil
  then show ?case by (cases ys) auto
next
  case (Cons a xs)
  then show ?case
    by (cases ys) (auto simp: hexDigit_inj dest: byte_halves_eq)
qed

lemma length_hex [simp]: "length (hex_EncodeToString xs) = 2 * length xs"
  by (induction xs) auto

lemma hex_lower: "list_all lowerHex (hex_EncodeToString xs)"
  by (induction xs) (auto simp: lowerHex_hexDigit)

section \<open>Splitting\<close>

text \<open>\<^verbatim>\<open>strings.Split\<close> at a one-byte separator: never the empty list.\<close>

fun split_at :: "char \<Rightarrow> string \<Rightarrow> string list" where
  "split_at d [] = [[]]"
| "split_at d (c # cs) =
     (if c = d then [] # split_at d cs
      else case split_at d cs of [] \<Rightarrow> [[c]] | p # ps \<Rightarrow> (c # p) # ps)"

fun join_with :: "string \<Rightarrow> string list \<Rightarrow> string" where
  "join_with d [] = []"
| "join_with d [p] = p"
| "join_with d (p # q # ps) = p @ d @ join_with d (q # ps)"

lemma split_at_nonempty [simp]: "split_at d cs \<noteq> []"
  by (induction cs) (auto split: list.splits)

lemma split_at_fresh: "d \<notin> set p \<Longrightarrow> split_at d p = [p]"
  by (induction p) auto

lemma split_at_append: "d \<notin> set p \<Longrightarrow> split_at d (p @ d # cs) = p # split_at d cs"
  by (induction p) auto

lemma join_split: "join_with [d] (split_at d cs) = cs"
proof (induction cs)
  case Nil
  then show ?case by simp
next
  case (Cons c cs)
  obtain p ps where ps: "split_at d cs = p # ps" by (cases "split_at d cs") auto
  with Cons show ?case by (cases ps) auto
qed

lemma split_at_no_sep: "p \<in> set (split_at d cs) \<Longrightarrow> d \<notin> set p"
proof (induction cs arbitrary: p)
  case Nil
  then show ?case by simp
next
  case (Cons c cs)
  obtain q qs where qs: "split_at d cs = q # qs" by (cases "split_at d cs") auto
  with Cons show ?case by (auto split: if_splits)
qed

section \<open>Base64url without padding\<close>

definition b64_char :: "nat \<Rightarrow> char" where
  "b64_char n = (if n < 26 then char_of (65 + n) else if n < 52 then char_of (71 + n)
     else if n < 62 then char_of (n - 4) else if n = 62 then CHR ''-'' else CHR ''_'')"

definition b64_value :: "char \<Rightarrow> nat option" where
  "b64_value c = (let n = (of_char c :: nat) in
     if 65 \<le> n \<and> n \<le> 90 then Some (n - 65)
     else if 97 \<le> n \<and> n \<le> 122 then Some (n - 71)
     else if 48 \<le> n \<and> n \<le> 57 then Some (n + 4)
     else if n = 45 then Some 62
     else if n = 95 then Some 63 else None)"

fun sextets_of :: "bytes \<Rightarrow> nat list" where
  "sextets_of [] = []"
| "sextets_of [a] = [of_char a div 4, (of_char a mod 4) * 16]"
| "sextets_of [a, b] = [of_char a div 4, (of_char a mod 4) * 16 + of_char b div 16, (of_char b mod 16) * 4]"
| "sextets_of (a # b # c # xs) =
     of_char a div 4 # ((of_char a mod 4) * 16 + of_char b div 16) #
     ((of_char b mod 16) * 4 + of_char c div 64) # of_char c mod 64 # sextets_of xs"

definition b64 :: "bytes \<Rightarrow> string" where
  "b64 xs = map b64_char (sextets_of xs)"

text \<open>
  The decoder skips carriage returns and newlines, refuses every other byte outside the
  alphabet and a lone last sextet, and (unless strict) ignores the unused low bits at the end.
\<close>

fun bytes_of_sextets :: "bool \<Rightarrow> nat list \<Rightarrow> bytes option" where
  "bytes_of_sextets strict [] = Some []"
| "bytes_of_sextets strict [p] = None"
| "bytes_of_sextets strict [p, q] =
     (if strict \<and> q mod 16 \<noteq> 0 then None else Some [char_of (p * 4 + q div 16)])"
| "bytes_of_sextets strict [p, q, r] =
     (if strict \<and> r mod 4 \<noteq> 0 then None
      else Some [char_of (p * 4 + q div 16), char_of (q mod 16 * 16 + r div 4)])"
| "bytes_of_sextets strict (p # q # r # s # xs) =
     map_option (\<lambda>bs. char_of (p * 4 + q div 16) # char_of (q mod 16 * 16 + r div 4) #
        char_of (r mod 4 * 64 + s) # bs) (bytes_of_sextets strict xs)"

fun b64_values :: "string \<Rightarrow> nat list option" where
  "b64_values [] = Some []"
| "b64_values (c # cs) =
     (if c = CHR 0x0A \<or> c = CHR 0x0D then b64_values cs
      else case b64_value c of None \<Rightarrow> None | Some v \<Rightarrow> map_option (Cons v) (b64_values cs))"

definition b64_decode :: "bool \<Rightarrow> string \<Rightarrow> bytes option" where
  "b64_decode strict s = (case b64_values s of None \<Rightarrow> None | Some vs \<Rightarrow> bytes_of_sextets strict vs)"

definition unb64 :: "string \<Rightarrow> bytes option" where
  "unb64 s = b64_decode False s"

lemma of_char_b64_char:
  "n < 64 \<Longrightarrow> (of_char (b64_char n) :: nat) =
     (if n < 26 then 65 + n else if n < 52 then 71 + n else if n < 62 then n - 4
      else if n = 62 then 45 else 95)"
  unfolding b64_char_def by (simp only: char_small split: if_split) simp

lemma b64_value_char: "n < 64 \<Longrightarrow> b64_value (b64_char n) = Some n"
  unfolding b64_value_def Let_def by (simp add: of_char_b64_char) presburger

lemma b64_char_plain: "n < 64 \<Longrightarrow> b64_char n \<noteq> CHR 0x0A \<and> b64_char n \<noteq> CHR 0x0D \<and> b64_char n \<noteq> CHR ''.''"
proof -
  assume "n < 64"
  then have "(of_char (b64_char n) :: nat) \<notin> {10, 13, 46}" by (auto simp: of_char_b64_char)
  then show ?thesis by auto
qed

lemma sextet_bounds:
  fixes x y z :: nat
  assumes "x < 256" "y < 256" "z < 256"
  shows "x div 4 < 64" "x mod 4 * 16 + y div 16 < 64" "y mod 16 * 4 + z div 64 < 64"
    "x mod 4 * 16 < 64" "y mod 16 * 4 < 64"
proof -
  have "x mod 4 < 4" "y mod 16 < 16" by simp_all
  moreover have "x div 4 < 64" "y div 16 < 16" "z div 64 < 4"
    using assms by (simp_all add: less_mult_imp_div_less)
  ultimately show "x div 4 < 64" "x mod 4 * 16 + y div 16 < 64" "y mod 16 * 4 + z div 64 < 64"
    "x mod 4 * 16 < 64" "y mod 16 * 4 < 64"
    by linarith+
qed

lemma sextets_bound: "list_all (\<lambda>v. v < 64) (sextets_of xs)"
  by (induction xs rule: sextets_of.induct)
    (use sextet_bounds [OF byte_nat_less byte_nat_less byte_nat_less] in simp_all)

lemma b64_values_map: "list_all (\<lambda>v. v < 64) vs \<Longrightarrow> b64_values (map b64_char vs) = Some vs"
  by (induction vs) (auto simp: b64_value_char b64_char_plain)

lemma byte_back:
  "char_of ((of_char a :: nat) div 4 * 4 + (of_char a mod 4 * 16 + x) div 16) = a" if "x < 16"
proof -
  have "(of_char a mod 4 * 16 + x) div 16 = (of_char a :: nat) mod 4" using that by simp
  then show ?thesis by simp
qed

lemma bytes_of_sextets_of: "bytes_of_sextets strict (sextets_of xs) = Some xs"
proof (induction xs rule: sextets_of.induct)
  case (2 a)
  show ?case using byte_back [of 0 a] by simp
next
  case (3 a b)
  have "((of_char a :: nat) mod 4 * 16 + of_char b div 16) mod 16 = of_char b div 16" by simp
  then show ?case using byte_back [of "of_char b div 16" a] by simp
next
  case (4 a b c xs)
  have "((of_char a :: nat) mod 4 * 16 + of_char b div 16) mod 16 = of_char b div 16" by simp
  moreover have c4: "(of_char c :: nat) div 64 < 4" using byte_nat_less [of c] by linarith
  then have "((of_char b :: nat) mod 16 * 4 + of_char c div 64) div 4 = of_char b mod 16"
    "((of_char b :: nat) mod 16 * 4 + of_char c div 64) mod 4 = of_char c div 64" by simp_all
  ultimately show ?case using byte_back [of "of_char b div 16" a] 4 by simp
qed simp

lemma b64_roundtrip: "b64_decode strict (b64 xs) = Some xs"
  by (simp add: b64_decode_def b64_def b64_values_map sextets_bound bytes_of_sextets_of)

lemma unb64_b64 [simp]: "unb64 (b64 xs) = Some xs"
  by (simp add: unb64_def b64_roundtrip)

lemma b64_inj: "b64 xs = b64 ys \<longleftrightarrow> xs = ys"
  by (metis b64_roundtrip option.inject)

lemma b64_no_dot: "CHR ''.'' \<notin> set (b64 xs)"
proof -
  have "\<forall>v \<in> set (sextets_of xs). v < 64" using sextets_bound [of xs] by (simp add: list_all_iff)
  then have "\<forall>v \<in> set (sextets_of xs). CHR ''.'' \<noteq> b64_char v"
    using b64_char_plain by metis
  then show ?thesis by (auto simp: b64_def)
qed

end
