(* ===== verification/Json_String.thy ===== *)
theory Json_String
  imports Text
begin

text \<open>
  Strings in encoding/json: UTF-8 validity, the quoting \<^verbatim>\<open>json.Marshal\<close> applies to a
  Go string (HTML-safe, with invalid UTF-8 replaced), the scanner of a string literal, the
  unquoting \<^verbatim>\<open>json.Unmarshal\<close> applies to one, and the compaction of a raw literal. The
  theory shows that unquoting undoes quoting.
\<close>

section \<open>UTF-8\<close>

definition cont_byte :: "char \<Rightarrow> bool" where
  "cont_byte c \<longleftrightarrow> (let n = (of_char c :: nat) in 128 \<le> n \<and> n < 192)"

definition second_ok :: "char \<Rightarrow> char \<Rightarrow> bool" where
  "second_ok c d \<longleftrightarrow>
     (let b = (of_char c :: nat); n = (of_char d :: nat) in
      (if b = 224 then 160 else if b = 240 then 144 else 128) \<le> n \<and>
      n < (if b = 237 then 160 else if b = 244 then 144 else 192))"

text \<open>The bytes after the first satisfy the given tests, one each.\<close>

fun follows :: "bytes \<Rightarrow> (char \<Rightarrow> bool) list \<Rightarrow> bool" where
  "follows cs [] = True"
| "follows [] (p # ps) = False"
| "follows (d # ds) (p # ps) = (p d \<and> follows ds ps)"

text \<open>The size of the encoded rune at the head, 0 when the head is not valid UTF-8.\<close>

definition utf8_len :: "bytes \<Rightarrow> nat" where
  "utf8_len s =
     (case s of [] \<Rightarrow> 0
      | c # cs \<Rightarrow>
        let b = (of_char c :: nat) in
        if b < 128 then 1
        else if b < 194 then 0
        else if b < 224 then (if follows cs [cont_byte] then 2 else 0)
        else if b < 240 then (if follows cs [second_ok c, cont_byte] then 3 else 0)
        else if b < 245 then (if follows cs [second_ok c, cont_byte, cont_byte] then 4 else 0)
        else 0)"

definition replacement :: bytes where
  "replacement = [CHR 0xEF, CHR 0xBF, CHR 0xBD]"

lemma follows_length: "follows cs ps \<Longrightarrow> length ps \<le> length cs"
  by (induction cs ps rule: follows.induct) auto

lemma follows_take: "follows cs ps \<Longrightarrow> follows (take (length ps) cs @ t) ps"
  by (induction cs ps rule: follows.induct) auto

lemma follows_all:
  "follows cs ps \<Longrightarrow> (\<And>p d. p \<in> set ps \<Longrightarrow> p d \<Longrightarrow> Q d) \<Longrightarrow> list_all Q (take (length ps) cs)"
  by (induction cs ps rule: follows.induct) auto

text \<open>A multi-byte head: its first byte and the tests its other bytes pass.\<close>

lemma utf8_len_multi:
  assumes "\<not> (of_char c :: nat) < 128" "0 < utf8_len (c # cs)"
  obtains ps where "follows cs ps" "utf8_len (c # cs) = Suc (length ps)"
    "\<And>ds. follows ds ps \<Longrightarrow> utf8_len (c # ds) = Suc (length ps)"
    "set ps \<subseteq> {cont_byte, second_ok c}"
proof -
  define b where "b = (of_char c :: nat)"
  have len: "utf8_len (c # ds) =
      (if b < 194 then 0
       else if b < 224 then (if follows ds [cont_byte] then 2 else 0)
       else if b < 240 then (if follows ds [second_ok c, cont_byte] then 3 else 0)
       else if b < 245 then (if follows ds [second_ok c, cont_byte, cont_byte] then 4 else 0)
       else 0)" for ds
    using assms(1) by (simp add: utf8_len_def b_def [symmetric])
  consider "b < 194" | "194 \<le> b" "b < 224" | "224 \<le> b" "b < 240" | "240 \<le> b" "b < 245" | "245 \<le> b"
    by linarith
  then show thesis
  proof cases
    case 1
    with assms(2) len [of cs] show thesis by simp
  next
    case 2
    with assms(2) len show thesis by (intro that [of "[cont_byte]"]) (auto split: if_splits)
  next
    case 3
    with assms(2) len show thesis by (intro that [of "[second_ok c, cont_byte]"]) (auto split: if_splits)
  next
    case 4
    with assms(2) len show thesis
      by (intro that [of "[second_ok c, cont_byte, cont_byte]"]) (auto split: if_splits)
  next
    case 5
    with assms(2) len [of cs] show thesis by simp
  qed
qed

lemma utf8_len_ascii: "(of_char c :: nat) < 128 \<Longrightarrow> utf8_len (c # cs) = 1"
  by (simp add: utf8_len_def)

lemma utf8_len_Nil [simp]: "utf8_len [] = 0"
  by (simp add: utf8_len_def)

lemma utf8_len_le: "utf8_len s \<le> length s"
proof (cases s)
  case (Cons c cs)
  show ?thesis
  proof (cases "(of_char c :: nat) < 128 \<or> utf8_len s = 0")
    case True
    then show ?thesis using Cons by (auto simp: utf8_len_ascii)
  next
    case False
    then show ?thesis using Cons utf8_len_multi [of c cs] follows_length by (metis Suc_le_mono length_Cons neq0_conv)
  qed
qed simp

text \<open>Validity of the head depends on the bytes of the head only.\<close>

lemma utf8_len_prefix:
  assumes "0 < utf8_len s"
  shows "utf8_len (take (utf8_len s) s @ t) = utf8_len s"
proof (cases s)
  case (Cons c cs)
  show ?thesis
  proof (cases "(of_char c :: nat) < 128")
    case True
    then show ?thesis using Cons by (simp add: utf8_len_ascii)
  next
    case False
    then obtain ps where "follows cs ps" "utf8_len s = Suc (length ps)"
      "\<And>ds. follows ds ps \<Longrightarrow> utf8_len (c # ds) = Suc (length ps)"
      using assms Cons utf8_len_multi [of c cs] by metis
    then show ?thesis using Cons follows_take [of cs ps t] by simp
  qed
qed (use assms in simp)

function valid_utf8 :: "bytes \<Rightarrow> bool" where
  "valid_utf8 s =
     (if s = [] then True else if utf8_len s = 0 then False else valid_utf8 (drop (utf8_len s) s))"
  by pat_completeness auto
termination by (relation "measure length") auto

text \<open>Ranging over a string: each invalid byte becomes the replacement character.\<close>

function to_valid :: "bytes \<Rightarrow> bytes" where
  "to_valid s =
     (if s = [] then []
      else let k = utf8_len s in
        if k = 0 then replacement @ to_valid (drop 1 s) else take k s @ to_valid (drop k s))"
  by pat_completeness auto
termination by (relation "measure length") auto

declare valid_utf8.simps [simp del] to_valid.simps [simp del]

lemma valid_utf8_Nil [simp]: "valid_utf8 []"
  by (subst valid_utf8.simps) simp

lemma to_valid_Nil [simp]: "to_valid [] = []"
  by (subst to_valid.simps) simp

lemma to_valid_id: "valid_utf8 s \<Longrightarrow> to_valid s = s"
proof (induction s rule: valid_utf8.induct)
  case (1 s)
  show ?case
  proof (cases "s = []")
    case False
    with "1.prems" have k: "utf8_len s \<noteq> 0" "valid_utf8 (drop (utf8_len s) s)"
      by (auto simp: valid_utf8.simps [of s] split: if_splits)
    with False "1.IH" show ?thesis by (simp add: to_valid.simps [of s] Let_def)
  qed simp
qed

definition ascii :: "bytes \<Rightarrow> bool" where
  "ascii s \<longleftrightarrow> list_all (\<lambda>c. (of_char c :: nat) < 128) s"

lemma ascii_valid: "ascii s \<Longrightarrow> valid_utf8 s"
proof (induction s)
  case (Cons c s)
  then show ?case
    by (subst valid_utf8.simps) (simp add: ascii_def utf8_len_ascii)
qed simp

section \<open>Quoting\<close>

definition is_sep_2028 :: "bytes \<Rightarrow> bool" where
  "is_sep_2028 s \<longleftrightarrow> (case s of a # b # c # _ \<Rightarrow>
      a = CHR 0xE2 \<and> b = CHR 0x80 \<and> (c = CHR 0xA8 \<or> c = CHR 0xA9) | _ \<Rightarrow> False)"

definition esc_2028 :: "bytes \<Rightarrow> string" where
  "esc_2028 s = CHR 0x5C # ''u202'' @ [if s ! 2 = CHR 0xA8 then CHR ''8'' else CHR ''9'']"

definition html_special :: "char \<Rightarrow> bool" where
  "html_special c \<longleftrightarrow> c = CHR ''<'' \<or> c = CHR ''>'' \<or> c = CHR ''&''"

definition u00 :: "char \<Rightarrow> string" where
  "u00 c = CHR 0x5C # ''u00'' @ [hexDigit (of_char c div 16), hexDigit (of_char c mod 16)]"

text \<open>One ASCII byte of \<^verbatim>\<open>appendString\<close> with HTML escaping on.\<close>

definition esc_ascii :: "char \<Rightarrow> string" where
  "esc_ascii c =
     (if c = CHR 0x5C then [CHR 0x5C, c]
      else if c = CHR 0x22 then [CHR 0x5C, c]
      else if c = CHR 0x08 then CHR 0x5C # ''b'' else if c = CHR 0x0C then CHR 0x5C # ''f''
      else if c = CHR 0x0A then CHR 0x5C # ''n'' else if c = CHR 0x0D then CHR 0x5C # ''r''
      else if c = CHR 0x09 then CHR 0x5C # ''t''
      else if (of_char c :: nat) < 32 \<or> html_special c then u00 c
      else [c])"

function enc_str :: "bytes \<Rightarrow> string" where
  "enc_str s =
     (case s of [] \<Rightarrow> []
      | c # cs \<Rightarrow>
        if (of_char c :: nat) < 128 then esc_ascii c @ enc_str cs
        else let k = utf8_len s in
          if k = 0 then (CHR 0x5C # ''ufffd'') @ enc_str cs
          else if is_sep_2028 s then esc_2028 s @ enc_str (drop k s)
          else take k s @ enc_str (drop k s))"
  by pat_completeness auto
termination by (relation "measure length") auto

declare enc_str.simps [simp del]

section \<open>The literal in JSON text\<close>

definition hex_value :: "char \<Rightarrow> nat option" where
  "hex_value c = (let n = (of_char c :: nat) in
     if 48 \<le> n \<and> n \<le> 57 then Some (n - 48)
     else if 97 \<le> n \<and> n \<le> 102 then Some (n - 87)
     else if 65 \<le> n \<and> n \<le> 70 then Some (n - 55) else None)"

definition is_hex :: "char \<Rightarrow> bool" where
  "is_hex c \<longleftrightarrow> hex_value c \<noteq> None"

lemmas hex_defs = is_hex_def hex_value_def

definition simple_escape :: "char \<Rightarrow> bool" where
  "simple_escape e \<longleftrightarrow> e \<in> set ''bfnrt/'' \<or> e = CHR 0x5C \<or> e = CHR 0x22"

text \<open>
  The scanner after an opening quote: the raw text of the literal up to the closing quote, and
  what follows. A control byte, a bad escape or the end of the input is an error.
\<close>

fun lex_str :: "string \<Rightarrow> (string \<times> string) option" where
  "lex_str [] = None"
| "lex_str (c # cs) =
     (if c = CHR 0x22 then Some ([], cs)
      else if c = CHR 0x5C then
        (case cs of
           [] \<Rightarrow> None
         | e # cs1 \<Rightarrow>
             if simple_escape e then map_option (\<lambda>(raw, rest). (c # e # raw, rest)) (lex_str cs1)
             else if e = CHR ''u'' then
               (case cs1 of
                  h1 # h2 # h3 # h4 # cs2 \<Rightarrow>
                    if is_hex h1 \<and> is_hex h2 \<and> is_hex h3 \<and> is_hex h4
                    then map_option (\<lambda>(raw, rest). (c # e # h1 # h2 # h3 # h4 # raw, rest)) (lex_str cs2)
                    else None
                | _ \<Rightarrow> None)
             else None)
      else if (of_char c :: nat) < 32 then None
      else map_option (\<lambda>(raw, rest). (c # raw, rest)) (lex_str cs))"

definition utf8_encode :: "nat \<Rightarrow> bytes" where
  "utf8_encode r =
     (if r < 128 then [char_of r]
      else if r < 2048 then [char_of (192 + r div 64), char_of (128 + r mod 64)]
      else if r < 65536 then
        [char_of (224 + r div 4096), char_of (128 + r div 64 mod 64), char_of (128 + r mod 64)]
      else [char_of (240 + r div 262144), char_of (128 + r div 4096 mod 64),
            char_of (128 + r div 64 mod 64), char_of (128 + r mod 64)])"

text \<open>\<^verbatim>\<open>getu4\<close>: the code unit of an escape \<^verbatim>\<open>\uXXXX\<close> at the head.\<close>

definition getu4 :: "string \<Rightarrow> nat option" where
  "getu4 s =
     (case s of
        a # b # h1 # h2 # h3 # h4 # _ \<Rightarrow>
          if a = CHR 0x5C \<and> b = CHR ''u'' then
            (case (hex_value h1, hex_value h2, hex_value h3, hex_value h4) of
               (Some v1, Some v2, Some v3, Some v4) \<Rightarrow> Some (((v1 * 16 + v2) * 16 + v3) * 16 + v4)
             | _ \<Rightarrow> None)
          else None
      | _ \<Rightarrow> None)"

definition is_surrogate :: "nat \<Rightarrow> bool" where
  "is_surrogate r \<longleftrightarrow> 55296 \<le> r \<and> r < 57344"

definition unescape :: "char \<Rightarrow> char" where
  "unescape e = (if e = CHR ''b'' then CHR 0x08 else if e = CHR ''f'' then CHR 0x0C
     else if e = CHR ''n'' then CHR 0x0A else if e = CHR ''r'' then CHR 0x0D
     else if e = CHR ''t'' then CHR 0x09 else e)"

text \<open>\<^verbatim>\<open>unquote\<close> on the raw text of a literal the scanner accepted.\<close>

function dec_str :: "string \<Rightarrow> bytes" where
  "dec_str s =
     (case s of [] \<Rightarrow> []
      | c # cs \<Rightarrow>
        if c = CHR 0x5C then
          (case getu4 s of
             Some r \<Rightarrow>
               if is_surrogate r then
                 (case getu4 (drop 6 s) of
                    Some r2 \<Rightarrow>
                      if r < 56320 \<and> 56320 \<le> r2 \<and> r2 < 57344
                      then utf8_encode ((r - 55296) * 1024 + (r2 - 56320) + 65536) @ dec_str (drop 12 s)
                      else replacement @ dec_str (drop 6 s)
                  | None \<Rightarrow> replacement @ dec_str (drop 6 s))
               else utf8_encode r @ dec_str (drop 6 s)
           | None \<Rightarrow> (case cs of [] \<Rightarrow> [] | e # cs1 \<Rightarrow> unescape e # dec_str cs1))
        else let k = utf8_len s in
          if k = 0 then replacement @ dec_str cs else take k s @ dec_str (drop k s))"
  by pat_completeness auto
termination by (relation "measure length") auto

declare dec_str.simps [simp del]

text \<open>
  \<^verbatim>\<open>compact\<close> with HTML escaping, on the raw text of a literal: what
  \<^verbatim>\<open>json.Marshal\<close> does to the strings inside a \<^verbatim>\<open>json.RawMessage\<close>.
\<close>

function html_raw :: "string \<Rightarrow> string" where
  "html_raw s =
     (case s of [] \<Rightarrow> []
      | c # cs \<Rightarrow>
        if html_special c then u00 c @ html_raw cs
        else if is_sep_2028 s then esc_2028 s @ html_raw (drop 3 s)
        else c # html_raw cs)"
  by pat_completeness auto
termination by (relation "measure length") auto

declare html_raw.simps [simp del]

section \<open>Unquoting undoes quoting\<close>

lemma hex_value_hexDigit: "n < 16 \<Longrightarrow> hex_value (hexDigit n) = Some n"
  by (simp add: hex_value_def Let_def of_char_hexDigit)

lemma is_hex_hexDigit: "n < 16 \<Longrightarrow> is_hex (hexDigit n)"
  by (simp add: is_hex_def hex_value_hexDigit)

lemma dec_str_Nil [simp]: "dec_str [] = []"
  by (subst dec_str.simps) simp

lemma enc_str_Nil [simp]: "enc_str [] = []"
  by (subst enc_str.simps) simp

lemma dec_str_ascii:
  "(of_char c :: nat) < 128 \<Longrightarrow> c \<noteq> CHR 0x5C \<Longrightarrow> dec_str (c # t) = c # dec_str t"
  by (subst dec_str.simps) (simp add: utf8_len_ascii Let_def)

lemma dec_str_simple:
  "e \<noteq> CHR ''u'' \<Longrightarrow> dec_str (CHR 0x5C # e # t) = unescape e # dec_str t"
  by (subst dec_str.simps) (simp add: getu4_def split: list.splits)

lemma dec_str_u4:
  assumes "hex_value h1 = Some va" "hex_value h2 = Some vb" "hex_value h3 = Some vc" "hex_value h4 = Some vd"
    and "r = ((va * 16 + vb) * 16 + vc) * 16 + vd" "\<not> is_surrogate r"
  shows "dec_str (CHR 0x5C # CHR ''u'' # h1 # h2 # h3 # h4 # t) = utf8_encode r @ dec_str t"
  using assms by (subst dec_str.simps) (simp add: getu4_def)

lemma dec_str_rune:
  assumes "utf8_len (c # cs) = k" "0 < k" "\<not> (of_char c :: nat) < 128"
  shows "dec_str (take k (c # cs) @ t) = take k (c # cs) @ dec_str t"
proof -
  obtain k' where k': "k = Suc k'" using assms(2) by (cases k) auto
  have c: "c \<noteq> CHR 0x5C" using assms(3) by auto
  have "length (take k (c # cs)) = k" using assms(1) utf8_len_le [of "c # cs"] by simp
  moreover have "utf8_len (take k (c # cs) @ t) = k" using assms utf8_len_prefix [of "c # cs"] by simp
  ultimately show ?thesis
    using c k' by (subst dec_str.simps) (simp add: Let_def)
qed

lemma dec_u00:
  assumes "(of_char c :: nat) < 128"
  shows "dec_str (u00 c @ t) = c # dec_str t"
proof -
  have d: "(of_char c :: nat) div 16 < 16" "(of_char c :: nat) mod 16 < 16" by simp_all
  have "dec_str (CHR 0x5C # CHR ''u'' # CHR ''0'' # CHR ''0'' # hexDigit (of_char c div 16) #
      hexDigit (of_char c mod 16) # t) = utf8_encode (of_char c) @ dec_str t"
    by (rule dec_str_u4 [where va = 0 and vb = 0, OF _ _ hex_value_hexDigit [OF d(1)] hex_value_hexDigit [OF d(2)]])
      (use assms in \<open>simp_all add: hex_value_def is_surrogate_def\<close>)
  with assms show ?thesis by (simp add: u00_def utf8_encode_def)
qed

lemma dec_esc_ascii:
  assumes "(of_char c :: nat) < 128"
  shows "dec_str (esc_ascii c @ t) = c # dec_str t"
  using assms
  by (simp add: esc_ascii_def dec_str_simple unescape_def dec_u00 dec_str_ascii)

lemma byte_chars:
  "char_of (239::nat) = CHR 0xEF" "char_of (191::nat) = CHR 0xBF" "char_of (189::nat) = CHR 0xBD"
  "char_of (226::nat) = CHR 0xE2" "char_of (128::nat) = CHR 0x80" "char_of (168::nat) = CHR 0xA8"
  "char_of (169::nat) = CHR 0xA9"
  using char_of_char [of "CHR 0xEF"] char_of_char [of "CHR 0xBF"] char_of_char [of "CHR 0xBD"]
    char_of_char [of "CHR 0xE2"] char_of_char [of "CHR 0x80"] char_of_char [of "CHR 0xA8"]
    char_of_char [of "CHR 0xA9"] by simp_all

lemma replacement_of_u: "utf8_encode 65533 = replacement"
  by (simp add: utf8_encode_def replacement_def byte_chars)

lemma dec_ufffd: "dec_str ((CHR 0x5C # ''ufffd'') @ t) = replacement @ dec_str t"
proof -
  have "dec_str (CHR 0x5C # CHR ''u'' # CHR ''f'' # CHR ''f'' # CHR ''f'' # CHR ''d'' # t) =
      utf8_encode 65533 @ dec_str t"
    by (rule dec_str_u4 [where va = 15 and vb = 15 and vc = 15 and vd = 13])
      (simp_all add: hex_value_def is_surrogate_def)
  then show ?thesis by (simp add: replacement_of_u)
qed

lemma is_sep_2028D:
  "is_sep_2028 s \<Longrightarrow> \<exists>x t. s = CHR 0xE2 # CHR 0x80 # x # t \<and> (x = CHR 0xA8 \<or> x = CHR 0xA9)"
  by (auto simp: is_sep_2028_def split: list.splits)

lemma dec_2028:
  assumes "is_sep_2028 s"
  shows "dec_str (esc_2028 s @ t) = take 3 s @ dec_str t"
proof -
  obtain x u where s: "s = CHR 0xE2 # CHR 0x80 # x # u" and x: "x = CHR 0xA8 \<or> x = CHR 0xA9"
    using is_sep_2028D [OF assms] by blast
  have "dec_str (CHR 0x5C # CHR ''u'' # CHR ''2'' # CHR ''0'' # CHR ''2'' # CHR ''8'' # t) =
      utf8_encode 8232 @ dec_str t"
    by (rule dec_str_u4 [where va = 2 and vb = 0 and vc = 2 and vd = 8])
      (simp_all add: hex_value_def is_surrogate_def)
  moreover have "dec_str (CHR 0x5C # CHR ''u'' # CHR ''2'' # CHR ''0'' # CHR ''2'' # CHR ''9'' # t) =
      utf8_encode 8233 @ dec_str t"
    by (rule dec_str_u4 [where va = 2 and vb = 0 and vc = 2 and vd = 9])
      (simp_all add: hex_value_def is_surrogate_def)
  ultimately show ?thesis using s x
    by (auto simp: esc_2028_def utf8_encode_def byte_chars)
qed

lemma utf8_len_sep: "is_sep_2028 s \<Longrightarrow> utf8_len s = 3"
  by (drule is_sep_2028D) (auto simp: utf8_len_def second_ok_def cont_byte_def)

lemma enc_str_ascii: "(of_char c :: nat) < 128 \<Longrightarrow> enc_str (c # cs) = esc_ascii c @ enc_str cs"
  by (subst enc_str.simps) simp

lemma enc_str_bad:
  "\<not> (of_char c :: nat) < 128 \<Longrightarrow> utf8_len (c # cs) = 0 \<Longrightarrow>
   enc_str (c # cs) = (CHR 0x5C # ''ufffd'') @ enc_str cs"
  by (subst enc_str.simps) (simp only: list.case Let_def if_False if_True simp_thms)

lemma enc_str_sep:
  "is_sep_2028 s \<Longrightarrow> enc_str s = esc_2028 s @ enc_str (drop 3 s)"
  using is_sep_2028D [of s] utf8_len_sep [of s] by (subst enc_str.simps) auto

lemma enc_str_rune:
  "\<not> (of_char c :: nat) < 128 \<Longrightarrow> 0 < utf8_len (c # cs) \<Longrightarrow> \<not> is_sep_2028 (c # cs) \<Longrightarrow>
   enc_str (c # cs) = take (utf8_len (c # cs)) (c # cs) @ enc_str (drop (utf8_len (c # cs)) (c # cs))"
  by (subst enc_str.simps) (simp only: list.case Let_def if_False simp_thms split: if_split, simp)

text \<open>Induction along the runes of a string, one case per branch of the encoder.\<close>

lemma enc_str_induct [case_names Nil ascii bad sep rune]:
  assumes "P []"
    and "\<And>c cs. (of_char c :: nat) < 128 \<Longrightarrow> P cs \<Longrightarrow> P (c # cs)"
    and "\<And>c cs. \<not> (of_char c :: nat) < 128 \<Longrightarrow> utf8_len (c # cs) = 0 \<Longrightarrow> P cs \<Longrightarrow> P (c # cs)"
    and "\<And>s. is_sep_2028 s \<Longrightarrow> P (drop 3 s) \<Longrightarrow> P s"
    and "\<And>c cs. \<not> (of_char c :: nat) < 128 \<Longrightarrow> 0 < utf8_len (c # cs) \<Longrightarrow> \<not> is_sep_2028 (c # cs) \<Longrightarrow>
           P (drop (utf8_len (c # cs)) (c # cs)) \<Longrightarrow> P (c # cs)"
  shows "P s"
proof (induction s rule: length_induct)
  case (1 s)
  show ?case
  proof (cases s)
    case Nil
    then show ?thesis using assms(1) by simp
  next
    case (Cons c cs)
    have shorter: "P t" if "length t < length s" for t using 1 that by blast
    show ?thesis
    proof (cases "is_sep_2028 s")
      case True
      have "P (drop 3 s)" by (rule shorter) (simp add: Cons)
      with True show ?thesis by (rule assms(4))
    next
      case False
      consider "(of_char c :: nat) < 128" | "\<not> (of_char c :: nat) < 128" "utf8_len (c # cs) = 0"
        | "\<not> (of_char c :: nat) < 128" "0 < utf8_len (c # cs)" by blast
      then show ?thesis
      proof cases
        case 1
        have "P cs" by (rule shorter) (simp add: Cons)
        with 1 show ?thesis unfolding Cons by (rule assms(2))
      next
        case 2
        have "P cs" by (rule shorter) (simp add: Cons)
        with 2 show ?thesis unfolding Cons by (rule assms(3))
      next
        case 3
        moreover have "P (drop (utf8_len (c # cs)) (c # cs))" using 3 Cons by (intro shorter) simp
        ultimately show ?thesis using False Cons assms(5) by blast
      qed
    qed
  qed
qed

lemma to_valid_rune: "0 < utf8_len s \<Longrightarrow> to_valid s = take (utf8_len s) s @ to_valid (drop (utf8_len s) s)"
  by (subst to_valid.simps) (auto simp: Let_def utf8_len_def)

lemma dec_enc_str: "dec_str (enc_str s) = to_valid s"
proof (induction s rule: enc_str_induct)
  case (ascii c cs)
  then show ?case
    by (simp add: enc_str_ascii dec_esc_ascii to_valid_rune [of "c # cs"] utf8_len_ascii)
next
  case (bad c cs)
  then show ?case
    by (subst to_valid.simps) (simp only: enc_str_bad dec_ufffd Let_def list.distinct if_False simp_thms
        if_True drop_Suc_Cons drop_0 One_nat_def)
next
  case (sep s)
  then show ?case
    by (simp add: enc_str_sep dec_2028 to_valid_rune [of s] utf8_len_sep)
next
  case (rune c cs)
  then show ?case
    using dec_str_rune [of c cs] by (simp add: enc_str_rune to_valid_rune [of "c # cs"])
qed simp

corollary dec_enc_valid: "valid_utf8 s \<Longrightarrow> dec_str (enc_str s) = s"
  by (simp add: dec_enc_str to_valid_id)

section \<open>Quoted text is a string literal\<close>

text \<open>The raw text of a literal: the scanner reads it to its end.\<close>

definition raw_ok :: "string \<Rightarrow> bool" where
  "raw_ok raw \<longleftrightarrow> lex_str (raw @ [CHR 0x22]) = Some (raw, [])"

definition lex_piece :: "string \<Rightarrow> bool" where
  "lex_piece p \<longleftrightarrow> (\<forall>t. lex_str (p @ t) = map_option (\<lambda>(raw, rest). (p @ raw, rest)) (lex_str t))"

lemma lex_piece_Nil [simp]: "lex_piece []"
  by (simp add: lex_piece_def option.map_ident id_def)

lemma lex_piece_append: "lex_piece p \<Longrightarrow> lex_piece q \<Longrightarrow> lex_piece (p @ q)"
  by (simp add: lex_piece_def option.map_comp comp_def case_prod_unfold)

lemma lex_piece_lex: "lex_piece p \<Longrightarrow> lex_str (p @ CHR 0x22 # rest) = Some (p, rest)"
  by (simp add: lex_piece_def)

lemma lex_piece_raw_ok: "lex_piece p \<Longrightarrow> raw_ok p"
  by (simp add: raw_ok_def lex_piece_lex)

lemma lex_piece_plain:
  "c \<noteq> CHR 0x22 \<Longrightarrow> c \<noteq> CHR 0x5C \<Longrightarrow> 32 \<le> (of_char c :: nat) \<Longrightarrow> lex_piece [c]"
  by (auto simp: lex_piece_def)

lemma lex_piece_escape: "simple_escape e \<Longrightarrow> lex_piece [CHR 0x5C, e]"
  by (auto simp: lex_piece_def)

lemma lex_piece_u4:
  "is_hex h1 \<Longrightarrow> is_hex h2 \<Longrightarrow> is_hex h3 \<Longrightarrow> is_hex h4 \<Longrightarrow>
   lex_piece [CHR 0x5C, CHR ''u'', h1, h2, h3, h4]"
  by (auto simp: lex_piece_def simple_escape_def)

lemma lex_piece_u00: "lex_piece (u00 c)"
  unfolding u00_def append.simps
  by (rule lex_piece_u4) (simp_all add: is_hex_hexDigit, simp_all add: hex_defs)

lemma lex_piece_esc_ascii: "lex_piece (esc_ascii c)"
proof -
  have "simple_escape e" if "e \<in> {c. c = CHR 0x5C \<or> c = CHR 0x22} \<union> set ''bfnrt''" for e
    using that by (auto simp: simple_escape_def)
  then have "lex_piece [CHR 0x5C, CHR 0x5C]" "lex_piece [CHR 0x5C, CHR 0x22]" "lex_piece (CHR 0x5C # ''b'')"
    "lex_piece (CHR 0x5C # ''f'')" "lex_piece (CHR 0x5C # ''n'')" "lex_piece (CHR 0x5C # ''r'')"
    "lex_piece (CHR 0x5C # ''t'')"
    by (auto intro: lex_piece_escape)
  then show ?thesis
    unfolding esc_ascii_def using lex_piece_u00 lex_piece_plain [of c] by (auto split: if_split)
qed

lemma lex_piece_2028: "lex_piece (esc_2028 s)"
  unfolding esc_2028_def append.simps
  by (rule lex_piece_u4) (simp_all add: hex_defs)

lemma lex_piece_ufffd: "lex_piece (CHR 0x5C # ''ufffd'')"
  by (rule lex_piece_u4) (simp_all add: hex_defs)

lemma lex_piece_high: "list_all (\<lambda>c. 128 \<le> (of_char c :: nat)) p \<Longrightarrow> lex_piece p"
proof (induction p)
  case (Cons c p)
  then have "lex_piece [c]" by (intro lex_piece_plain) auto
  with Cons lex_piece_append [of "[c]" p] show ?case by simp
qed simp

lemma utf8_rune_high:
  assumes "\<not> (of_char c :: nat) < 128" "0 < utf8_len (c # cs)"
  shows "list_all (\<lambda>c. 128 \<le> (of_char c :: nat)) (take (utf8_len (c # cs)) (c # cs))"
proof -
  obtain ps where ps: "follows cs ps" "utf8_len (c # cs) = Suc (length ps)" "set ps \<subseteq> {cont_byte, second_ok c}"
    using utf8_len_multi [OF assms] by metis
  have "list_all (\<lambda>c. 128 \<le> (of_char c :: nat)) (take (length ps) cs)"
  proof (rule follows_all [OF ps(1)])
    fix p d assume "p \<in> set ps" "p d"
    with ps(3) have "cont_byte d \<or> second_ok c d" by auto
    then show "128 \<le> (of_char d :: nat)"
      by (auto simp: cont_byte_def second_ok_def Let_def split: if_splits)
  qed
  with assms(1) ps(2) show ?thesis by simp
qed

lemma lex_piece_enc_str: "lex_piece (enc_str s)"
proof (induction s rule: enc_str_induct)
  case (ascii c cs)
  then show ?case by (simp add: enc_str_ascii lex_piece_append lex_piece_esc_ascii)
next
  case (bad c cs)
  show ?case unfolding enc_str_bad [OF bad(1,2)]
    by (intro lex_piece_append lex_piece_ufffd bad(3))
next
  case (sep s)
  then show ?case by (simp add: enc_str_sep lex_piece_append lex_piece_2028)
next
  case (rune c cs)
  then show ?case
    using utf8_rune_high by (simp add: enc_str_rune lex_piece_append lex_piece_high)
qed simp

end
