(* ===== verification/Json.thy ===== *)
theory Json
  imports Json_String
begin

text \<open>
  JSON text as Go's \<^verbatim>\<open>encoding/json\<close> scans and prints it. \<open>cst\<close> is a parsed
  document that still holds what the text said: the raw body of every string, the literal of every
  number, the members of an object in order with their duplicates. \<open>parse_json\<close> is the
  scanner: a lexer and a pushdown machine with the scanner's nesting limit; \<open>print_json\<close> is
  the compact text. The main result is that the machine reads back what is printed.
\<close>

section \<open>Documents\<close>

datatype cst =
    CNull
  | CBool bool
  | CNum string
  | CStr string
  | CArr "cst list"
  | CObj "(string \<times> cst) list"

datatype token =
    TObjOpen | TObjClose | TArrOpen | TArrClose | TComma | TColon
  | TStr string | TWord string

definition maxNestingDepth :: nat where
  "maxNestingDepth = 10000"

section \<open>Number literals\<close>

definition is_digit :: "char \<Rightarrow> bool" where
  "is_digit c \<longleftrightarrow> 48 \<le> (of_char c :: nat) \<and> (of_char c :: nat) \<le> 57"

definition int_part_ok :: "string \<Rightarrow> bool" where
  "int_part_ok s \<longleftrightarrow> (case s of [] \<Rightarrow> False | c # cs \<Rightarrow> (c = CHR ''0'' \<longrightarrow> cs = []))"

definition exp_ok :: "string \<Rightarrow> bool" where
  "exp_ok s \<longleftrightarrow>
     (case s of [] \<Rightarrow> True
      | e # t \<Rightarrow> (e = CHR ''e'' \<or> e = CHR ''E'') \<and>
          (let d = (case t of [] \<Rightarrow> [] | g # u \<Rightarrow> if g = CHR ''+'' \<or> g = CHR ''-'' then u else t)
           in d \<noteq> [] \<and> list_all is_digit d))"

definition frac_exp_ok :: "string \<Rightarrow> bool" where
  "frac_exp_ok s \<longleftrightarrow>
     (case s of
        c # t \<Rightarrow> if c = CHR ''.'' then is_digit (hd (t @ ''x'')) \<and> exp_ok (dropWhile is_digit t) else exp_ok s
      | [] \<Rightarrow> True)"

text \<open>The number grammar of RFC 8259: sign, integer part, fraction, exponent.\<close>

definition is_number :: "string \<Rightarrow> bool" where
  "is_number s \<longleftrightarrow>
     (let t = (case s of [] \<Rightarrow> [] | c # cs \<Rightarrow> if c = CHR ''-'' then cs else s)
      in int_part_ok (takeWhile is_digit t) \<and> frac_exp_ok (dropWhile is_digit t))"

section \<open>The lexer\<close>

definition json_space :: "char \<Rightarrow> bool" where
  "json_space c \<longleftrightarrow> c = CHR 0x20 \<or> c = CHR 0x09 \<or> c = CHR 0x0A \<or> c = CHR 0x0D"

text \<open>The bytes a literal or a number is made of; a maximal run of them is one token.\<close>

definition word_char :: "char \<Rightarrow> bool" where
  "word_char c \<longleftrightarrow> is_digit c \<or> c \<in> set ''+-.'' \<or>
     (let n = (of_char c :: nat) in 65 \<le> n \<and> n \<le> 90 \<or> 97 \<le> n \<and> n \<le> 122)"

definition punct :: "char \<Rightarrow> token option" where
  "punct c =
     (if c = CHR ''{'' then Some TObjOpen else if c = CHR ''}'' then Some TObjClose
      else if c = CHR ''['' then Some TArrOpen else if c = CHR '']'' then Some TArrClose
      else if c = CHR '','' then Some TComma else if c = CHR '':'' then Some TColon else None)"

lemma lex_str_shorter: "lex_str s = Some (raw, rest) \<Longrightarrow> length rest < length s"
proof (induction s arbitrary: raw rest rule: lex_str.induct)
  case 1
  then show ?case by simp
next
  case (2 c cs)
  note IH = "2.IH" and eq = "2.prems"
  show ?case
  proof (cases "c = CHR 0x22")
    case True
    with eq show ?thesis by simp
  next
    case quote: False
    show ?thesis
    proof (cases "c = CHR 0x5C")
      case False
      with quote eq have big: "\<not> (of_char c :: nat) < 32" by (simp split: if_splits)
      with quote False eq obtain raw' where "lex_str cs = Some (raw', rest)" by auto
      from IH(3) [OF quote False big this] show ?thesis by simp
    next
      case slash: True
      with eq obtain e cs1 where cs: "cs = e # cs1" by (cases cs) auto
      show ?thesis
      proof (cases "simple_escape e")
        case True
        with slash cs eq obtain raw' where "lex_str cs1 = Some (raw', rest)" by auto
        from IH(1) [OF quote slash cs True this] cs show ?thesis by simp
      next
        case False
        with slash cs eq have u: "e = CHR ''u''" by (simp split: if_splits)
        with False slash cs eq obtain h i j k cs2 where cs1: "cs1 = h # i # j # k # cs2"
          by (auto split: list.splits)
        with u False slash cs eq have hex: "is_hex h \<and> is_hex i \<and> is_hex j \<and> is_hex k"
          by (simp split: if_splits)
        with cs1 u False slash cs eq obtain raw' where "lex_str cs2 = Some (raw', rest)" by auto
        from IH(2) [OF quote slash cs False u cs1 refl refl refl hex this] cs cs1 show ?thesis by simp
      qed
    qed
  qed
qed

function lex_json :: "string \<Rightarrow> token list option" where
  "lex_json s =
     (case s of
        [] \<Rightarrow> Some []
      | c # cs \<Rightarrow>
          if json_space c then lex_json cs
          else if c = CHR 0x22 then
            (case lex_str cs of
               None \<Rightarrow> None
             | Some (raw, rest) \<Rightarrow> map_option ((#) (TStr raw)) (lex_json rest))
          else case punct c of
              Some t \<Rightarrow> map_option ((#) t) (lex_json cs)
            | None \<Rightarrow>
                if word_char c
                then map_option ((#) (TWord (c # takeWhile word_char cs))) (lex_json (dropWhile word_char cs))
                else None)"
  by pat_completeness auto
termination
  by (relation "measure length") (auto simp: less_Suc_eq_le length_dropWhile_le dest: lex_str_shorter)

declare lex_json.simps [simp del]

section \<open>The parser\<close>

datatype frame = FArr "cst list" | FObj "(string \<times> cst) list" string

text \<open>What the machine expects next; an open object or array is a frame of the stack.\<close>

datatype mode =
    MVal | MValOrEnd | MKey "(string \<times> cst) list" bool | MColon "(string \<times> cst) list" string
  | MAfter | MDone cst

type_synonym pstate = "frame list \<times> mode"

fun complete :: "frame list \<Rightarrow> cst \<Rightarrow> pstate" where
  "complete [] v = ([], MDone v)"
| "complete (FArr vs # st) v = (FArr (v # vs) # st, MAfter)"
| "complete (FObj kvs k # st) v = (FObj ((k, v) # kvs) k # st, MAfter)"

definition word_value :: "string \<Rightarrow> cst option" where
  "word_value w =
     (if w = ''null'' then Some CNull else if w = ''true'' then Some (CBool True)
      else if w = ''false'' then Some (CBool False) else if is_number w then Some (CNum w) else None)"

definition begin_value :: "frame list \<Rightarrow> token \<Rightarrow> pstate option" where
  "begin_value st t =
     (case t of
        TStr raw \<Rightarrow> Some (complete st (CStr raw))
      | TWord w \<Rightarrow> map_option (complete st) (word_value w)
      | TArrOpen \<Rightarrow> if length st < maxNestingDepth then Some (FArr [] # st, MValOrEnd) else None
      | TObjOpen \<Rightarrow> if length st < maxNestingDepth then Some (st, MKey [] True) else None
      | _ \<Rightarrow> None)"

fun pstep :: "pstate \<Rightarrow> token \<Rightarrow> pstate option" where
  "pstep (st, MVal) t = begin_value st t"
| "pstep (st, MValOrEnd) t =
     (if t = TArrClose then (case st of FArr vs # st' \<Rightarrow> Some (complete st' (CArr (rev vs))) | _ \<Rightarrow> None)
      else begin_value st t)"
| "pstep (st, MKey kvs fresh) t =
     (case t of
        TStr raw \<Rightarrow> Some (st, MColon kvs raw)
      | TObjClose \<Rightarrow> if fresh then Some (complete st (CObj (rev kvs))) else None
      | _ \<Rightarrow> None)"
| "pstep (st, MColon kvs raw) t = (if t = TColon then Some (FObj kvs raw # st, MVal) else None)"
| "pstep (st, MAfter) t =
     (case st of
        FArr vs # st' \<Rightarrow>
          if t = TComma then Some (st, MVal)
          else if t = TArrClose then Some (complete st' (CArr (rev vs))) else None
      | FObj kvs k # st' \<Rightarrow>
          if t = TComma then Some (st', MKey kvs False)
          else if t = TObjClose then Some (complete st' (CObj (rev kvs))) else None
      | [] \<Rightarrow> None)"
| "pstep (st, MDone v) t = None"

fun pruns :: "pstate \<Rightarrow> token list \<Rightarrow> pstate option" where
  "pruns s [] = Some s"
| "pruns s (t # ts) = (case pstep s t of None \<Rightarrow> None | Some s' \<Rightarrow> pruns s' ts)"

definition parse_tokens :: "token list \<Rightarrow> cst option" where
  "parse_tokens ts = (case pruns ([], MVal) ts of Some (st, MDone v) \<Rightarrow> Some v | _ \<Rightarrow> None)"

definition parse_json :: "string \<Rightarrow> cst option" where
  "parse_json s = (case lex_json s of None \<Rightarrow> None | Some ts \<Rightarrow> parse_tokens ts)"

section \<open>Printing\<close>

fun spell :: "token \<Rightarrow> string" where
  "spell TObjOpen = ''{''"
| "spell TObjClose = ''}''"
| "spell TArrOpen = ''[''"
| "spell TArrClose = '']''"
| "spell TComma = '',''"
| "spell TColon = '':''"
| "spell (TStr raw) = CHR 0x22 # raw @ [CHR 0x22]"
| "spell (TWord w) = w"

fun toks :: "cst \<Rightarrow> token list"
  and toks_arr :: "bool \<Rightarrow> cst list \<Rightarrow> token list"
  and toks_obj :: "bool \<Rightarrow> (string \<times> cst) list \<Rightarrow> token list" where
  "toks CNull = [TWord ''null'']"
| "toks (CBool b) = [TWord (if b then ''true'' else ''false'')]"
| "toks (CNum w) = [TWord w]"
| "toks (CStr raw) = [TStr raw]"
| "toks (CArr vs) = TArrOpen # toks_arr True vs"
| "toks (CObj kvs) = TObjOpen # toks_obj True kvs"
| "toks_arr fresh [] = [TArrClose]"
| "toks_arr fresh (v # vs) = (if fresh then [] else [TComma]) @ toks v @ toks_arr False vs"
| "toks_obj fresh [] = [TObjClose]"
| "toks_obj fresh ((k, v) # kvs) =
     (if fresh then [] else [TComma]) @ TStr k # TColon # toks v @ toks_obj False kvs"

definition print_json :: "cst \<Rightarrow> string" where
  "print_json c = concat (map spell (toks c))"

text \<open>Documents whose atoms are what the scanner accepts, and how deep they nest.\<close>

fun wf_cst :: "cst \<Rightarrow> bool" where
  "wf_cst (CNum w) = is_number w"
| "wf_cst (CStr raw) = raw_ok raw"
| "wf_cst (CArr vs) = list_all wf_cst vs"
| "wf_cst (CObj kvs) = list_all (\<lambda>(k, v). raw_ok k \<and> wf_cst v) kvs"
| "wf_cst _ = True"

fun cdepth :: "cst \<Rightarrow> nat" where
  "cdepth (CArr vs) = Suc (foldr (\<lambda>v d. max (cdepth v) d) vs 0)"
| "cdepth (CObj kvs) = Suc (foldr (\<lambda>(k, v) d. max (cdepth v) d) kvs 0)"
| "cdepth _ = 0"

section \<open>The lexer reads back printed tokens\<close>

lemma digit_word: "is_digit c \<Longrightarrow> word_char c"
  by (simp add: word_char_def)

lemma word_char_not_special:
  assumes "word_char c"
  shows "\<not> json_space c" "c \<noteq> CHR 0x22" "punct c = None"
  using assms by (auto simp: word_char_def is_digit_def json_space_def punct_def Let_def)

definition word_free :: "string \<Rightarrow> bool" where
  "word_free s \<longleftrightarrow> (case s of [] \<Rightarrow> True | c # _ \<Rightarrow> \<not> word_char c)"

definition is_word :: "string \<Rightarrow> bool" where
  "is_word w \<longleftrightarrow> w \<noteq> [] \<and> list_all word_char w"

lemma takeWhile_word:
  "list_all word_char w \<Longrightarrow> word_free r \<Longrightarrow> takeWhile word_char (w @ r) = w \<and> dropWhile word_char (w @ r) = r"
  by (induction w) (auto simp: word_free_def split: list.splits)

lemma lex_word: "is_word w \<Longrightarrow> word_free r \<Longrightarrow> lex_json (w @ r) = map_option ((#) (TWord w)) (lex_json r)"
  by (cases w) (auto simp: is_word_def lex_json.simps [of "_ # _"] word_char_not_special takeWhile_word)

lemma lex_str_raw: "raw_ok raw \<Longrightarrow> lex_str (raw @ CHR 0x22 # r) = Some (raw, r)"
proof (induction raw arbitrary: r rule: lex_str.induct)
  case 1
  then show ?case by simp
next
  case (2 c cs)
  note IH = "2.IH" and ok = "2.prems" [unfolded raw_ok_def]
  show ?case
  proof (cases "c = CHR 0x22")
    case True
    with ok show ?thesis by simp
  next
    case quote: False
    show ?thesis
    proof (cases "c = CHR 0x5C")
      case False
      with quote ok have big: "\<not> (of_char c :: nat) < 32" by (simp split: if_splits)
      with quote False ok have "raw_ok cs" by (auto simp: raw_ok_def)
      from IH(3) [OF quote False big this] quote False big show ?thesis by simp
    next
      case slash: True
      with ok obtain e t where cs: "cs = e # t" by (cases cs) (auto simp: simple_escape_def)
      show ?thesis
      proof (cases "simple_escape e")
        case True
        with slash cs ok have "raw_ok t" by (auto simp: raw_ok_def)
        from IH(1) [OF quote slash cs True this] slash cs True show ?thesis by simp
      next
        case False
        with slash cs ok have u: "e = CHR ''u''" by (simp split: if_splits)
        with False slash cs ok obtain h i j k x where t: "t @ [CHR 0x22] = h # i # j # k # x"
            and hex: "is_hex h \<and> is_hex i \<and> is_hex j \<and> is_hex k"
          by (auto split: list.splits if_splits)
        have "\<not> is_hex (CHR 0x22)" by (simp add: hex_defs)
        with t hex obtain y where y: "t = h # i # j # k # y" "x = y @ [CHR 0x22]"
          by (cases t; cases "tl t"; cases "tl (tl t)"; cases "tl (tl (tl t))") auto
        with u False slash cs ok hex have "raw_ok y" by (auto simp: raw_ok_def)
        from IH(2) [OF quote slash cs False u y(1) refl refl refl hex this] u False slash cs y hex
        show ?thesis by simp
      qed
    qed
  qed
qed

fun token_ok :: "token \<Rightarrow> bool" where
  "token_ok (TStr raw) = raw_ok raw"
| "token_ok (TWord w) = is_word w"
| "token_ok _ = True"

fun starts_word :: "token list \<Rightarrow> bool" where
  "starts_word (TWord w # ts) = True"
| "starts_word _ = False"

fun spaced :: "token list \<Rightarrow> bool" where
  "spaced [] = True"
| "spaced (TWord w # ts) = (\<not> starts_word ts \<and> spaced ts)"
| "spaced (t # ts) = spaced ts"

lemma spell_word_free: "\<not> starts_word ts \<Longrightarrow> word_free (concat (map spell ts))"
  by (cases ts rule: starts_word.cases) (auto simp: word_free_def word_char_def is_digit_def)

lemma lex_spell: "list_all token_ok ts \<Longrightarrow> spaced ts \<Longrightarrow> lex_json (concat (map spell ts)) = Some ts"
proof (induction ts)
  case Nil
  then show ?case by (simp add: lex_json.simps)
next
  case (Cons t ts)
  show ?case
  proof (cases t)
    case (TWord w)
    with Cons show ?thesis by (simp add: lex_word spell_word_free)
  next
    case (TStr raw)
    with Cons show ?thesis by (simp add: lex_json.simps [of "_ # _"] json_space_def lex_str_raw)
  qed (use Cons in \<open>simp_all add: lex_json.simps [of "_ # _"] json_space_def punct_def\<close>)
qed

lemma digits_word: "list_all is_digit s \<Longrightarrow> list_all word_char s"
  by (auto simp: list_all_iff digit_word)

lemma exp_word: "exp_ok s \<Longrightarrow> list_all word_char s"
proof (cases s)
  case (Cons e t)
  assume ok: "exp_ok s"
  with Cons have e: "word_char e" by (auto simp: exp_ok_def word_char_def Let_def)
  have "list_all word_char t"
    using ok Cons by (cases t) (auto simp: exp_ok_def Let_def digits_word word_char_def [of "CHR ''+''"]
        word_char_def [of "CHR ''-''"] digit_word split: if_splits)
  with e Cons show ?thesis by simp
qed simp

lemma frac_exp_word: "frac_exp_ok s \<Longrightarrow> list_all word_char s"
proof (cases s)
  case (Cons c t)
  assume ok: "frac_exp_ok s"
  show ?thesis
  proof (cases "c = CHR ''.''")
    case True
    with ok Cons have "list_all word_char (dropWhile is_digit t)" by (simp add: frac_exp_ok_def exp_word)
    moreover have "list_all word_char (takeWhile is_digit t)"
      by (rule digits_word) (auto simp: list_all_iff dest: set_takeWhileD)
    ultimately have "list_all word_char (takeWhile is_digit t @ dropWhile is_digit t)"
      unfolding list_all_append by blast
    with True Cons show ?thesis by (simp add: word_char_def)
  next
    case False
    with ok Cons have "exp_ok s" by (simp add: frac_exp_ok_def)
    then show ?thesis by (rule exp_word)
  qed
qed simp

lemma number_word: assumes "is_number s" shows "is_word s"
proof -
  define t where "t = (case s of [] \<Rightarrow> [] | c # cs \<Rightarrow> if c = CHR ''-'' then cs else s)"
  have n: "int_part_ok (takeWhile is_digit t)" "frac_exp_ok (dropWhile is_digit t)"
    using assms by (simp_all add: is_number_def t_def Let_def)
  have "list_all word_char (takeWhile is_digit t)"
    by (rule digits_word) (auto simp: list_all_iff dest: set_takeWhileD)
  with frac_exp_word [OF n(2)] have "list_all word_char (takeWhile is_digit t @ dropWhile is_digit t)"
    unfolding list_all_append by blast
  then have "list_all word_char t" by simp
  moreover have "t \<noteq> []" using n(1) by (auto simp: int_part_ok_def)
  ultimately show ?thesis
    by (auto simp: t_def is_word_def word_char_def [of "CHR ''-''"] split: list.splits if_splits)
qed

lemma keyword_word: "is_word ''null''" "is_word ''true''" "is_word ''false''"
  by (simp_all add: is_word_def word_char_def is_digit_def Let_def)

lemma toks_ok:
  "wf_cst c \<Longrightarrow> list_all token_ok (toks c)"
  "list_all wf_cst vs \<Longrightarrow> list_all token_ok (toks_arr b vs)"
  "list_all (\<lambda>(k, v). raw_ok k \<and> wf_cst v) kvs \<Longrightarrow> list_all token_ok (toks_obj b kvs)"
  by (induction c and b vs and b kvs rule: toks_toks_arr_toks_obj.induct)
    (auto simp: number_word keyword_word)

lemma spaced_append:
  "spaced xs \<Longrightarrow> spaced ys \<Longrightarrow> \<not> starts_word ys \<Longrightarrow> spaced (xs @ ys)"
proof (induction xs rule: spaced.induct)
  case (2 w ts)
  then show ?case by (cases ts rule: starts_word.cases) auto
qed auto

lemma toks_rest_not_word: "\<not> starts_word (toks_arr False vs)" "\<not> starts_word (toks_obj b kvs)"
  by (cases vs; simp) (cases kvs; cases b; auto)

lemma toks_spaced:
  "spaced (toks c)" "spaced (toks_arr b vs)" "spaced (toks_obj b kvs)"
  by (induction c and b vs and b kvs rule: toks_toks_arr_toks_obj.induct)
    (auto simp: spaced_append toks_rest_not_word)

lemma lex_print: "wf_cst c \<Longrightarrow> lex_json (print_json c) = Some (toks c)"
  unfolding print_json_def by (rule lex_spell) (simp_all add: toks_ok toks_spaced)

section \<open>The machine reads back a printed document\<close>

lemma hd_toks: "\<exists>t ts. toks c = t # ts \<and> t \<noteq> TArrClose"
  by (cases c) auto

lemma pruns_open: "pruns (st, MValOrEnd) (toks c @ ts) = pruns (st, MVal) (toks c @ ts)"
proof -
  obtain t us where "toks c = t # us" "t \<noteq> TArrClose" using hd_toks by blast
  then show ?thesis by simp
qed

lemma word_value_keyword:
  "word_value ''null'' = Some CNull" "word_value ''true'' = Some (CBool True)"
  "word_value ''false'' = Some (CBool False)"
  by (simp_all add: word_value_def)

lemma word_value_number: "is_number w \<Longrightarrow> word_value w = Some (CNum w)"
proof -
  have "\<not> is_number ''null''" "\<not> is_number ''true''" "\<not> is_number ''false''"
    by (simp_all add: is_number_def int_part_ok_def is_digit_def)
  then show "is_number w \<Longrightarrow> word_value w = Some (CNum w)" by (auto simp: word_value_def)
qed

lemma pruns_toks:
  "wf_cst c \<Longrightarrow> length st + cdepth c \<le> maxNestingDepth \<Longrightarrow>
     pruns (st, MVal) (toks c @ ts) = pruns (complete st c) ts"
  "list_all wf_cst vs \<Longrightarrow> Suc (length st) + foldr (\<lambda>v d. max (cdepth v) d) vs 0 \<le> maxNestingDepth \<Longrightarrow>
     pruns (FArr acc # st, if b then MValOrEnd else MAfter) (toks_arr b vs @ ts) =
     pruns (complete st (CArr (rev acc @ vs))) ts"
  "list_all (\<lambda>(k, v). raw_ok k \<and> wf_cst v) kvs \<Longrightarrow>
     Suc (length st) + foldr (\<lambda>(k, v) d. max (cdepth v) d) kvs 0 \<le> maxNestingDepth \<Longrightarrow>
     pruns (if b then (st, MKey pre True) else (FObj pre key # st, MAfter)) (toks_obj b kvs @ ts) =
     pruns (complete st (CObj (rev pre @ kvs))) ts"
proof (induction c and b vs and b kvs arbitrary: st ts and st acc ts and st pre key ts
    rule: toks_toks_arr_toks_obj.induct)
  case (5 vs)
  from "5.IH" [of st "[]" ts] "5.prems" show ?case by (simp add: begin_value_def)
next
  case (6 kvs)
  from "6.IH" [of st "[]" "[]" ts] "6.prems" show ?case by (simp add: begin_value_def)
next
  case (8 b v vs)
  have "pruns (FArr acc # st, MVal) (toks v @ toks_arr False vs @ ts) =
      pruns (FArr (v # acc) # st, MAfter) (toks_arr False vs @ ts)"
    using "8.IH"(1) [of "FArr acc # st" "toks_arr False vs @ ts"] "8.prems" by simp
  also have "\<dots> = pruns (complete st (CArr (rev acc @ v # vs))) ts"
    using "8.IH"(2) [of st "v # acc" ts] "8.prems" by simp
  finally show ?case by (simp add: pruns_open)
next
  case (10 b k v kvs)
  have "pruns (FObj pre k # st, MVal) (toks v @ toks_obj False kvs @ ts) =
      pruns (FObj ((k, v) # pre) k # st, MAfter) (toks_obj False kvs @ ts)"
    using "10.IH"(1) [of "FObj pre k # st" "toks_obj False kvs @ ts"] "10.prems" by simp
  also have "\<dots> = pruns (complete st (CObj (rev pre @ (k, v) # kvs))) ts"
    using "10.IH"(2) [of st "(k, v) # pre" k ts] "10.prems" by simp
  finally show ?case by simp
qed (simp_all add: begin_value_def word_value_keyword word_value_number)

theorem parse_print: "wf_cst c \<Longrightarrow> cdepth c \<le> maxNestingDepth \<Longrightarrow> parse_json (print_json c) = Some c"
  using pruns_toks(1) [of c "[]" "[]"] by (simp add: parse_json_def lex_print parse_tokens_def)

section \<open>The nesting limit\<close>

text \<open>A document one level too deep is refused, wherever in it that level is.\<close>

lemma pruns_append: "pruns s (xs @ ys) = (case pruns s xs of None \<Rightarrow> None | Some s' \<Rightarrow> pruns s' ys)"
  by (induction s xs rule: pruns.induct) (auto split: option.splits)

lemma pruns_deep:
  "wf_cst c \<Longrightarrow> length st \<le> maxNestingDepth \<Longrightarrow> maxNestingDepth < length st + cdepth c \<Longrightarrow>
     pruns (st, MVal) (toks c @ ts) = None"
  "list_all wf_cst vs \<Longrightarrow> length st < maxNestingDepth \<Longrightarrow>
     maxNestingDepth < Suc (length st) + foldr (\<lambda>v d. max (cdepth v) d) vs 0 \<Longrightarrow>
     pruns (FArr acc # st, if b then MValOrEnd else MAfter) (toks_arr b vs @ ts) = None"
  "list_all (\<lambda>(k, v). raw_ok k \<and> wf_cst v) kvs \<Longrightarrow> length st < maxNestingDepth \<Longrightarrow>
     maxNestingDepth < Suc (length st) + foldr (\<lambda>(k, v) d. max (cdepth v) d) kvs 0 \<Longrightarrow>
     pruns (if b then (st, MKey pre True) else (FObj pre key # st, MAfter)) (toks_obj b kvs @ ts) = None"
proof (induction c and b vs and b kvs arbitrary: st ts and st acc ts and st pre key ts
    rule: toks_toks_arr_toks_obj.induct)
  case (5 vs)
  then show ?case
    using "5.IH" [of st "[]" ts] by (cases "length st < maxNestingDepth") (simp_all add: begin_value_def)
next
  case (6 kvs)
  then show ?case
    using "6.IH" [of st "[]" "[]" ts] by (cases "length st < maxNestingDepth") (simp_all add: begin_value_def)
next
  case (8 b v vs)
  have "pruns (FArr acc # st, MVal) (toks v @ toks_arr False vs @ ts) = None"
  proof (cases "maxNestingDepth < Suc (length st) + cdepth v")
    case True
    then show ?thesis
      using "8.IH"(1) [of "FArr acc # st" "toks_arr False vs @ ts"] "8.prems" by simp
  next
    case False
    then have "pruns (FArr acc # st, MVal) (toks v @ toks_arr False vs @ ts) =
        pruns (FArr (v # acc) # st, MAfter) (toks_arr False vs @ ts)"
      using pruns_toks(1) [of v "FArr acc # st" "toks_arr False vs @ ts"] "8.prems" by simp
    also have "\<dots> = None"
      using "8.IH"(2) [of st "v # acc" ts] "8.prems" False by simp
    finally show ?thesis .
  qed
  then show ?case by (simp add: pruns_open)
next
  case (10 b k v kvs)
  have "pruns (FObj pre k # st, MVal) (toks v @ toks_obj False kvs @ ts) = None"
  proof (cases "maxNestingDepth < Suc (length st) + cdepth v")
    case True
    then show ?thesis
      using "10.IH"(1) [of "FObj pre k # st" "toks_obj False kvs @ ts"] "10.prems" by simp
  next
    case False
    then have "pruns (FObj pre k # st, MVal) (toks v @ toks_obj False kvs @ ts) =
        pruns (FObj ((k, v) # pre) k # st, MAfter) (toks_obj False kvs @ ts)"
      using pruns_toks(1) [of v "FObj pre k # st" "toks_obj False kvs @ ts"] "10.prems" by simp
    also have "\<dots> = None"
      using "10.IH"(2) [of st "(k, v) # pre" k ts] "10.prems" False by simp
    finally show ?thesis .
  qed
  then show ?case by simp
qed simp_all

lemma parse_print_iff:
  "wf_cst c \<Longrightarrow> parse_json (print_json c) = (if cdepth c \<le> maxNestingDepth then Some c else None)"
  using pruns_deep(1) [of c "[]" "[]"] by (simp add: parse_print) (simp add: parse_json_def lex_print parse_tokens_def)

section \<open>Printed documents hold no control byte\<close>

definition printable :: "string \<Rightarrow> bool" where
  "printable s \<longleftrightarrow> list_all (\<lambda>c. 32 \<le> (of_char c :: nat)) s"

lemma printable_append [simp]: "printable (s @ t) \<longleftrightarrow> printable s \<and> printable t"
  by (simp add: printable_def)

lemma printable_Cons [simp]: "printable (c # s) \<longleftrightarrow> 32 \<le> (of_char c :: nat) \<and> printable s"
  by (simp add: printable_def)

lemma printable_Nil [simp]: "printable []"
  by (simp add: printable_def)

lemma printable_word: "is_word w \<Longrightarrow> printable w"
proof -
  have *: "word_char c \<Longrightarrow> 32 \<le> (of_char c :: nat)" for c
    by (auto simp: word_char_def is_digit_def Let_def)
  show "is_word w \<Longrightarrow> printable w" by (auto simp: is_word_def printable_def list_all_iff *)
qed

lemma hex_printable: "is_hex c \<Longrightarrow> 32 \<le> (of_char c :: nat)"
  by (auto simp: hex_defs Let_def split: if_splits)

lemma simple_escape_printable: "simple_escape c \<Longrightarrow> 32 \<le> (of_char c :: nat)"
  by (auto simp: simple_escape_def)

lemma lex_str_printable: "lex_str s = Some (raw, rest) \<Longrightarrow> printable raw"
proof (induction s arbitrary: raw rest rule: lex_str.induct)
  case 1
  then show ?case by simp
next
  case (2 c cs)
  note IH = "2.IH" and eq = "2.prems"
  show ?case
  proof (cases "c = CHR 0x22")
    case True
    with eq show ?thesis by simp
  next
    case quote: False
    show ?thesis
    proof (cases "c = CHR 0x5C")
      case False
      with quote eq have big: "\<not> (of_char c :: nat) < 32" by (simp split: if_splits)
      with quote False eq obtain raw' where "lex_str cs = Some (raw', rest)" "raw = c # raw'" by auto
      from IH(3) [OF quote False big this(1)] this(2) big show ?thesis by simp
    next
      case slash: True
      with eq obtain e t where cs: "cs = e # t" by (cases cs) auto
      show ?thesis
      proof (cases "simple_escape e")
        case True
        with slash cs eq obtain raw' where "lex_str t = Some (raw', rest)" "raw = c # e # raw'" by auto
        from IH(1) [OF quote slash cs True this(1)] this(2) slash simple_escape_printable [OF True]
        show ?thesis by simp
      next
        case False
        with slash cs eq have u: "e = CHR ''u''" by (simp split: if_splits)
        with False slash cs eq obtain h i j k x where t: "t = h # i # j # k # x"
          by (auto split: list.splits)
        with u False slash cs eq have hex: "is_hex h \<and> is_hex i \<and> is_hex j \<and> is_hex k"
          by (simp split: if_splits)
        with t u False slash cs eq obtain raw'
          where raw: "lex_str x = Some (raw', rest)" "raw = c # e # h # i # j # k # raw'" by auto
        from IH(2) [OF quote slash cs False u t refl refl refl hex raw(1)] raw(2) slash u hex
        show ?thesis by (simp add: hex_printable)
      qed
    qed
  qed
qed

lemma raw_printable: "raw_ok raw \<Longrightarrow> printable raw"
  unfolding raw_ok_def by (rule lex_str_printable)

lemma spell_printable: "token_ok t \<Longrightarrow> printable (spell t)"
  by (cases t) (simp_all add: raw_printable printable_word)

lemma print_printable: "wf_cst c \<Longrightarrow> printable (print_json c)"
proof -
  have "list_all token_ok ts \<Longrightarrow> printable (concat (map spell ts))" for ts
    by (induction ts) (simp_all add: spell_printable)
  then show "wf_cst c \<Longrightarrow> printable (print_json c)" unfolding print_json_def by (simp add: toks_ok)
qed

lemma toks_obj_end: "\<exists>ts. toks_obj b kvs = ts @ [TObjClose]"
proof (induction kvs arbitrary: b)
  case (Cons x kvs)
  obtain k v where x: "x = (k, v)" by (cases x)
  obtain ts where "toks_obj False kvs = ts @ [TObjClose]" using Cons.IH by blast
  then show ?case
    by (intro exI [of _ "(if b then [] else [TComma]) @ TStr k # TColon # toks v @ ts"]) (simp add: x)
qed simp

end
