(* ===== verification/Json_Prefix.thy ===== *)
theory Json_Prefix
  imports Json
begin

text \<open>
  A line cut short is not a document: no strict prefix of a printed JSON object parses. This is
  what makes a torn write harmless to the chain.
\<close>

section \<open>Strings cut short\<close>

lemma lex_str_extend: "lex_str s = Some (a, b) \<Longrightarrow> lex_str (s @ x) = Some (a, b @ x)"
proof (induction s arbitrary: a b rule: lex_str.induct)
  case 1
  then show ?case by simp
next
  case (2 c cs)
  note IH = "2.IH" and eq = "2.prems"
  show ?case
  proof (cases "c = CHR 0x22")
    case True
    with eq show ?thesis by simp
  next
    case quote: False
    show ?thesis
    proof (cases "c = CHR 0x5C")
      case False
      with quote eq have big: "\<not> (of_char c :: nat) < 32" by (simp split: if_splits)
      with quote False eq obtain a' where a: "lex_str cs = Some (a', b)" "a = c # a'" by auto
      from IH(3) [OF quote False big a(1)] a(2) quote False big show ?thesis by simp
    next
      case slash: True
      with eq obtain e t where cs: "cs = e # t" by (cases cs) auto
      show ?thesis
      proof (cases "simple_escape e")
        case True
        with slash cs eq obtain a' where a: "lex_str t = Some (a', b)" "a = c # e # a'" by auto
        from IH(1) [OF quote slash cs True a(1)] a(2) slash cs True show ?thesis by simp
      next
        case False
        with slash cs eq have u: "e = CHR ''u''" by (simp split: if_splits)
        with False slash cs eq obtain h i j k y where t: "t = h # i # j # k # y"
          by (auto split: list.splits)
        with u False slash cs eq have hex: "is_hex h \<and> is_hex i \<and> is_hex j \<and> is_hex k"
          by (simp split: if_splits)
        with t u False slash cs eq obtain a'
          where a: "lex_str y = Some (a', b)" "a = c # e # h # i # j # k # a'" by auto
        from IH(2) [OF quote slash cs False u t refl refl refl hex a(1)] a(2) slash u cs t hex False
        show ?thesis by simp
      qed
    qed
  qed
qed

lemma lex_str_cut: "raw_ok raw \<Longrightarrow> prefix p raw \<Longrightarrow> lex_str p = None"
proof (rule ccontr)
  assume "raw_ok raw" "prefix p raw" "lex_str p \<noteq> None"
  then obtain x a b where "raw = p @ x" "lex_str p = Some (a, b)" "lex_str (raw @ [CHR 0x22]) = Some (raw, [])"
    by (auto simp: prefix_def raw_ok_def)
  with lex_str_extend [of p a b "x @ [CHR 0x22]"] show False by simp
qed

section \<open>Tokens cut short\<close>

text \<open>What the lexer can make of a prefix: a prefix of the tokens, its last word perhaps cut.\<close>

definition cut_tokens :: "token list \<Rightarrow> token list \<Rightarrow> bool" where
  "cut_tokens us ts \<longleftrightarrow> (\<exists>vs ws. ts = vs @ ws \<and> (us = vs \<or> (\<exists>w. us = vs @ [TWord w] \<and> ws \<noteq> [])))"

lemma cut_tokens_Nil: "cut_tokens [] ts"
  unfolding cut_tokens_def by (rule exI [of _ "[]"]) simp

lemma cut_tokens_Cons: "cut_tokens us ts \<Longrightarrow> cut_tokens (t # us) (t # ts)"
  unfolding cut_tokens_def by (metis append_Cons)

lemma word_free_prefix: "word_free s \<Longrightarrow> prefix p s \<Longrightarrow> word_free p"
  by (cases p) (auto simp: word_free_def prefix_def)

lemma lex_cut:
  "list_all token_ok ts \<Longrightarrow> spaced ts \<Longrightarrow> prefix q (concat (map spell ts)) \<Longrightarrow> lex_json q = Some us \<Longrightarrow>
     cut_tokens us ts"
proof (induction ts arbitrary: q us)
  case Nil
  then show ?case by (simp add: lex_json.simps cut_tokens_Nil)
next
  case (Cons t ts)
  from Cons.prems(3) consider (cut) "strict_prefix q (spell t)"
    | (whole) q' where "q = spell t @ q'" "prefix q' (concat (map spell ts))"
  proof (cases "q = spell t")
    case True
    then show ?thesis using whole [of "[]"] by simp
  next
    case False
    with Cons.prems(3) show ?thesis using cut whole by (auto simp: prefix_append strict_prefix_def)
  qed
  then show ?case
  proof cases
    case cut
    show ?thesis
    proof (cases t)
      case (TStr raw)
      with cut consider "q = []" | p where "q = CHR 0x22 # p" "prefix p raw"
        by (cases q) (auto simp: strict_prefix_def prefix_append prefix_Cons)
      then show ?thesis
      proof cases
        case 1
        with Cons.prems(4) show ?thesis by (simp add: lex_json.simps cut_tokens_Nil)
      next
        case 2
        have "raw_ok raw" using Cons.prems(1) TStr by simp
        then have "lex_str p = None" using 2(2) by (rule lex_str_cut)
        with 2 Cons.prems(4) show ?thesis by (simp add: lex_json.simps [of "_ # _"] json_space_def)
      qed
    next
      case (TWord w)
      show ?thesis
      proof (cases "q = []")
        case True
        with Cons.prems(4) show ?thesis by (simp add: lex_json.simps cut_tokens_Nil)
      next
        case False
        with cut TWord Cons.prems(1) have "is_word q"
          by (auto simp: is_word_def strict_prefix_def prefix_def)
        then have "lex_json q = Some [TWord q]"
          using lex_word [of q "[]"] by (simp add: word_free_def lex_json.simps [of "[]"])
        with Cons.prems(4) have "us = [] @ [TWord q]" by simp
        then show ?thesis unfolding cut_tokens_def by (intro exI [of _ "[]"] exI [of _ "t # ts"]) auto
      qed
    qed (use cut Cons.prems(4) in \<open>auto simp: strict_prefix_def prefix_Cons lex_json.simps cut_tokens_Nil\<close>)
  next
    case whole
    have ok: "list_all token_ok ts" "spaced ts" "\<And>w. t = TWord w \<Longrightarrow> \<not> starts_word ts"
      using Cons.prems(1,2) by (cases t; simp)+
    have "lex_json q = map_option ((#) t) (lex_json q')"
    proof (cases t)
      case (TStr raw)
      then show ?thesis using Cons.prems(1) whole(1)
        by (simp add: lex_json.simps [of "_ # _"] json_space_def lex_str_raw)
    next
      case (TWord w)
      with ok(3) have "word_free q'" using whole(2) by (blast intro: word_free_prefix spell_word_free)
      with TWord Cons.prems(1) whole(1) show ?thesis by (simp add: lex_word)
    qed (use whole(1) in \<open>simp_all add: lex_json.simps [of "_ # _"] json_space_def punct_def\<close>)
    with Cons.prems(4) obtain us' where "us = t # us'" "lex_json q' = Some us'" by auto
    with Cons.IH [OF ok(1,2) whole(2)] show ?thesis by (simp add: cut_tokens_Cons)
  qed
qed

section \<open>The machine on a cut document\<close>

text \<open>Once it has read a token, the machine awaits a value only inside a container.\<close>

definition busy :: "pstate \<Rightarrow> bool" where
  "busy s \<longleftrightarrow> (case s of (st, m) \<Rightarrow> m = MVal \<or> m = MValOrEnd \<longrightarrow> st \<noteq> [])"

lemma complete_busy: "busy (complete st v)"
  by (cases "(st, v)" rule: complete.cases) (auto simp: busy_def)

lemma pstep_busy: "pstep s t = Some s' \<Longrightarrow> busy s'"
  by (cases "(s, t)" rule: pstep.cases)
    (auto simp: begin_value_def complete_busy split: if_splits token.splits list.splits frame.splits,
     auto simp: busy_def)

lemma pruns_busy: "pruns s ts = Some s' \<Longrightarrow> busy s \<Longrightarrow> busy s'"
  by (induction s ts rule: pruns.induct) (auto dest: pstep_busy split: option.splits)

lemma complete_done: "complete st v = (st', MDone w) \<Longrightarrow> st = []"
  by (cases "(st, v)" rule: complete.cases) auto

lemma word_not_done: "busy s \<Longrightarrow> pstep s (TWord w) = Some (st', MDone v) \<Longrightarrow> False"
  by (cases "(s, TWord w)" rule: pstep.cases)
    (auto simp: begin_value_def busy_def dest!: complete_done split: if_splits list.splits frame.splits)

lemma spaced_prefix: "spaced (xs @ ys) \<Longrightarrow> spaced xs"
proof (induction xs rule: spaced.induct)
  case (2 w ts)
  then show ?case by (cases ts rule: starts_word.cases) auto
qed auto

lemma prefix_not_document:
  assumes "wf_cst (CObj kvs)" "cdepth (CObj kvs) \<le> maxNestingDepth"
    and "strict_prefix q (print_json (CObj kvs))"
  shows "parse_json q = None"
proof (rule ccontr)
  let ?ts = "toks (CObj kvs)"
  assume "parse_json q \<noteq> None"
  then obtain us st v where us: "lex_json q = Some us" "pruns ([], MVal) us = Some (st, MDone v)"
    by (auto simp: parse_json_def parse_tokens_def split: option.splits prod.splits mode.splits)
  have full: "pruns ([], MVal) ?ts = Some ([], MDone (CObj kvs))"
    using pruns_toks(1) [OF assms(1), of "[]" "[]"] assms(2) by simp
  obtain ts where ts: "?ts = ts @ [TObjClose]"
    using toks_obj_end [of True kvs] by (auto intro: that [of "TObjOpen # _"])
  have "prefix q (concat (map spell ts))"
  proof -
    have "print_json (CObj kvs) = concat (map spell ts) @ ''}''" unfolding print_json_def ts by simp
    with assms(3) show ?thesis by (auto simp: strict_prefix_def)
  qed
  moreover have "list_all token_ok ts" "spaced ts"
    using toks_ok(1) [OF assms(1)] toks_spaced(1) [of "CObj kvs"] spaced_prefix [of ts "[TObjClose]"] unfolding ts by auto
  ultimately obtain vs ws where cut: "ts = vs @ ws" "us = vs \<or> (\<exists>w. us = vs @ [TWord w] \<and> ws \<noteq> [])"
    using lex_cut [OF _ _ _ us(1)] unfolding cut_tokens_def by blast
  from full obtain s where s: "pruns ([], MVal) vs = Some s" "pruns s (ws @ [TObjClose]) = Some ([], MDone (CObj kvs))"
    unfolding ts cut(1) by (auto simp: pruns_append split: option.splits)
  from cut(2) show False
  proof
    assume "us = vs"
    with us(2) s have "pruns (st, MDone v) (ws @ [TObjClose]) = Some ([], MDone (CObj kvs))" by simp
    then show False by (cases ws) auto
  next
    assume "\<exists>w. us = vs @ [TWord w] \<and> ws \<noteq> []"
    then obtain w where w: "us = vs @ [TWord w]" by blast
    with us(2) s(1) have step: "pstep s (TWord w) = Some (st, MDone v)"
      by (simp add: pruns_append split: option.splits)
    have "vs \<noteq> []"
    proof
      assume "vs = []"
      with w us(1) have "lex_json q = Some [TWord w]" by simp
      moreover have "q \<noteq> []" using calculation by (auto simp: lex_json.simps)
      then obtain q' where "q = CHR ''{'' # q'"
        using assms(3) by (cases q) (auto simp: strict_prefix_def print_json_def)
      ultimately show False by (auto simp: lex_json.simps [of "_ # _"] json_space_def punct_def)
    qed
    then have "busy s"
      using s(1) by (cases vs) (auto simp del: pstep.simps intro: pruns_busy [OF _ pstep_busy] split: option.splits)
    with step show False using word_not_done by blast
  qed
qed

end
