(* ===== verification/Float64.thy ===== *)
theory Float64
  imports Json
begin

text \<open>
  IEEE 754 doubles as \<^verbatim>\<open>encoding/json\<close> reads and writes them, for the numbers an
  untyped JSON value holds. A double is a sign and \<open>m * 2 ^ q\<close>; reading rounds to nearest,
  ties to even, and refuses an overflow; writing searches for the fewest digits that read back as
  the same double, in Go's choice of plain or exponent form. Everything is integer arithmetic.
\<close>

section \<open>Decimal digits\<close>

definition digit_char :: "nat \<Rightarrow> char" where
  "digit_char d = char_of (48 + d)"

fun dec_digits :: "nat \<Rightarrow> string" where
  "dec_digits n = (if n < 10 then [digit_char n] else dec_digits (n div 10) @ [digit_char (n mod 10)])"

declare dec_digits.simps [simp del]

definition digits_value :: "string \<Rightarrow> nat" where
  "digits_value ds = foldl (\<lambda>n c. 10 * n + (of_char c - 48)) 0 ds"

text \<open>A literal of the number grammar: sign, mantissa and decimal exponent.\<close>

definition literal_parts :: "string \<Rightarrow> bool \<times> nat \<times> int" where
  "literal_parts s =
     (let neg = (s \<noteq> [] \<and> hd s = CHR ''-'');
          t = (if neg then tl s else s);
          ds = takeWhile is_digit t;
          r = dropWhile is_digit t;
          fs = (if r \<noteq> [] \<and> hd r = CHR ''.'' then takeWhile is_digit (tl r) else []);
          x = (if r \<noteq> [] \<and> hd r = CHR ''.'' then dropWhile is_digit (tl r) else r);
          e = (case x of [] \<Rightarrow> 0
               | _ # u \<Rightarrow> (case u of [] \<Rightarrow> 0
                 | g # v \<Rightarrow> if g = CHR ''-'' then - int (digits_value v)
                            else if g = CHR ''+'' then int (digits_value v) else int (digits_value u)))
      in (neg, digits_value (ds @ fs), e - int (length fs)))"

section \<open>Rounding\<close>

fun bit_len :: "nat \<Rightarrow> nat" where
  "bit_len n = (if n = 0 then 0 else Suc (bit_len (n div 2)))"

declare bit_len.simps [simp del]

definition round_half_even :: "nat \<Rightarrow> nat \<Rightarrow> nat" where
  "round_half_even n d =
     (let k = n div d; r = n mod d in if 2 * r < d \<or> 2 * r = d \<and> even k then k else Suc k)"

text \<open>The quotient \<open>n / (d * b ^ e)\<close> as a fraction, for an exponent of either sign.\<close>

definition scale_down :: "nat \<Rightarrow> nat \<Rightarrow> nat \<Rightarrow> int \<Rightarrow> nat \<times> nat" where
  "scale_down b n d e = (if 0 \<le> e then (n, d * b ^ nat e) else (n * b ^ nat (- e), d))"

text \<open>\<open>n / d\<close> rounded to a double \<open>m * 2 ^ q\<close>; \<open>None\<close> is the overflow.\<close>

definition f64_round :: "nat \<Rightarrow> nat \<Rightarrow> (nat \<times> int) option" where
  "f64_round n d =
     (if n = 0 then Some (0, -1074)
      else
        let l = int (bit_len n) - int (bit_len d);
            (a, b) = scale_down 2 n d l;
            lg = (if a < b then l - 1 else l);
            q = max (-1074) (lg - 52);
            (u, v) = scale_down 2 n d q;
            m = round_half_even u v;
            (m, q) = (if m = 2 ^ 53 then (2 ^ 52, q + 1) else (m, q))
        in if q > 971 then None else Some (m, q))"

definition f64_parse :: "string \<Rightarrow> (bool \<times> nat \<times> int) option" where
  "f64_parse s =
     (let (neg, n, e) = literal_parts s;
          (a, b) = scale_down 10 n 1 (- e)
      in map_option (\<lambda>(m, q). (neg, m, q)) (f64_round a b))"

section \<open>The shortest text\<close>

text \<open>The double as a fraction.\<close>

definition f64_fraction :: "nat \<times> int \<Rightarrow> nat \<times> nat" where
  "f64_fraction v = (case v of (m, q) \<Rightarrow> scale_down 2 m 1 (- q))"

text \<open>The least \<open>k\<close> with \<open>n / d < 10 ^ k\<close>, searched upwards from a lower bound.\<close>

definition log10_below :: "nat \<Rightarrow> nat \<Rightarrow> int" where
  "log10_below n d = (int (bit_len n) - int (bit_len d) - 1) * 30103 div 100000 - 1"

fun dec_point :: "nat \<Rightarrow> nat \<Rightarrow> nat \<Rightarrow> int \<Rightarrow> int" where
  "dec_point 0 n d k = k"
| "dec_point (Suc fuel) n d k =
     (case scale_down 10 n d k of (a, b) \<Rightarrow> if a < b then k else dec_point fuel n d (k + 1))"

definition reads_as :: "nat \<Rightarrow> int \<Rightarrow> nat \<times> int \<Rightarrow> bool" where
  "reads_as D e v = (case scale_down 10 D 1 (- e) of (a, b) \<Rightarrow> f64_round a b = Some v)"

text \<open>
  With \<open>p\<close> digits: the double lies between \<open>lo\<close> and \<open>lo + 1\<close> units of
  \<open>10 ^ (k - p)\<close>; the nearer one that reads back is taken, else one more digit is tried.
\<close>

fun shortest :: "nat \<Rightarrow> nat \<Rightarrow> nat \<times> int \<Rightarrow> int \<Rightarrow> nat \<times> int" where
  "shortest 0 p v k = (0, 0)"
| "shortest (Suc fuel) p v k =
     (case f64_fraction v of (n, d) \<Rightarrow>
      case scale_down 10 n d (k - int p) of (a, b) \<Rightarrow>
        let lo = a div b; near = round_half_even a b;
            down = reads_as lo (k - int p) v; up = reads_as (Suc lo) (k - int p) v
        in if down \<and> up then (near, k - int p)
           else if down then (lo, k - int p)
           else if up then (Suc lo, k - int p)
           else shortest fuel (Suc p) v k)"

fun strip_zeros :: "nat \<Rightarrow> nat \<Rightarrow> int \<Rightarrow> nat \<times> int" where
  "strip_zeros 0 D e = (D, e)"
| "strip_zeros (Suc fuel) D e =
     (if D \<noteq> 0 \<and> D mod 10 = 0 then strip_zeros fuel (D div 10) (e + 1) else (D, e))"

definition f64_digits :: "nat \<times> int \<Rightarrow> string \<times> int" where
  "f64_digits v =
     (case f64_fraction v of (n, d) \<Rightarrow>
      case shortest 17 1 v (dec_point 6 n d (log10_below n d)) of (D, e) \<Rightarrow>
      case strip_zeros 20 D e of (D, e) \<Rightarrow>
        let ds = dec_digits D in (ds, e + int (length ds)))"

definition exp_text :: "int \<Rightarrow> string" where
  "exp_text x = (if x < 0 then CHR ''-'' # dec_digits (nat (- x)) else CHR ''+'' # dec_digits (nat x))"

text \<open>\<^verbatim>\<open>floatEncoder\<close>: plain form between 1e-6 and 1e21, exponent form outside.\<close>

definition f64_text :: "bool \<times> nat \<times> int \<Rightarrow> string" where
  "f64_text x =
     (case x of (neg, v) \<Rightarrow>
        (if neg then ''-'' else []) @
        (if fst v = 0 then ''0''
         else case f64_digits v of (ds, dp) \<Rightarrow>
           if -6 \<le> dp - 1 \<and> dp - 1 < 21 then
             (if dp \<le> 0 then ''0.'' @ replicate (nat (- dp)) CHR ''0'' @ ds
              else if dp \<ge> int (length ds) then ds @ replicate (nat dp - length ds) CHR ''0''
              else take (nat dp) ds @ ''.'' @ drop (nat dp) ds)
           else take 1 ds @ (if length ds > 1 then ''.'' @ drop 1 ds else []) @ ''e'' @ exp_text (dp - 1)))"

text \<open>The text a number literal has after one trip through a double.\<close>

definition float_canon :: "string \<Rightarrow> string option" where
  "float_canon s = (if is_number s then map_option f64_text (f64_parse s) else None)"

text \<open>
  \<^verbatim>\<open>int64(f)\<close>: truncation towards zero; what a double outside the range becomes is the
  implementation's choice, the argument \<open>oob\<close>.
\<close>

definition f64_trunc :: "bool \<times> nat \<times> int \<Rightarrow> int" where
  "f64_trunc x = (case x of (neg, v) \<Rightarrow>
     case f64_fraction v of (n, d) \<Rightarrow> (if neg then - int (n div d) else int (n div d)))"

definition f64_int64 :: "(bool \<times> nat \<times> int \<Rightarrow> int) \<Rightarrow> bool \<times> nat \<times> int \<Rightarrow> int" where
  "f64_int64 oob x = (let i = f64_trunc x in if is_int64 i then i else oob x)"

end
