(* ===== verification/Json_Value.thy ===== *)
theory Json_Value
  imports Float64
begin

text \<open>
  Untyped Go values (\<^verbatim>\<open>any\<close>) and their two conversions: \<open>enc_any\<close> is
  \<^verbatim>\<open>json.Marshal\<close>, \<open>dec_any\<close> is \<^verbatim>\<open>json.Unmarshal\<close> into an
  \<^verbatim>\<open>any\<close>. A Go map with string keys is a list of pairs in the order of its keys, which
  is the order in which it is printed; \<open>m_put\<close> and \<open>m_delete\<close> keep that order.
\<close>

section \<open>Maps with string keys\<close>

fun m_put :: "(string \<times> 'a) list \<Rightarrow> string \<Rightarrow> 'a \<Rightarrow> (string \<times> 'a) list" where
  "m_put [] k v = [(k, v)]"
| "m_put ((j, w) # m) k v =
     (if k < j then (k, v) # (j, w) # m else if k = j then (k, v) # m else (j, w) # m_put m k v)"

definition m_delete :: "(string \<times> 'a) list \<Rightarrow> string \<Rightarrow> (string \<times> 'a) list" where
  "m_delete m k = filter (\<lambda>(j, w). j \<noteq> k) m"

definition m_keys :: "(string \<times> 'a) list \<Rightarrow> string list" where
  "m_keys m = map fst m"

definition wf_map :: "(string \<times> 'a) list \<Rightarrow> bool" where
  "wf_map m \<longleftrightarrow> sorted (m_keys m) \<and> distinct (m_keys m)"

lemma m_keys_simps [simp]: "m_keys [] = []" "m_keys ((k, v) # m) = k # m_keys m"
  by (simp_all add: m_keys_def)

lemma wf_map_Nil [simp]: "wf_map []"
  by (simp add: wf_map_def)

lemma wf_map_Cons: "wf_map ((k, v) # m) \<longleftrightarrow> (\<forall>j \<in> set (m_keys m). k < j) \<and> wf_map m"
  by (auto simp: wf_map_def less_le)

lemma set_m_put: "set (m_keys (m_put m k v)) = insert k (set (m_keys m))"
  by (induction m k v rule: m_put.induct) auto

lemma m_put_lookup: "map_of (m_put m k v) = (map_of m)(k \<mapsto> v)"
  by (induction m k v rule: m_put.induct) (auto simp: fun_eq_iff)

lemma wf_m_put: "wf_map m \<Longrightarrow> wf_map (m_put m k v)"
  by (induction m k v rule: m_put.induct) (auto simp: wf_map_Cons set_m_put)

lemma m_put_last: "\<forall>j \<in> set (m_keys m). j < k \<Longrightarrow> m_put m k v = m @ [(k, v)]"
  by (induction m k v rule: m_put.induct) (auto simp: less_le_not_le)

lemma wf_m_delete: "wf_map m \<Longrightarrow> wf_map (m_delete m k)"
  by (induction m) (auto simp: m_delete_def wf_map_Cons m_keys_def)

lemma m_delete_lookup: "map_of (m_delete m k) = (map_of m)(k := None)"
  by (induction m) (auto simp: m_delete_def fun_eq_iff)

definition m_collect :: "(string \<times> 'a) list \<Rightarrow> (string \<times> 'a) list \<Rightarrow> (string \<times> 'a) list" where
  "m_collect m kvs = foldl (\<lambda>m (k, v). m_put m k v) m kvs"

lemma m_collect_simps [simp]: "m_collect m [] = m" "m_collect m ((k, v) # kvs) = m_collect (m_put m k v) kvs"
  by (simp_all add: m_collect_def)

lemma wf_m_collect: "wf_map m \<Longrightarrow> wf_map (m_collect m kvs)"
  by (induction kvs arbitrary: m) (auto simp: wf_m_put)

lemma m_collect_append: "wf_map (m @ kvs) \<Longrightarrow> m_collect m kvs = m @ kvs"
proof (induction kvs arbitrary: m)
  case Nil
  then show ?case by simp
next
  case (Cons x kvs)
  obtain k v where x: "x = (k, v)" by (cases x)
  have "\<forall>j \<in> set (m_keys m). j < k"
    using Cons.prems x by (auto simp: wf_map_def m_keys_def sorted_append less_le)
  then have "m_put m k v = m @ [(k, v)]" by (rule m_put_last)
  with Cons.IH [of "m @ [x]"] Cons.prems x show ?case by simp
qed

lemma m_collect_id: "wf_map kvs \<Longrightarrow> m_collect [] kvs = kvs"
  using m_collect_append [of "[]" kvs] by simp

section \<open>Untyped values\<close>

text \<open>
  \<open>GNum t\<close> is the double whose JSON text is \<open>t\<close>; \<open>GBad\<close> stands for a value
  \<^verbatim>\<open>json.Marshal\<close> refuses (a channel, a function, a NaN).
\<close>

datatype gval =
    GNull
  | GBool bool
  | GNum string
  | GStr bytes
  | GArr "gval list"
  | GObj "(string \<times> gval) list"
  | GBad

fun enc_any :: "gval \<Rightarrow> cst option"
  and enc_list :: "gval list \<Rightarrow> cst list option"
  and enc_members :: "(string \<times> gval) list \<Rightarrow> (string \<times> cst) list option" where
  "enc_any GNull = Some CNull"
| "enc_any (GBool b) = Some (CBool b)"
| "enc_any (GNum t) = Some (CNum t)"
| "enc_any (GStr s) = Some (CStr (enc_str s))"
| "enc_any (GArr vs) = map_option CArr (enc_list vs)"
| "enc_any (GObj kvs) = map_option CObj (enc_members kvs)"
| "enc_any GBad = None"
| "enc_list [] = Some []"
| "enc_list (v # vs) =
     (case enc_any v of None \<Rightarrow> None | Some c \<Rightarrow> map_option ((#) c) (enc_list vs))"
| "enc_members [] = Some []"
| "enc_members ((k, v) # kvs) =
     (case enc_any v of None \<Rightarrow> None | Some c \<Rightarrow> map_option ((#) (enc_str k, c)) (enc_members kvs))"

text \<open>Members in order; a repeated key keeps its last value. A number out of range is an error.\<close>

fun dec_any :: "cst \<Rightarrow> gval option"
  and dec_list :: "cst list \<Rightarrow> gval list option"
  and dec_members :: "(string \<times> gval) list \<Rightarrow> (string \<times> cst) list \<Rightarrow> (string \<times> gval) list option" where
  "dec_any CNull = Some GNull"
| "dec_any (CBool b) = Some (GBool b)"
| "dec_any (CNum w) = map_option GNum (float_canon w)"
| "dec_any (CStr raw) = Some (GStr (dec_str raw))"
| "dec_any (CArr vs) = map_option GArr (dec_list vs)"
| "dec_any (CObj kvs) = map_option GObj (dec_members [] kvs)"
| "dec_list [] = Some []"
| "dec_list (c # cs) =
     (case dec_any c of None \<Rightarrow> None | Some v \<Rightarrow> map_option ((#) v) (dec_list cs))"
| "dec_members m [] = Some m"
| "dec_members m ((raw, c) # kvs) =
     (case dec_any c of None \<Rightarrow> None | Some v \<Rightarrow> dec_members (m_put m (dec_str raw) v) kvs)"

text \<open>
  What a Go value of the type always satisfies: a number's text is that of a double, a map has
  each key once. \<open>text_gval\<close> adds that every string is valid UTF-8.
\<close>

fun wf_gval :: "gval \<Rightarrow> bool" where
  "wf_gval (GNum t) = (float_canon t = Some t)"
| "wf_gval (GArr vs) = list_all wf_gval vs"
| "wf_gval (GObj kvs) = (wf_map kvs \<and> list_all (\<lambda>(k, v). wf_gval v) kvs)"
| "wf_gval _ = True"

fun text_gval :: "gval \<Rightarrow> bool" where
  "text_gval (GStr s) = valid_utf8 s"
| "text_gval (GArr vs) = list_all text_gval vs"
| "text_gval (GObj kvs) = list_all (\<lambda>(k, v). valid_utf8 k \<and> text_gval v) kvs"
| "text_gval _ = True"

lemma float_canon_number: "float_canon t = Some u \<Longrightarrow> is_number t"
  by (simp add: float_canon_def split: if_splits)

lemma raw_ok_enc_str [simp]: "raw_ok (enc_str s)"
  by (rule lex_piece_raw_ok) (rule lex_piece_enc_str)

text \<open>What is printed is well-formed, and decodes without an error.\<close>

lemma enc_wf:
  "wf_gval v \<Longrightarrow> enc_any v = Some c \<Longrightarrow> wf_cst c"
  "list_all wf_gval vs \<Longrightarrow> enc_list vs = Some cs \<Longrightarrow> list_all wf_cst cs"
  "list_all (\<lambda>(k, v). wf_gval v) kvs \<Longrightarrow> enc_members kvs = Some ms \<Longrightarrow>
     list_all (\<lambda>(k, v). raw_ok k \<and> wf_cst v) ms"
  by (induction v and vs and kvs arbitrary: c and cs and ms rule: enc_any_enc_list_enc_members.induct)
    (auto simp: float_canon_number split: option.splits)

lemma enc_dec_ok:
  "wf_gval v \<Longrightarrow> enc_any v = Some c \<Longrightarrow> \<exists>w. dec_any c = Some w"
  "list_all wf_gval vs \<Longrightarrow> enc_list vs = Some cs \<Longrightarrow> \<exists>ws. dec_list cs = Some ws"
  "list_all (\<lambda>(k, v). wf_gval v) kvs \<Longrightarrow> enc_members kvs = Some ms \<Longrightarrow> \<exists>m'. dec_members m ms = Some m'"
  by (induction v and vs and kvs arbitrary: c and cs and ms m rule: enc_any_enc_list_enc_members.induct)
    (force split: option.splits)+

text \<open>Valid text decodes to the value that was printed.\<close>

lemma enc_dec_id:
  "wf_gval v \<Longrightarrow> text_gval v \<Longrightarrow> enc_any v = Some c \<Longrightarrow> dec_any c = Some v"
  "list_all wf_gval vs \<Longrightarrow> list_all text_gval vs \<Longrightarrow> enc_list vs = Some cs \<Longrightarrow> dec_list cs = Some vs"
  "list_all (\<lambda>(k, v). wf_gval v) kvs \<Longrightarrow> list_all (\<lambda>(k, v). valid_utf8 k \<and> text_gval v) kvs \<Longrightarrow>
     enc_members kvs = Some ms \<Longrightarrow> dec_members m ms = Some (m_collect m kvs)"
  by (induction v and vs and kvs arbitrary: c and cs and ms m rule: enc_any_enc_list_enc_members.induct)
    (auto simp: dec_enc_valid m_collect_id split: option.splits)

end
