(* ===== verification/Sha2.thy ===== *)
theory Sha2
  imports Text "HOL-Library.Word"
begin

unbundle bit_operations_syntax

text \<open>
  \<^verbatim>\<open>crypto/sha256\<close> and \<^verbatim>\<open>crypto/sha512\<close> (FIPS 180-4), which the
  event chain, the checkpoints and the JWS signatures hash with: the message schedule and the 64
  or 80 rounds on 32-bit and 64-bit words, as functions on byte strings.
\<close>

section \<open>Bytes and words\<close>

definition be_word :: "bytes \<Rightarrow> 'a::len word" where
  "be_word bs = foldl (\<lambda>w c. push_bit 8 w OR of_nat (of_char c)) 0 bs"

fun word_be :: "nat \<Rightarrow> 'a::len word \<Rightarrow> bytes" where
  "word_be 0 w = []"
| "word_be (Suc n) w = word_be n (drop_bit 8 w) @ [char_of (unat (w AND 255))]"

lemma length_word_be [simp]: "length (word_be n w) = n"
  by (induction n w rule: word_be.induct) auto

fun groups :: "nat \<Rightarrow> nat \<Rightarrow> bytes \<Rightarrow> bytes list" where
  "groups n 0 bs = []"
| "groups n (Suc k) bs = take n bs # groups n k (drop n bs)"

text \<open>Padding to a multiple of the block: a set bit, zeros, the bit length.\<close>

definition pad_block :: "nat \<Rightarrow> nat \<Rightarrow> bytes \<Rightarrow> bytes" where
  "pad_block block len_bytes bs =
     bs @ [CHR 0x80] @
     replicate ((2 * block - (length bs + 1 + len_bytes) mod block) mod block) (CHR 0x00) @
     word_be len_bytes (of_nat (8 * length bs) :: 128 word)"

section \<open>The compression functions\<close>

type_synonym 'a sha_state = "'a word list"

definition ch :: "'a::len word \<Rightarrow> 'a word \<Rightarrow> 'a word \<Rightarrow> 'a word" where
  "ch e f g = (e AND f) XOR (NOT e AND g)"

definition maj :: "'a::len word \<Rightarrow> 'a word \<Rightarrow> 'a word \<Rightarrow> 'a word" where
  "maj a b c = (a AND b) XOR (a AND c) XOR (b AND c)"

definition sigma3 :: "nat \<Rightarrow> nat \<Rightarrow> nat \<Rightarrow> 'a::len word \<Rightarrow> 'a word" where
  "sigma3 i j k w = word_rotr i w XOR word_rotr j w XOR word_rotr k w"

definition sigma_shift :: "nat \<Rightarrow> nat \<Rightarrow> nat \<Rightarrow> 'a::len word \<Rightarrow> 'a word" where
  "sigma_shift i j k w = word_rotr i w XOR word_rotr j w XOR drop_bit k w"

text \<open>The message schedule, its words newest first.\<close>

fun schedule :: "('a::len word \<Rightarrow> 'a word) \<Rightarrow> ('a word \<Rightarrow> 'a word) \<Rightarrow> nat \<Rightarrow> 'a word list \<Rightarrow> 'a word list" where
  "schedule s0 s1 0 ws = ws"
| "schedule s0 s1 (Suc n) ws =
     schedule s0 s1 n ((s1 (ws ! 1) + ws ! 6 + s0 (ws ! 14) + ws ! 15) # ws)"

fun sha_round :: "('a::len word \<Rightarrow> 'a word) \<Rightarrow> ('a word \<Rightarrow> 'a word) \<Rightarrow> 'a sha_state \<Rightarrow> 'a word \<times> 'a word \<Rightarrow> 'a sha_state" where
  "sha_round S0 S1 [a, b, c, d, e, f, g, h] (k, w) =
     (let t1 = h + S1 e + ch e f g + k + w; t2 = S0 a + maj a b c
      in [t1 + t2, a, b, c, d + t1, e, f, g])"
| "sha_round S0 S1 st kw = st"

definition sha_block ::
  "('a::len word \<Rightarrow> 'a word) \<Rightarrow> ('a word \<Rightarrow> 'a word) \<Rightarrow> ('a word \<Rightarrow> 'a word) \<Rightarrow> ('a word \<Rightarrow> 'a word) \<Rightarrow>
   'a word list \<Rightarrow> nat \<Rightarrow> 'a sha_state \<Rightarrow> bytes \<Rightarrow> 'a sha_state" where
  "sha_block s0 s1 S0 S1 ks wsz st blk =
     (let ws = rev (schedule s0 s1 (length ks - 16) (rev (map be_word (groups wsz 16 blk))))
      in map2 (+) st (foldl (sha_round S0 S1) st (zip ks ws)))"

section \<open>SHA-256\<close>

definition sha256_k :: "32 word list" where
  "sha256_k =
    [1116352408, 1899447441, 3049323471, 3921009573, 961987163, 1508970993,
     2453635748, 2870763221, 3624381080, 310598401, 607225278, 1426881987,
     1925078388, 2162078206, 2614888103, 3248222580, 3835390401, 4022224774,
     264347078, 604807628, 770255983, 1249150122, 1555081692, 1996064986,
     2554220882, 2821834349, 2952996808, 3210313671, 3336571891, 3584528711,
     113926993, 338241895, 666307205, 773529912, 1294757372, 1396182291,
     1695183700, 1986661051, 2177026350, 2456956037, 2730485921, 2820302411,
     3259730800, 3345764771, 3516065817, 3600352804, 4094571909, 275423344,
     430227734, 506948616, 659060556, 883997877, 958139571, 1322822218,
     1537002063, 1747873779, 1955562222, 2024104815, 2227730452, 2361852424,
     2428436474, 2756734187, 3204031479, 3329325298]"

definition sha256_init :: "32 sha_state" where
  "sha256_init =
    [1779033703, 3144134277, 1013904242, 2773480762, 1359893119, 2600822924,
     528734635, 1541459225]"

definition sha256 :: "bytes \<Rightarrow> bytes" where
  "sha256 bs =
     (let m = pad_block 64 8 bs;
          st = foldl (sha_block (sigma_shift 7 18 3) (sigma_shift 17 19 10) (sigma3 2 13 22) (sigma3 6 11 25)
                        sha256_k 4) sha256_init (groups 64 (length m div 64) m)
      in concat (map (word_be 4) st))"

section \<open>SHA-512 and SHA-384\<close>

definition sha512_k :: "64 word list" where
  "sha512_k =
    [4794697086780616226, 8158064640168781261, 13096744586834688815,
     16840607885511220156, 4131703408338449720, 6480981068601479193,
     10538285296894168987, 12329834152419229976, 15566598209576043074,
     1334009975649890238, 2608012711638119052, 6128411473006802146,
     8268148722764581231, 9286055187155687089, 11230858885718282805,
     13951009754708518548, 16472876342353939154, 17275323862435702243,
     1135362057144423861, 2597628984639134821, 3308224258029322869,
     5365058923640841347, 6679025012923562964, 8573033837759648693,
     10970295158949994411, 12119686244451234320, 12683024718118986047,
     13788192230050041572, 14330467153632333762, 15395433587784984357,
     489312712824947311, 1452737877330783856, 2861767655752347644,
     3322285676063803686, 5560940570517711597, 5996557281743188959,
     7280758554555802590, 8532644243296465576, 9350256976987008742,
     10552545826968843579, 11727347734174303076, 12113106623233404929,
     14000437183269869457, 14369950271660146224, 15101387698204529176,
     15463397548674623760, 17586052441742319658, 1182934255886127544,
     1847814050463011016, 2177327727835720531, 2830643537854262169,
     3796741975233480872, 4115178125766777443, 5681478168544905931,
     6601373596472566643, 7507060721942968483, 8399075790359081724,
     8693463985226723168, 9568029438360202098, 10144078919501101548,
     10430055236837252648, 11840083180663258601, 13761210420658862357,
     14299343276471374635, 14566680578165727644, 15097957966210449927,
     16922976911328602910, 17689382322260857208, 500013540394364858,
     748580250866718886, 1242879168328830382, 1977374033974150939,
     2944078676154940804, 3659926193048069267, 4368137639120453308,
     4836135668995329356, 5532061633213252278, 6448918945643986474,
     6902733635092675308, 7801388544844847127]"

definition sha512_init :: "64 sha_state" where
  "sha512_init =
    [7640891576956012808, 13503953896175478587, 4354685564936845355,
     11912009170470909681, 5840696475078001361, 11170449401992604703,
     2270897969802886507, 6620516959819538809]"

definition sha384_init :: "64 sha_state" where
  "sha384_init =
    [14680500436340154072, 7105036623409894663, 10473403895298186519,
     1526699215303891257, 7436329637833083697, 10282925794625328401,
     15784041429090275239, 5167115440072839076]"

definition sha512_from :: "64 sha_state \<Rightarrow> bytes \<Rightarrow> bytes" where
  "sha512_from start bs =
     (let m = pad_block 128 16 bs;
          st = foldl (sha_block (sigma_shift 1 8 7) (sigma_shift 19 61 6) (sigma3 28 34 39) (sigma3 14 18 41)
                        sha512_k 8) start (groups 128 (length m div 128) m)
      in concat (map (word_be 8) st))"

definition sha512 :: "bytes \<Rightarrow> bytes" where
  "sha512 bs = sha512_from sha512_init bs"

definition sha384 :: "bytes \<Rightarrow> bytes" where
  "sha384 bs = take 48 (sha512_from sha384_init bs)"

section \<open>Digest lengths\<close>

lemma length_sha_round: "length st = 8 \<Longrightarrow> length (sha_round S0 S1 st kw) = 8"
  by (cases "(S0, S1, st, kw)" rule: sha_round.cases) (auto simp: Let_def)

lemma length_sha_rounds: "length st = 8 \<Longrightarrow> length (foldl (sha_round S0 S1) st kws) = 8"
  by (induction kws arbitrary: st) (auto simp: length_sha_round)

lemma length_sha_blocks:
  "length st = 8 \<Longrightarrow> length (foldl (sha_block s0 s1 S0 S1 ks n) st bs) = 8"
  by (induction bs arbitrary: st) (auto simp: sha_block_def Let_def length_sha_rounds)

lemma length_words: "length (concat (map (word_be n) ws)) = n * length ws"
  by (induction ws) auto

lemma length_sha256 [simp]: "length (sha256 bs) = 32"
  by (simp add: sha256_def Let_def length_words length_sha_blocks sha256_init_def)

lemma length_sha512 [simp]: "length (sha512 bs) = 64"
  by (simp add: sha512_def sha512_from_def Let_def length_words length_sha_blocks sha512_init_def)

lemma length_sha384 [simp]: "length (sha384 bs) = 48"
  by (simp add: sha384_def sha512_from_def Let_def length_words length_sha_blocks sha384_init_def)

end
