(* ===== verification/Lines.thy ===== *)
theory Lines
  imports Text
begin

text \<open>
  Lines of a stream as the module reads them: \<^verbatim>\<open>bufio.Scanner\<close> with its token
  cap, and \<^verbatim>\<open>bytes.TrimSpace\<close> with Unicode's white space. A scanner's tokens are
  the pieces between line feeds, a final piece without one included, each with one trailing
  carriage return dropped; a piece that fills the buffer ends the scan with
  \<^verbatim>\<open>ErrTooLong\<close>.
\<close>

abbreviation LF :: char where "LF \<equiv> CHR 0x0A"
abbreviation CR :: char where "CR \<equiv> CHR 0x0D"

section \<open>Pieces and tokens\<close>

fun pieces :: "bytes \<Rightarrow> bytes list" where
  "pieces [] = []"
| "pieces (c # cs) =
     (if c = LF then [] # pieces cs
      else case pieces cs of
          [] \<Rightarrow> [[c]]
        | p # ps \<Rightarrow> (c # p) # ps)"

definition drop_cr :: "bytes \<Rightarrow> bytes" where
  "drop_cr p = (if p \<noteq> [] \<and> last p = CR then butlast p else p)"

fun cap_tokens :: "nat \<Rightarrow> bytes list \<Rightarrow> bytes list \<times> bool" where
  "cap_tokens cap [] = ([], False)"
| "cap_tokens cap (p # ps) =
     (if length p \<ge> cap then ([], True)
      else case cap_tokens cap ps of (ts, long) \<Rightarrow> (drop_cr p # ts, long))"

text \<open>The tokens of a whole stream, and whether the scan ended on a line that was too long.\<close>

definition scan_tokens :: "nat \<Rightarrow> bytes \<Rightarrow> bytes list \<times> bool" where
  "scan_tokens cap f = cap_tokens cap (pieces f)"

definition ends_line :: "bytes \<Rightarrow> bool" where
  "ends_line f \<longleftrightarrow> f = [] \<or> last f = LF"

lemma pieces_line: "LF \<notin> set p \<Longrightarrow> pieces (p @ LF # r) = p # pieces r"
proof (induction p)
  case (Cons c p)
  then show ?case by (cases p) auto
qed simp

lemma pieces_last: "LF \<notin> set p \<Longrightarrow> p \<noteq> [] \<Longrightarrow> pieces p = [p]"
proof (induction p)
  case (Cons c p)
  then show ?case by (cases p) auto
qed simp

lemma split_line:
  obtains "LF \<notin> set f" | p r where "f = p @ LF # r" "LF \<notin> set p"
proof (cases "LF \<in> set f")
  case True
  then obtain p r where "f = p @ LF # r" "LF \<notin> set p" by (auto dest: split_list_first)
  then show ?thesis by (rule that(2))
qed (rule that(1))

lemma pieces_no_LF: "p \<in> set (pieces f) \<Longrightarrow> LF \<notin> set p"
proof (induction f arbitrary: p rule: measure_induct_rule [of length])
  case (less f)
  show ?case
  proof (cases f rule: split_line)
    case 1
    with less.prems show ?thesis by (cases "f = []") (auto simp: pieces_last)
  next
    case (2 q r)
    then have "length r < length f" by simp
    from less.IH [OF this] less.prems 2 show ?thesis by (auto simp: pieces_line)
  qed
qed

lemma pieces_append: "ends_line f \<Longrightarrow> pieces (f @ g) = pieces f @ pieces g"
proof (induction f rule: measure_induct_rule [of length])
  case (less f)
  show ?case
  proof (cases f rule: split_line)
    case 1
    have "f = []"
    proof (rule ccontr)
      assume "f \<noteq> []"
      with less.prems have "LF \<in> set f" by (metis ends_line_def last_in_set)
      with 1 show False by simp
    qed
    then show ?thesis by simp
  next
    case (2 p r)
    then have "length r < length f" "ends_line r"
      using less.prems by (auto simp: ends_line_def split: if_splits)
    from less.IH [OF this] 2 show ?thesis by (simp add: pieces_line)
  qed
qed

lemma pieces_close: "\<not> ends_line f \<Longrightarrow> pieces (f @ LF # g) = pieces f @ pieces g"
proof (induction f rule: measure_induct_rule [of length])
  case (less f)
  show ?case
  proof (cases f rule: split_line)
    case 1
    with less.prems show ?thesis by (simp add: pieces_line pieces_last ends_line_def)
  next
    case (2 p r)
    then have "length r < length f" "\<not> ends_line r"
      using less.prems by (auto simp: ends_line_def split: if_splits)
    from less.IH [OF this] 2 show ?thesis by (simp add: pieces_line)
  qed
qed

lemma cap_tokens_append:
  "cap_tokens cap (ps @ qs) =
     (case cap_tokens cap ps of (ts, long) \<Rightarrow>
        if long then (ts, long) else case cap_tokens cap qs of (us, long') \<Rightarrow> (ts @ us, long'))"
  by (induction ps) (auto split: prod.splits)

lemma cap_tokens_short: "snd (cap_tokens cap ps) = False \<Longrightarrow> fst (cap_tokens cap ps) = map drop_cr ps"
  by (induction ps) (auto split: prod.splits if_splits)

section \<open>White space\<close>

text \<open>The UTF-8 encodings of the runes \<^verbatim>\<open>unicode.IsSpace\<close> accepts.\<close>

definition spaces :: "bytes list" where
  "spaces =
     [[CHR 0x09], [CHR 0x0A], [CHR 0x0B], [CHR 0x0C], [CHR 0x0D], [CHR 0x20],
      [CHR 0xC2, CHR 0x85], [CHR 0xC2, CHR 0xA0], [CHR 0xE1, CHR 0x9A, CHR 0x80],
      [CHR 0xE2, CHR 0x80, CHR 0x80], [CHR 0xE2, CHR 0x80, CHR 0x81], [CHR 0xE2, CHR 0x80, CHR 0x82],
      [CHR 0xE2, CHR 0x80, CHR 0x83], [CHR 0xE2, CHR 0x80, CHR 0x84], [CHR 0xE2, CHR 0x80, CHR 0x85],
      [CHR 0xE2, CHR 0x80, CHR 0x86], [CHR 0xE2, CHR 0x80, CHR 0x87], [CHR 0xE2, CHR 0x80, CHR 0x88],
      [CHR 0xE2, CHR 0x80, CHR 0x89], [CHR 0xE2, CHR 0x80, CHR 0x8A], [CHR 0xE2, CHR 0x80, CHR 0xA8],
      [CHR 0xE2, CHR 0x80, CHR 0xA9], [CHR 0xE2, CHR 0x80, CHR 0xAF], [CHR 0xE2, CHR 0x81, CHR 0x9F],
      [CHR 0xE3, CHR 0x80, CHR 0x80]]"

text \<open>Strip the encodings of a list from the front while one of them is there.\<close>

definition code_at :: "bytes list \<Rightarrow> bytes \<Rightarrow> bytes option" where
  "code_at ws s = find (\<lambda>w. w \<noteq> [] \<and> prefix w s) ws"

lemma code_at_Some: "code_at ws s = Some w \<Longrightarrow> w \<in> set ws \<and> w \<noteq> [] \<and> prefix w s"
  by (auto simp: code_at_def find_Some_iff)

function strip_codes :: "bytes list \<Rightarrow> bytes \<Rightarrow> bytes" where
  "strip_codes ws s = (case code_at ws s of None \<Rightarrow> s | Some w \<Rightarrow> strip_codes ws (drop (length w) s))"
  by pat_completeness auto
termination
  by (relation "measure (length \<circ> snd)") (auto dest!: code_at_Some simp: prefix_def)

declare strip_codes.simps [simp del]

definition trim_left :: "bytes \<Rightarrow> bytes" where
  "trim_left s = strip_codes spaces s"

definition trim_right :: "bytes \<Rightarrow> bytes" where
  "trim_right s = rev (strip_codes (map rev spaces) (rev s))"

definition TrimSpace :: "bytes \<Rightarrow> bytes" where
  "TrimSpace s = trim_right (trim_left s)"

text \<open>Runs of white space.\<close>

definition blank :: "bytes \<Rightarrow> bool" where
  "blank s \<longleftrightarrow> (\<exists>ws. set ws \<subseteq> set spaces \<and> s = concat ws)"

lemma strip_codes_split:
  "\<exists>us. set us \<subseteq> set ws \<and> s = concat us @ strip_codes ws s \<and> code_at ws (strip_codes ws s) = None"
proof (induction ws s rule: strip_codes.induct)
  case (1 ws s)
  show ?case
  proof (cases "code_at ws s")
    case None
    then show ?thesis by (intro exI [of _ "[]"]) (simp add: strip_codes.simps [of ws s])
  next
    case (Some w)
    from "1.IH" [OF Some] obtain us where us: "set us \<subseteq> set ws"
      "drop (length w) s = concat us @ strip_codes ws (drop (length w) s)"
      "code_at ws (strip_codes ws (drop (length w) s)) = None" by blast
    from code_at_Some [OF Some] have w: "w \<in> set ws" "s = w @ drop (length w) s"
      by (auto simp: prefix_def)
    with us Some show ?thesis
      by (intro exI [of _ "w # us"]) (simp add: strip_codes.simps [of ws s])
  qed
qed

text \<open>No encoding starts, or ends, another: a run of them is stripped one at a time.\<close>

definition prefix_free :: "bytes list \<Rightarrow> bool" where
  "prefix_free ws \<longleftrightarrow> list_all (\<lambda>w. w \<noteq> [] \<and> list_all (\<lambda>v. prefix w v \<longrightarrow> w = v) ws) ws"

lemma spaces_prefix_free: "prefix_free spaces" "prefix_free (map rev spaces)"
  by (simp_all add: prefix_free_def spaces_def)

lemma code_at_free:
  assumes "prefix_free ws" "w \<in> set ws"
  shows "code_at ws (w @ s) = Some w"
proof -
  have w: "w \<noteq> []" "\<And>u v. u \<in> set ws \<Longrightarrow> v \<in> set ws \<Longrightarrow> prefix u v \<Longrightarrow> u = v"
    using assms by (auto simp: prefix_free_def list_all_iff)
  have "code_at ws (w @ s) \<noteq> None"
    using assms(2) w(1) by (auto simp: code_at_def find_None_iff)
  then obtain v where v: "code_at ws (w @ s) = Some v" by blast
  from code_at_Some [OF v] have "v \<in> set ws" "prefix v (w @ s)" by auto
  then have "prefix v w \<or> prefix w v" by (metis prefix_same_cases prefixI)
  with w(2) assms(2) \<open>v \<in> set ws\<close> have "v = w" by blast
  with v show ?thesis by simp
qed

lemma strip_codes_concat:
  "prefix_free ws \<Longrightarrow> set us \<subseteq> set ws \<Longrightarrow> strip_codes ws (concat us @ s) = strip_codes ws s"
  by (induction us) (simp_all add: strip_codes.simps [of ws "_ @ _"] code_at_free)

lemma rev_concat_codes: "rev (concat us) = concat (rev (map rev us))"
  by (induction us) auto

lemma trim_left_blank: "blank w \<Longrightarrow> trim_left (w @ s) = trim_left s"
  by (auto simp: blank_def trim_left_def strip_codes_concat spaces_prefix_free)

lemma trim_right_blank: "blank w \<Longrightarrow> trim_right (s @ w) = trim_right s"
proof -
  assume "blank w"
  then obtain ws where ws: "set ws \<subseteq> set spaces" "w = concat ws" by (auto simp: blank_def)
  then have "set (rev (map rev ws)) \<subseteq> set (map rev spaces)" by auto
  from strip_codes_concat [OF spaces_prefix_free(2) this] ws(2) show ?thesis
    by (simp add: trim_right_def rev_concat_codes)
qed

lemma trim_left_split: obtains w where "blank w" "s = w @ trim_left s"
  using strip_codes_split [of spaces s] that by (auto simp: blank_def trim_left_def)

lemma trim_right_split: obtains w where "blank w" "s = trim_right s @ w"
proof -
  obtain us where us: "set us \<subseteq> set (map rev spaces)" "rev s = concat us @ strip_codes (map rev spaces) (rev s)"
    using strip_codes_split [of "map rev spaces" "rev s"] by blast
  then have "s = trim_right s @ rev (concat us)"
    unfolding trim_right_def by (metis rev_append rev_rev_ident)
  moreover have "blank (rev (concat us))"
    unfolding blank_def rev_concat_codes
    by (intro exI [of _ "rev (map rev us)"]) (use us(1) in auto)
  ultimately show ?thesis by (rule that [rotated])
qed

lemma blank_Nil [simp]: "blank []"
  by (simp add: blank_def exI [of _ "[]"])

lemma strip_codes_Nil: "strip_codes ws [] = []"
proof -
  have "code_at ws [] = None" by (auto simp: code_at_def find_None_iff)
  then show ?thesis by (simp add: strip_codes.simps)
qed

lemma trim_left_Nil [simp]: "trim_left [] = []"
  by (simp add: trim_left_def strip_codes_Nil)

lemma trim_right_Nil [simp]: "trim_right [] = []"
  by (simp add: trim_right_def strip_codes_Nil)

lemma blank_trim: "blank s \<Longrightarrow> TrimSpace s = []"
  using trim_left_blank [of s "[]"] by (simp add: TrimSpace_def)

lemma code_at_None: "code_at ws s = None \<longleftrightarrow> (\<forall>w \<in> set ws. w = [] \<or> \<not> prefix w s)"
  by (auto simp: code_at_def find_None_iff)

text \<open>No encoding continues across the start of another one.\<close>

lemma spaces_heads:
  "u \<in> set spaces \<Longrightarrow> v \<in> set spaces \<Longrightarrow> u = r @ x \<Longrightarrow> r \<noteq> [] \<Longrightarrow> x \<noteq> [] \<Longrightarrow> hd x \<noteq> hd v"
proof -
  have *: "list_all (\<lambda>u. list_all (\<lambda>c. list_all (\<lambda>v. c \<noteq> hd v) spaces) (tl u)) spaces"
    by (simp add: spaces_def)
  assume a: "u \<in> set spaces" "v \<in> set spaces" "u = r @ x" "r \<noteq> []" "x \<noteq> []"
  then have "hd x \<in> set (tl u)" by (cases r) auto
  with * a show "hd x \<noteq> hd v" by (auto simp: list_all_iff)
qed

lemma blank_Cons: "blank w \<Longrightarrow> w \<noteq> [] \<Longrightarrow> \<exists>v w'. v \<in> set spaces \<and> w = v @ w' \<and> blank w'"
proof -
  assume "blank w" "w \<noteq> []"
  then obtain ws where ws: "set ws \<subseteq> set spaces" "w = concat ws" by (auto simp: blank_def)
  with \<open>w \<noteq> []\<close> obtain v ws' where "ws = v # ws'" by (cases ws) auto
  with ws show ?thesis by (intro exI [of _ v] exI [of _ "concat ws'"]) (auto simp: blank_def)
qed

lemma space_nonempty: "v \<in> set spaces \<Longrightarrow> v \<noteq> []"
  by (auto simp: spaces_def)

lemma code_at_blank_suffix:
  assumes "code_at spaces r = None" "r \<noteq> []" "blank w"
  shows "code_at spaces (r @ w) = None"
proof (cases "w = []")
  case False
  with assms(3) obtain v w' where v: "v \<in> set spaces" "w = v @ w'" using blank_Cons by blast
  show ?thesis unfolding code_at_None
  proof (intro ballI disjI2 notI)
    fix u assume u: "u \<in> set spaces" "prefix u (r @ w)"
    then have "\<not> prefix u r" using assms(1) space_nonempty by (auto simp: code_at_None)
    with u(2) obtain x where x: "u = r @ x" "prefix x w" by (auto simp: prefix_append)
    with \<open>\<not> prefix u r\<close> have "x \<noteq> []" by auto
    with x v have "hd x = hd v" using space_nonempty [OF v(1)] by (cases x; cases v) auto
    with spaces_heads [OF u(1) v(1) x(1) assms(2)] \<open>x \<noteq> []\<close> show False by blast
  qed
qed (use assms in simp)

lemma blank_append: "blank u \<Longrightarrow> blank w \<Longrightarrow> blank (u @ w)"
  unfolding blank_def by (metis concat_append le_sup_iff set_append)

lemma trim_left_nonblank:
  assumes "trim_left q \<noteq> []" "blank w"
  shows "trim_left (q @ w) = trim_left q @ w"
proof -
  obtain u where u: "blank u" "q = u @ trim_left q" by (rule trim_left_split)
  have none: "code_at spaces (trim_left q) = None"
    using strip_codes_split [of spaces q] by (auto simp: trim_left_def)
  have "trim_left (q @ w) = trim_left (u @ trim_left q @ w)" using u(2) by (metis append.assoc)
  also have "\<dots> = trim_left (trim_left q @ w)" by (rule trim_left_blank [OF u(1)])
  also have "\<dots> = trim_left q @ w"
    using code_at_blank_suffix [OF none assms] by (simp add: trim_left_def [of "_ @ _"] strip_codes.simps)
  finally show ?thesis .
qed

lemma TrimSpace_blank_suffix: "blank w \<Longrightarrow> TrimSpace (q @ w) = TrimSpace q"
proof (cases "trim_left q = []")
  case True
  assume w: "blank w"
  obtain u where "blank u" "q = u @ trim_left q" by (rule trim_left_split)
  with True w have "blank q" "blank (q @ w)" by (auto intro: blank_append)
  then show ?thesis by (simp add: blank_trim)
next
  case False
  assume "blank w"
  with False show ?thesis by (simp add: TrimSpace_def trim_left_nonblank trim_right_blank)
qed

lemma blank_single: "v \<in> set spaces \<Longrightarrow> blank v"
  unfolding blank_def by (rule exI [of _ "[v]"]) simp

lemma TrimSpace_drop_cr [simp]: "TrimSpace (drop_cr p) = TrimSpace p"
proof (cases "p \<noteq> [] \<and> last p = CR")
  case True
  then have p: "p = butlast p @ [CR]" by (metis append_butlast_last_id)
  have "blank [CR]" by (rule blank_single) (simp add: spaces_def)
  from TrimSpace_blank_suffix [OF this, of "butlast p"] p True show ?thesis by (simp add: drop_cr_def)
qed (auto simp: drop_cr_def)

lemma TrimSpace_empty_blank: "TrimSpace s = [] \<Longrightarrow> blank s"
proof -
  assume s: "TrimSpace s = []"
  obtain u where u: "blank u" "s = u @ trim_left s" by (rule trim_left_split)
  obtain w where "blank w" "trim_left s = trim_right (trim_left s) @ w" by (rule trim_right_split)
  with s have "blank (trim_left s)" by (simp add: TrimSpace_def)
  with u show ?thesis by (metis blank_append)
qed

section \<open>The lines that are not blank\<close>

definition text_lines :: "bytes \<Rightarrow> bytes list" where
  "text_lines f = filter (\<lambda>l. l \<noteq> []) (map TrimSpace (pieces f))"

lemma text_lines_append: "ends_line f \<Longrightarrow> text_lines (f @ g) = text_lines f @ text_lines g"
  by (simp add: text_lines_def pieces_append)

lemma LF_code: "v \<in> set spaces \<Longrightarrow> LF \<in> set v \<Longrightarrow> v = [LF]"
  by (auto simp: spaces_def)

text \<open>A text without a line feed, followed by white space of any kind: one line, or none.\<close>

lemma text_lines_blank_suffix:
  assumes "LF \<notin> set b" "blank w"
  shows "text_lines (b @ w) = (if TrimSpace b = [] then [] else [TrimSpace b])"
proof -
  from assms(2) obtain ws where ws: "set ws \<subseteq> set spaces" "w = concat ws" by (auto simp: blank_def)
  have "text_lines (b @ concat ws) = (if TrimSpace b = [] then [] else [TrimSpace b])"
    using assms(1) ws(1)
  proof (induction ws arbitrary: b)
    case Nil
    then show ?case by (cases "b = []") (auto simp: text_lines_def pieces_last TrimSpace_def)
  next
    case (Cons v ws)
    show ?case
    proof (cases "LF \<in> set v")
      case True
      with Cons.prems have v: "v = [LF]" by (simp add: LF_code)
      have "text_lines (b @ concat (v # ws)) =
          (if TrimSpace b = [] then [] else [TrimSpace b]) @ text_lines (concat ws)"
        using Cons.prems v by (simp add: text_lines_def pieces_line)
      also have "text_lines (concat ws) = []"
        using Cons.IH [of "[]"] Cons.prems by (simp add: TrimSpace_def)
      finally show ?thesis by simp
    next
      case False
      have "blank v" using Cons.prems by (simp add: blank_single)
      with Cons.IH [of "b @ v"] Cons.prems False show ?thesis by (simp add: TrimSpace_blank_suffix)
    qed
  qed
  with ws(2) show ?thesis by simp
qed

end
