(* ===== verification/Event.thy ===== *)
theory Event
  imports Json_Value Lines
begin

text \<open>
  Package \<^verbatim>\<open>event\<close> (event/event.go): the agent-event envelope, \<^verbatim>\<open>Marshal\<close>
  and \<^verbatim>\<open>Unmarshal\<close> through \<^verbatim>\<open>encoding/json\<close> (field order and
  \<^verbatim>\<open>omitempty\<close> one way; exact and then case-folded field names, repeated members, null
  and mismatched types the other), and the tolerant reader \<^verbatim>\<open>Scan\<close>.
\<close>

section \<open>Data\<close>

definition SchemaV01 :: string where "SchemaV01 = ''taipanbox.dev/agent-event/v0.1''"
definition SchemaV02 :: string where "SchemaV02 = ''taipanbox.dev/agent-event/v0.2''"
definition SchemaV03 :: string where "SchemaV03 = ''taipanbox.dev/agent-event/v0.3''"
definition SchemaV10 :: string where "SchemaV10 = ''taipanbox.dev/agent-event/v1.0''"

datatype event_error =
    ErrInvalidJSON | ErrMissingSchema | ErrMissingTS | ErrMissingSource | ErrMissingType | ErrMissingAgentID
  | ErrMarshal | ErrCanonicalize | ErrLock | ErrUnlock | ErrWrite | ErrReadTail
  | ErrOpen | ErrTooLong | ErrRead | ErrCallback

text \<open>The envelope. A nil and an empty slice or map print alike, so they are one value here.\<close>

record Event =
  ev_Schema :: bytes
  ev_TS :: bytes
  ev_Source :: bytes
  ev_Type :: bytes
  ev_AgentID :: bytes
  ev_Severity :: bytes
  ev_RunID :: bytes
  ev_OnBehalfOf :: "bytes list"
  ev_Data :: "(string \<times> gval) list"
  ev_PrevHash :: bytes

definition zero_event :: Event where
  "zero_event = \<lparr>ev_Schema = [], ev_TS = [], ev_Source = [], ev_Type = [], ev_AgentID = [],
     ev_Severity = [], ev_RunID = [], ev_OnBehalfOf = [], ev_Data = [], ev_PrevHash = []\<rparr>"

text \<open>What every Go value of the type satisfies: its data is a map of encodable-typed values.\<close>

definition wf_event :: "Event \<Rightarrow> bool" where
  "wf_event e \<longleftrightarrow> wf_gval (GObj (ev_Data e))"

section \<open>Marshal\<close>

definition str_member :: "string \<Rightarrow> bytes \<Rightarrow> string \<times> cst" where
  "str_member name s = (name, CStr (enc_str s))"

definition omit_empty :: "string \<Rightarrow> bytes \<Rightarrow> (string \<times> cst) list" where
  "omit_empty name s = (if s = [] then [] else [str_member name s])"

definition event_members :: "Event \<Rightarrow> (string \<times> cst) list \<Rightarrow> (string \<times> cst) list" where
  "event_members e data =
     [str_member ''schema'' (ev_Schema e), str_member ''ts'' (ev_TS e), str_member ''source'' (ev_Source e),
      str_member ''type'' (ev_Type e), str_member ''agent_id'' (ev_AgentID e)] @
     omit_empty ''severity'' (ev_Severity e) @
     omit_empty ''run_id'' (ev_RunID e) @
     (if ev_OnBehalfOf e = [] then []
      else [(''on_behalf_of'', CArr (map (\<lambda>s. CStr (enc_str s)) (ev_OnBehalfOf e)))]) @
     (if ev_Data e = [] then [] else [(''data'', CObj data)]) @
     omit_empty ''prev_hash'' (ev_PrevHash e)"

definition event_doc :: "Event \<Rightarrow> cst option" where
  "event_doc e = map_option (\<lambda>data. CObj (event_members e data)) (enc_members (ev_Data e))"

definition Marshal :: "Event \<Rightarrow> event_error + bytes" where
  "Marshal e = (case event_doc e of None \<Rightarrow> Inl ErrMarshal | Some c \<Rightarrow> Inr (print_json c))"

section \<open>Unmarshal\<close>

definition upper :: "char \<Rightarrow> char" where
  "upper c = (let n = (of_char c :: nat) in if 97 \<le> n \<and> n \<le> 122 then char_of (n - 32) else c)"

text \<open>
  \<^verbatim>\<open>foldName\<close>: the least rune of each rune's case orbit. Only the long s and the Kelvin
  sign have an ASCII letter in theirs, so every other multi-byte rune is kept, and no field name
  has one.
\<close>

fun fold_name :: "bytes \<Rightarrow> bytes" where
  "fold_name (c # d # cs) =
     (if c = CHR 0xC5 \<and> d = CHR 0xBF then CHR ''S'' # fold_name cs
      else if c = CHR 0xE2 \<and> d = CHR 0x84 \<and> take 1 cs = [CHR 0xAA] then CHR ''K'' # fold_name (drop 1 cs)
      else upper c # fold_name (d # cs))"
| "fold_name [c] = [upper c]"
| "fold_name [] = []"

text \<open>The field a member's key names: the exact name first, then the first one equal after folding.\<close>

definition field_for :: "string list \<Rightarrow> bytes \<Rightarrow> string option" where
  "field_for names key =
     (if key \<in> set names then Some key
      else find (\<lambda>n. fold_name n = fold_name key) names)"

definition event_fields :: "string list" where
  "event_fields = [''schema'', ''ts'', ''source'', ''type'', ''agent_id'', ''severity'', ''run_id'',
     ''on_behalf_of'', ''data'', ''prev_hash'']"

text \<open>A string field: null leaves it, another type is an error.\<close>

definition set_string :: "cst \<Rightarrow> bytes \<Rightarrow> bytes option" where
  "set_string c old = (case c of CStr raw \<Rightarrow> Some (dec_str raw) | CNull \<Rightarrow> Some old | _ \<Rightarrow> None)"

text \<open>
  A \<^verbatim>\<open>[]string\<close> field is decoded into the backing array it already has: a null
  element keeps what its slot holds, so a repeated member can uncover an earlier one's entry. The
  result is the array and the visible length.
\<close>

fun fill_strings :: "bytes list \<Rightarrow> nat \<Rightarrow> cst list \<Rightarrow> bytes list option" where
  "fill_strings slots i [] = Some slots"
| "fill_strings slots i (c # cs) =
     (case set_string c (if i < length slots then slots ! i else []) of
        None \<Rightarrow> None
      | Some s \<Rightarrow> fill_strings (if i < length slots then slots[i := s] else slots @ [s]) (Suc i) cs)"

definition set_strings :: "cst \<Rightarrow> bytes list \<Rightarrow> (bytes list \<times> nat) option" where
  "set_strings c slots =
     (case c of
        CNull \<Rightarrow> Some ([], 0)
      | CArr cs \<Rightarrow> if cs = [] then Some ([], 0) else map_option (\<lambda>b. (b, length cs)) (fill_strings slots 0 cs)
      | _ \<Rightarrow> None)"

text \<open>A map field: members are added to the map already there, null clears it.\<close>

definition set_data :: "cst \<Rightarrow> (string \<times> gval) list \<Rightarrow> (string \<times> gval) list option" where
  "set_data c old =
     (case c of CNull \<Rightarrow> Some [] | CObj kvs \<Rightarrow> dec_members old kvs | _ \<Rightarrow> None)"

text \<open>One member into the event; the backing array of the string slice rides along.\<close>

definition dec_field :: "string \<Rightarrow> cst \<Rightarrow> Event \<times> bytes list \<Rightarrow> (Event \<times> bytes list) option" where
  "dec_field n c st =
     (case st of (e, slots) \<Rightarrow>
        if n = ''schema'' then map_option (\<lambda>s. (e\<lparr>ev_Schema := s\<rparr>, slots)) (set_string c (ev_Schema e))
        else if n = ''ts'' then map_option (\<lambda>s. (e\<lparr>ev_TS := s\<rparr>, slots)) (set_string c (ev_TS e))
        else if n = ''source'' then map_option (\<lambda>s. (e\<lparr>ev_Source := s\<rparr>, slots)) (set_string c (ev_Source e))
        else if n = ''type'' then map_option (\<lambda>s. (e\<lparr>ev_Type := s\<rparr>, slots)) (set_string c (ev_Type e))
        else if n = ''agent_id'' then map_option (\<lambda>s. (e\<lparr>ev_AgentID := s\<rparr>, slots)) (set_string c (ev_AgentID e))
        else if n = ''severity'' then map_option (\<lambda>s. (e\<lparr>ev_Severity := s\<rparr>, slots)) (set_string c (ev_Severity e))
        else if n = ''run_id'' then map_option (\<lambda>s. (e\<lparr>ev_RunID := s\<rparr>, slots)) (set_string c (ev_RunID e))
        else if n = ''on_behalf_of'' then
          map_option (\<lambda>(b, k). (e\<lparr>ev_OnBehalfOf := take k b\<rparr>, b)) (set_strings c slots)
        else if n = ''data'' then map_option (\<lambda>d. (e\<lparr>ev_Data := d\<rparr>, slots)) (set_data c (ev_Data e))
        else if n = ''prev_hash'' then map_option (\<lambda>s. (e\<lparr>ev_PrevHash := s\<rparr>, slots)) (set_string c (ev_PrevHash e))
        else Some (e, slots))"

fun dec_event :: "(string \<times> cst) list \<Rightarrow> Event \<times> bytes list \<Rightarrow> (Event \<times> bytes list) option" where
  "dec_event [] st = Some st"
| "dec_event ((raw, c) # ms) st =
     (case (case field_for event_fields (dec_str raw) of None \<Rightarrow> Some st | Some n \<Rightarrow> dec_field n c st) of
        None \<Rightarrow> None
      | Some st' \<Rightarrow> dec_event ms st')"

definition json_event :: "bytes \<Rightarrow> Event option" where
  "json_event data =
     (case parse_json data of
        Some CNull \<Rightarrow> Some zero_event
      | Some (CObj ms) \<Rightarrow> map_option fst (dec_event ms (zero_event, []))
      | _ \<Rightarrow> None)"

definition Unmarshal :: "bytes \<Rightarrow> event_error + Event" where
  "Unmarshal data =
     (case json_event data of
        None \<Rightarrow> Inl ErrInvalidJSON
      | Some e \<Rightarrow>
          if ev_Schema e = [] then Inl ErrMissingSchema
          else if ev_TS e = [] then Inl ErrMissingTS
          else if ev_Source e = [] then Inl ErrMissingSource
          else if ev_Type e = [] then Inl ErrMissingType
          else if ev_AgentID e = [] then Inl ErrMissingAgentID
          else Inr e)"

section \<open>Scan and ReadFile\<close>

definition maxLine :: nat where
  "maxLine = 4194304"

record ScanResult =
  sr_Lines :: nat
  sr_Malformed :: nat

text \<open>
  The loop over the scanner's tokens. The callback keeps a state of its own and may stop the scan
  with an error; the result is the counts, the callback's state and whether it stopped.
\<close>

fun scan_loop :: "(Event \<Rightarrow> 'w \<Rightarrow> 'w \<times> bool) \<Rightarrow> bytes list \<Rightarrow> ScanResult \<Rightarrow> 'w \<Rightarrow> ScanResult \<times> 'w \<times> bool" where
  "scan_loop fn [] res w = (res, w, False)"
| "scan_loop fn (t # ts) res w =
     (let line = TrimSpace t in
      if line = [] then scan_loop fn ts res w
      else
        let res = res\<lparr>sr_Lines := sr_Lines res + 1\<rparr> in
        case Unmarshal line of
          Inl err \<Rightarrow> scan_loop fn ts (res\<lparr>sr_Malformed := sr_Malformed res + 1\<rparr>) w
        | Inr e \<Rightarrow> (case fn e w of (w', stop) \<Rightarrow> if stop then (res, w', True) else scan_loop fn ts res w'))"

text \<open>\<open>rerr\<close> says the reader ended with an error instead of the end of the file.\<close>

definition Scan :: "bytes \<Rightarrow> bool \<Rightarrow> (Event \<Rightarrow> 'w \<Rightarrow> 'w \<times> bool) \<Rightarrow> 'w \<Rightarrow>
    ScanResult \<times> 'w \<times> event_error option" where
  "Scan r rerr fn w =
     (case scan_tokens maxLine r of (ts, long) \<Rightarrow>
      case scan_loop fn ts \<lparr>sr_Lines = 0, sr_Malformed = 0\<rparr> w of (res, w', stop) \<Rightarrow>
        (res, w', if stop then Some ErrCallback else if long then Some ErrTooLong
                  else if rerr then Some ErrRead else None))"

definition ReadFile :: "bytes option \<Rightarrow> bool \<Rightarrow> event_error + Event list" where
  "ReadFile content rerr =
     (case content of
        None \<Rightarrow> Inl ErrOpen
      | Some r \<Rightarrow>
          (case Scan r rerr (\<lambda>e events. (events @ [e], False)) [] of
             (res, events, Some err) \<Rightarrow> Inl err
           | (res, events, None) \<Rightarrow> Inr events))"

section \<open>What is marshalled is read slots\<close>

definition plain_name :: "string \<Rightarrow> bool" where
  "plain_name s \<longleftrightarrow> list_all (\<lambda>c. (97 \<le> (of_char c :: nat) \<and> (of_char c :: nat) \<le> 122) \<or> c = CHR ''_'') s"

lemma enc_plain: "plain_name s \<Longrightarrow> enc_str s = s"
proof (induction s)
  case (Cons c s)
  then have c: "(of_char c :: nat) < 128" "c = CHR ''_'' \<or> 97 \<le> (of_char c :: nat)" by (auto simp: plain_name_def)
  have "esc_ascii c = [c]"
  proof (cases "c = CHR ''_''")
    case False
    with c have "\<And>k. (of_char k :: nat) < 97 \<Longrightarrow> c \<noteq> k" by auto
    with c False show ?thesis by (simp add: esc_ascii_def html_special_def)
  qed (simp add: esc_ascii_def html_special_def)
  with c Cons show ?case by (simp add: enc_str_ascii plain_name_def)
qed simp

lemma plain_valid: "plain_name s \<Longrightarrow> valid_utf8 s"
  by (rule ascii_valid) (auto simp: ascii_def plain_name_def list_all_iff)

lemma plain_dec: "plain_name s \<Longrightarrow> dec_str s = s"
  using dec_enc_valid [of s] by (simp add: enc_plain plain_valid)

lemma plain_raw: "plain_name s \<Longrightarrow> raw_ok s"
  using raw_ok_enc_str [of s] by (simp add: enc_plain)

lemma fields_plain: "n \<in> set event_fields \<Longrightarrow> plain_name n"
  by (auto simp: event_fields_def plain_name_def)

lemma field_for_name: "n \<in> set event_fields \<Longrightarrow> field_for event_fields (dec_str n) = Some n"
  by (simp add: field_for_def plain_dec fields_plain)

text \<open>Proofs about the members use the names as constants.\<close>

lemma names_in_fields:
  "''schema'' \<in> set event_fields" "''ts'' \<in> set event_fields" "''source'' \<in> set event_fields"
  "''type'' \<in> set event_fields" "''agent_id'' \<in> set event_fields" "''severity'' \<in> set event_fields"
  "''run_id'' \<in> set event_fields" "''on_behalf_of'' \<in> set event_fields" "''data'' \<in> set event_fields"
  "''prev_hash'' \<in> set event_fields"
  by (simp_all add: event_fields_def)

lemmas field_names = names_in_fields [THEN field_for_name]
lemmas name_raws = names_in_fields [THEN fields_plain, THEN plain_raw]

lemma dec_event_append:
  "dec_event (xs @ ys) st = (case dec_event xs st of None \<Rightarrow> None | Some st' \<Rightarrow> dec_event ys st')"
  by (induction xs st rule: dec_event.induct) (auto split: option.splits)

lemma fill_fresh:
  "fill_strings slots (length slots) (map (\<lambda>s. CStr (enc_str s)) ss) = Some (slots @ map to_valid ss)"
proof (induction ss arbitrary: slots)
  case (Cons s ss)
  from Cons.IH [of "slots @ [to_valid s]"] show ?case by (simp add: set_string_def dec_enc_str)
qed simp

text \<open>The event a reader sees: invalid UTF-8 replaced, the data as decoded.\<close>

definition cleaned :: "Event \<Rightarrow> (string \<times> gval) list \<Rightarrow> Event" where
  "cleaned e d = \<lparr>ev_Schema = to_valid (ev_Schema e), ev_TS = to_valid (ev_TS e), ev_Source = to_valid (ev_Source e),
     ev_Type = to_valid (ev_Type e), ev_AgentID = to_valid (ev_AgentID e), ev_Severity = to_valid (ev_Severity e),
     ev_RunID = to_valid (ev_RunID e), ev_OnBehalfOf = map to_valid (ev_OnBehalfOf e), ev_Data = d,
     ev_PrevHash = to_valid (ev_PrevHash e)\<rparr>"

lemma dec_str_member:
  "n \<in> set event_fields \<Longrightarrow>
     dec_event (str_member n s # ms) st =
     (case dec_field n (CStr (enc_str s)) st of None \<Rightarrow> None | Some st' \<Rightarrow> dec_event ms st')"
  by (simp add: str_member_def field_for_name)

lemma dec_omit:
  "n \<in> set event_fields \<Longrightarrow>
     dec_event (omit_empty n s @ ms) st =
     (if s = [] then dec_event ms st
      else case dec_field n (CStr (enc_str s)) st of None \<Rightarrow> None | Some st' \<Rightarrow> dec_event ms st')"
  by (simp add: omit_empty_def dec_str_member)

lemma set_string_enc [simp]: "set_string (CStr (enc_str s)) old = Some (to_valid s)"
  by (simp add: set_string_def dec_enc_str)

lemma dec_members_doc:
  "dec_event (event_members e data) (zero_event, []) =
     (if ev_Data e = [] then Some (cleaned e [], map to_valid (ev_OnBehalfOf e))
      else case dec_members [] data of None \<Rightarrow> None
        | Some d \<Rightarrow> Some (cleaned e d, map to_valid (ev_OnBehalfOf e)))"
proof -
  define e1 where "e1 = zero_event\<lparr>ev_Schema := to_valid (ev_Schema e), ev_TS := to_valid (ev_TS e),
     ev_Source := to_valid (ev_Source e), ev_Type := to_valid (ev_Type e), ev_AgentID := to_valid (ev_AgentID e)\<rparr>"
  define e2 where "e2 = e1\<lparr>ev_Severity := to_valid (ev_Severity e), ev_RunID := to_valid (ev_RunID e)\<rparr>"
  define obo where "obo = (if ev_OnBehalfOf e = [] then []
      else [(''on_behalf_of'', CArr (map (\<lambda>s. CStr (enc_str s)) (ev_OnBehalfOf e)))])"
  define dat where "dat = (if ev_Data e = [] then [] else [(''data'', CObj data)])"
  have head: "dec_event (event_members e data) (zero_event, []) =
     dec_event (omit_empty ''severity'' (ev_Severity e) @ omit_empty ''run_id'' (ev_RunID e) @ obo @ dat @
       omit_empty ''prev_hash'' (ev_PrevHash e) @ []) (e1, [])"
    by (simp add: event_members_def dec_str_member names_in_fields dec_field_def e1_def obo_def dat_def)
  also have "\<dots> = dec_event (obo @ dat @ omit_empty ''prev_hash'' (ev_PrevHash e) @ []) (e2, [])"
    unfolding dec_omit [OF names_in_fields(6)] dec_omit [OF names_in_fields(7)]
    by (simp add: dec_field_def e2_def e1_def zero_event_def)
  also have "\<dots> = dec_event (dat @ omit_empty ''prev_hash'' (ev_PrevHash e) @ [])
      (e2\<lparr>ev_OnBehalfOf := map to_valid (ev_OnBehalfOf e)\<rparr>, map to_valid (ev_OnBehalfOf e))"
    using fill_fresh [of "[]" "ev_OnBehalfOf e"]
    by (simp add: obo_def field_names dec_field_def set_strings_def e2_def e1_def zero_event_def)
  finally have all: "dec_event (event_members e data) (zero_event, []) = \<dots>" .
  show ?thesis
  proof (cases "ev_Data e = []")
    case True
    then show ?thesis unfolding all
      by (simp add: dat_def dec_omit [OF names_in_fields(10), of _ "[]", simplified] dec_field_def cleaned_def e2_def
          e1_def zero_event_def)
  next
    case False
    then show ?thesis unfolding all
      by (simp add: dat_def field_names dec_field_def set_data_def dec_omit [OF names_in_fields(10), of _ "[]", simplified]
          cleaned_def e2_def e1_def zero_event_def split: option.split)
  qed
qed

lemma event_doc_wf: "wf_event e \<Longrightarrow> event_doc e = Some c \<Longrightarrow> wf_cst c"
  by (auto simp: event_doc_def event_members_def omit_empty_def str_member_def name_raws wf_event_def list_all_iff
      dest!: enc_wf(3) [unfolded list_all_iff, rotated])

lemma Marshal_doc: "Marshal e = Inr s \<longleftrightarrow> (\<exists>data. enc_members (ev_Data e) = Some data \<and> s = print_json (CObj (event_members e data)))"
  by (auto simp: Marshal_def event_doc_def split: option.splits)

lemma Marshal_printable: "wf_event e \<Longrightarrow> Marshal e = Inr s \<Longrightarrow> printable s"
  by (auto simp: Marshal_def print_printable event_doc_wf split: option.splits)

lemma printable_no_LF: "printable s \<Longrightarrow> LF \<notin> set s"
  by (auto simp: printable_def list_all_iff)

text \<open>A printed object is not white space at either end.\<close>

lemma object_ends: "\<exists>m. print_json (CObj kvs) = CHR ''{'' # m @ ''}''"
  using toks_obj_end [of True kvs] by (auto simp: print_json_def)

lemma brace_trim: "TrimSpace (CHR ''{'' # m @ ''}'') = CHR ''{'' # m @ ''}''"
proof -
  have "code_at spaces (CHR ''{'' # t) = None" for t
    by (simp add: code_at_def spaces_def)
  then have "trim_left (CHR ''{'' # t) = CHR ''{'' # t" for t
    by (simp add: trim_left_def strip_codes.simps)
  moreover have "code_at (map rev spaces) (CHR ''}'' # t) = None" for t
    by (simp add: code_at_def spaces_def)
  then have "strip_codes (map rev spaces) (CHR ''}'' # t) = CHR ''}'' # t" for t
    by (simp add: strip_codes.simps)
  ultimately show ?thesis by (simp add: TrimSpace_def trim_right_def)
qed

lemma Marshal_braces: "Marshal e = Inr s \<Longrightarrow> \<exists>m. s = CHR ''{'' # m @ ''}''"
  using object_ends by (auto simp: Marshal_doc)

lemma Marshal_trim: "Marshal e = Inr s \<Longrightarrow> TrimSpace s = s \<and> s \<noteq> [] \<and> drop_cr s = s"
  using Marshal_braces [of e s] brace_trim by (auto simp: drop_cr_def)

text \<open>Every string of the event is valid UTF-8, as text read from JSON is.\<close>

definition text_event :: "Event \<Rightarrow> bool" where
  "text_event e \<longleftrightarrow>
     list_all valid_utf8 [ev_Schema e, ev_TS e, ev_Source e, ev_Type e, ev_AgentID e, ev_Severity e, ev_RunID e, ev_PrevHash e] \<and>
     list_all valid_utf8 (ev_OnBehalfOf e) \<and> text_gval (GObj (ev_Data e))"

definition required_present :: "Event \<Rightarrow> bool" where
  "required_present e \<longleftrightarrow> [] \<notin> set [ev_Schema e, ev_TS e, ev_Source e, ev_Type e, ev_AgentID e]"

definition nesting_ok :: "Event \<Rightarrow> bool" where
  "nesting_ok e \<longleftrightarrow> (\<forall>c. event_doc e = Some c \<longrightarrow> cdepth c \<le> maxNestingDepth)"

text \<open>What the reader makes of a marshalled event, whatever bytes its strings hold.\<close>

lemma json_event_Marshal:
  assumes "wf_event e" "nesting_ok e" "Marshal e = Inr s"
  shows "\<exists>d. json_event s = Some (cleaned e d) \<and> (text_gval (GObj (ev_Data e)) \<longrightarrow> d = ev_Data e)"
proof -
  from assms(3) obtain data where data: "enc_members (ev_Data e) = Some data"
    "s = print_json (CObj (event_members e data))" by (auto simp: Marshal_doc)
  then have doc: "event_doc e = Some (CObj (event_members e data))" by (simp add: event_doc_def)
  have "parse_json s = Some (CObj (event_members e data))"
    using assms(2) doc data(2) parse_print_iff [OF event_doc_wf [OF assms(1) doc]] by (simp add: nesting_ok_def)
  then have j: "json_event s = map_option fst (dec_event (event_members e data) (zero_event, []))"
    by (simp add: json_event_def)
  have wf: "list_all (\<lambda>(k, v). wf_gval v) (ev_Data e)" "wf_map (ev_Data e)"
    using assms(1) by (auto simp: wf_event_def)
  from enc_dec_ok(3) [OF wf(1) data(1)] obtain d where d: "dec_members [] data = Some d" by blast
  show ?thesis
  proof (cases "ev_Data e = []")
    case True
    then show ?thesis using j by (simp add: dec_members_doc)
  next
    case False
    show ?thesis
    proof (intro exI [of _ d] conjI impI)
      show "json_event s = Some (cleaned e d)" using j d False by (simp add: dec_members_doc)
      assume "text_gval (GObj (ev_Data e))"
      then show "d = ev_Data e"
        using enc_dec_id(3) [OF wf(1) _ data(1), of "[]"] d wf(2) by (simp add: m_collect_id)
    qed
  qed
qed

lemma cleaned_id: "text_event e \<Longrightarrow> cleaned e (ev_Data e) = e"
  by (cases e) (simp add: cleaned_def text_event_def to_valid_id list_all_iff map_idI)

lemma to_valid_empty: "to_valid s = [] \<longleftrightarrow> s = []"
proof (cases s)
  case (Cons c cs)
  have "to_valid (c # cs) \<noteq> []"
    by (subst to_valid.simps) (auto simp: Let_def replacement_def)
  with Cons show ?thesis by simp
qed simp

lemma Unmarshal_json:
  "json_event s = Some e \<Longrightarrow> required_present e \<Longrightarrow> Unmarshal s = Inr e"
  by (auto simp: Unmarshal_def required_present_def)

lemma Unmarshal_Inr:
  "Unmarshal s = Inr e \<longleftrightarrow> json_event s = Some e \<and> required_present e"
  by (auto simp: Unmarshal_def required_present_def split: option.splits if_splits)

section \<open>Properties\<close>

text \<open>
  C11. An event is read back as it was written: for any event of the envelope's Go type whose
  strings are valid UTF-8, whose required fields are there and whose data nests no deeper than the
  JSON scanner allows, \<^verbatim>\<open>Unmarshal\<close> of what \<^verbatim>\<open>Marshal\<close> produced is the same event,
  field for field, data included; the text is one line.
\<close>

theorem Unmarshal_Marshal:
  assumes "wf_event e" "text_event e" "required_present e" "nesting_ok e" "Marshal e = Inr s"
  shows "Unmarshal s = Inr e \<and> LF \<notin> set s"
proof
  have "text_gval (GObj (ev_Data e))" using assms(2) by (simp add: text_event_def)
  then have "json_event s = Some (cleaned e (ev_Data e))"
    using json_event_Marshal [OF assms(1,4,5)] by auto
  then have "json_event s = Some e" using assms(2) by (simp add: cleaned_id)
  then show "Unmarshal s = Inr e" using assms(3) by (rule Unmarshal_json)
  show "LF \<notin> set s" using assms(1,5) by (intro printable_no_LF Marshal_printable)
qed

definition sample_event :: Event where
  "sample_event = zero_event\<lparr>ev_Schema := ''v'', ev_TS := ''t'', ev_Source := ''s'', ev_Type := ''a'',
     ev_AgentID := ''agent://b'', ev_OnBehalfOf := [''user://c''], ev_Data := [(''k'', GArr [GStr ''x'', GNull])]\<rparr>"

lemma sample_event_ok:
  "wf_event sample_event" "text_event sample_event" "required_present sample_event" "nesting_ok sample_event"
proof -
  have "valid_utf8 ''v''" "valid_utf8 ''t''" "valid_utf8 ''s''" "valid_utf8 ''a''" "valid_utf8 ''agent://b''"
    "valid_utf8 ''user://c''" "valid_utf8 ''k''" "valid_utf8 ''x''"
    by (rule ascii_valid, simp add: ascii_def)+
  then show "text_event sample_event" by (simp add: text_event_def sample_event_def zero_event_def)
  show "wf_event sample_event" "required_present sample_event" "nesting_ok sample_event"
    by (simp_all add: wf_event_def required_present_def nesting_ok_def sample_event_def zero_event_def wf_map_Cons
        event_doc_def event_members_def omit_empty_def str_member_def maxNestingDepth_def)
qed

lemma length_esc_ascii: "length (esc_ascii c) \<le> 6"
  by (simp add: esc_ascii_def u00_def)

lemma length_enc_str: "length (enc_str s) \<le> 6 * length s"
proof (induction s rule: enc_str_induct)
  case (ascii c cs)
  then show ?case using length_esc_ascii [of c] by (simp add: enc_str_ascii)
next
  case (bad c cs)
  then show ?case by (simp add: enc_str_bad)
next
  case (sep s)
  then have "3 \<le> length s" using utf8_len_sep utf8_len_le [of s] by (metis)
  with sep show ?case by (simp add: enc_str_sep esc_2028_def)
next
  case (rune c cs)
  then show ?case using utf8_len_le [of "c # cs"] by (simp add: enc_str_rune)
qed simp

lemma sample_length_hash:
  "Marshal (sample_event\<lparr>ev_PrevHash := h\<rparr>) = Inr s \<Longrightarrow> length s < 250 + 6 * length h"
proof -
  assume s: "Marshal (sample_event\<lparr>ev_PrevHash := h\<rparr>) = Inr s"
  have "enc_str s = s" if "list_all (\<lambda>c. (of_char c :: nat) < 128 \<and> esc_ascii c = [c]) s" for s
    using that by (induction s) (simp_all add: enc_str_ascii)
  then have "enc_str ''v'' = ''v''" "enc_str ''t'' = ''t''" "enc_str ''s'' = ''s''" "enc_str ''a'' = ''a''"
    "enc_str ''agent://b'' = ''agent://b''" "enc_str ''user://c'' = ''user://c''" "enc_str ''k'' = ''k''" "enc_str ''x'' = ''x''"
    by (simp_all add: esc_ascii_def html_special_def)
  with s length_enc_str [of h] show ?thesis
    by (auto simp: Marshal_doc sample_event_def zero_event_def event_members_def omit_empty_def str_member_def
        print_json_def split: if_splits)
qed

lemma sample_length: "Marshal sample_event = Inr s \<Longrightarrow> length s < 250"
  using sample_length_hash [of "[]" s] by (simp add: sample_event_def zero_event_def)

theorem Unmarshal_Marshal_witness:
  "\<exists>s. Marshal sample_event = Inr s \<and> Unmarshal s = Inr sample_event"
proof -
  obtain s where s: "Marshal sample_event = Inr s"
    by (auto simp: Marshal_def event_doc_def sample_event_def zero_event_def)
  with Unmarshal_Marshal [OF sample_event_ok s] show ?thesis by blast
qed

end
