(* ===== verification/Event_Writer.thy ===== *)
theory Event_Writer
  imports Event
begin

text \<open>
  The append-only \<^verbatim>\<open>Writer\<close> (event/event.go), and how a stream's file comes to exist
  (event/create.go). What the operating system answers is an argument: whether the lock is granted
  and released, how much of a write lands before it fails, who owns the directory, and what another
  process creates in between.
\<close>

section \<open>Appending under the lock\<close>

text \<open>\<open>io_landed\<close> is how much of a write lands before it fails, \<open>io_read\<close> whether the tail can be read.\<close>

record io =
  io_lock :: bool
  io_landed :: "nat option"
  io_unlock :: bool
  io_read :: bool

text \<open>The file's bytes, and whether this process is left holding its lock.\<close>

record efile =
  ef_bytes :: bytes
  ef_locked :: bool

definition lock_file :: "io \<Rightarrow> efile \<Rightarrow> efile \<times> bool" where
  "lock_file env f = (if io_lock env then (f\<lparr>ef_locked := True\<rparr>, True) else (f, False))"

definition unlock_file :: "io \<Rightarrow> efile \<Rightarrow> efile \<times> bool" where
  "unlock_file env f = (if io_unlock env then (f\<lparr>ef_locked := False\<rparr>, True) else (f, False))"

definition write_file :: "io \<Rightarrow> efile \<Rightarrow> bytes \<Rightarrow> efile \<times> bool" where
  "write_file env f line =
     (case io_landed env of
        None \<Rightarrow> (f\<lparr>ef_bytes := ef_bytes f @ line\<rparr>, True)
      | Some n \<Rightarrow> (f\<lparr>ef_bytes := ef_bytes f @ take n line\<rparr>, False))"

definition Writer_appendLocked :: "io \<Rightarrow> efile \<Rightarrow> bytes \<Rightarrow> efile \<times> event_error option" where
  "Writer_appendLocked env f line =
     (case lock_file env f of
        (f, False) \<Rightarrow> (f, Some ErrLock)
      | (f, True) \<Rightarrow>
          (case write_file env f line of
             (f, False) \<Rightarrow> (fst (unlock_file env f), Some ErrWrite)
           | (f, True) \<Rightarrow>
               (case unlock_file env f of
                  (f, False) \<Rightarrow> (f, Some ErrUnlock)
                | (f, True) \<Rightarrow> (f, None))))"

definition Writer_Write :: "io \<Rightarrow> efile \<Rightarrow> Event \<Rightarrow> efile \<times> event_error option" where
  "Writer_Write env f e =
     (case Marshal e of
        Inl err \<Rightarrow> (f, Some err)
      | Inr data \<Rightarrow> Writer_appendLocked env f (data @ [LF]))"

lemmas Writer_defs = Writer_Write_def Writer_appendLocked_def lock_file_def unlock_file_def write_file_def

section \<open>Opening for append\<close>

record fentry =
  fe_bytes :: bytes
  fe_mode :: nat

text \<open>
  \<open>oe_owner\<close> is \<^verbatim>\<open>dirOwner\<close>'s answer (\<open>None\<close> an error), \<open>oe_race\<close> a
  file another process creates between the first open and the exclusive create, \<open>oe_mask\<close> what
  the process's umask leaves of a creation mode.
\<close>

record open_env =
  oe_openable :: bool
  oe_owner :: "bool option"
  oe_race :: "fentry option"
  oe_creatable :: bool
  oe_chmod :: bool
  oe_mask :: "nat \<Rightarrow> nat"

definition open_existing :: "open_env \<Rightarrow> fentry \<Rightarrow> fentry option \<times> (event_error + unit)" where
  "open_existing env f = (Some f, if oe_openable env then Inr () else Inl ErrOpen)"

text \<open>The file at the path before and after, and whether it was opened. 416 is octal 0640.\<close>

definition openAppend :: "open_env \<Rightarrow> fentry option \<Rightarrow> fentry option \<times> (event_error + unit)" where
  "openAppend env path =
     (case path of
        Some f \<Rightarrow> open_existing env f
      | None \<Rightarrow>
          (case oe_owner env of
             None \<Rightarrow> (None, Inl ErrOpen)
           | Some False \<Rightarrow> (None, Inl ErrOpen)
           | Some True \<Rightarrow>
               (case oe_race env of
                  Some f \<Rightarrow> open_existing env f
                | None \<Rightarrow>
                    if \<not> oe_creatable env then (None, Inl ErrOpen)
                    else if oe_chmod env then (Some \<lparr>fe_bytes = [], fe_mode = 416\<rparr>, Inr ())
                    else (Some \<lparr>fe_bytes = [], fe_mode = oe_mask env 416\<rparr>, Inl ErrOpen))))"

section \<open>What a scan makes of an appended line\<close>

definition collect :: "Event \<Rightarrow> Event list \<Rightarrow> Event list \<times> bool" where
  "collect e es = (es @ [e], False)"

lemma scan_loop_append:
  "scan_loop collect (ts @ us) res w =
     (case scan_loop collect ts res w of (res', w', stop) \<Rightarrow> scan_loop collect us res' w')"
  by (induction ts arbitrary: res w) (auto simp: Let_def collect_def split: sum.splits)

lemma scan_loop_collect: "snd (snd (scan_loop collect ts res w)) = False"
  by (induction ts arbitrary: res w) (auto simp: Let_def collect_def split: sum.splits)

lemma ReadFile_collect:
  "ReadFile (Some r) rerr = (case Scan r rerr collect [] of (res, es, err) \<Rightarrow>
     (case err of Some x \<Rightarrow> Inl x | None \<Rightarrow> Inr es))"
proof -
  have "collect = (\<lambda>e events. (events @ [e], False))" by (simp add: fun_eq_iff collect_def)
  then show ?thesis by (auto simp: ReadFile_def split: prod.splits option.splits)
qed

lemma scan_tokens_line:
  assumes "ends_line f" "LF \<notin> set data" "snd (scan_tokens cap f) = False"
  shows "scan_tokens cap (f @ data @ [LF]) =
    (if length data < cap then (fst (scan_tokens cap f) @ [drop_cr data], False)
     else (fst (scan_tokens cap f), True))"
  using assms pieces_line [of data "[]"]
  by (auto simp: scan_tokens_def pieces_append cap_tokens_append split: prod.splits)

lemma ReadFile_line:
  assumes "ends_line f" "LF \<notin> set data" "length data < maxLine" "TrimSpace data = data" "drop_cr data = data"
    and "data \<noteq> []" "Unmarshal data = Inr e" "ReadFile (Some f) False = Inr es"
  shows "ReadFile (Some (f @ data @ [LF])) False = Inr (es @ [e])"
proof -
  obtain ts where ts: "scan_tokens maxLine f = (ts, False)"
    using assms(8) by (cases "scan_tokens maxLine f") (auto simp: ReadFile_collect Scan_def split: prod.splits if_splits)
  then obtain res where res: "scan_loop collect ts \<lparr>sr_Lines = 0, sr_Malformed = 0\<rparr> [] = (res, es, False)"
    using assms(8) by (auto simp: ReadFile_collect Scan_def split: prod.splits if_splits option.splits)
  have "scan_tokens maxLine (f @ data @ [LF]) = (ts @ [data], False)"
    using scan_tokens_line [OF assms(1,2), of maxLine] ts assms(3,5) by simp
  then show ?thesis
    using res assms by (simp add: ReadFile_collect Scan_def scan_loop_append Let_def collect_def)
qed

section \<open>Properties\<close>

text \<open>
  Every outcome of \<^verbatim>\<open>Writer.Write\<close>. The file only ever grows, by a prefix of one
  line; nothing is appended when the event does not marshal or the lock is refused; success means
  the whole line landed and the lock was released; and the lock is left held only when releasing it
  failed.
\<close>

theorem Writer_Write_outcome:
  assumes "Writer_Write env f e = (f', r)" "\<not> ef_locked f"
  shows "(\<exists>k. ef_bytes f' = ef_bytes f @ take k (case Marshal e of Inl _ \<Rightarrow> [] | Inr s \<Rightarrow> s @ [LF])) \<and>
    (r \<in> {Some ErrMarshal, Some ErrLock} \<longrightarrow> f' = f) \<and>
    (r = None \<longleftrightarrow> io_lock env \<and> io_landed env = None \<and> io_unlock env \<and>
       (\<exists>s. Marshal e = Inr s \<and> f' = f\<lparr>ef_bytes := ef_bytes f @ s @ [LF]\<rparr>)) \<and>
    (ef_locked f' \<longrightarrow> \<not> io_unlock env \<and> r \<in> {Some ErrWrite, Some ErrUnlock})"
proof (cases "Marshal e")
  case (Inl err)
  then have "err = ErrMarshal" by (simp add: Marshal_def split: option.splits)
  with Inl assms show ?thesis by (auto simp: Writer_Write_def)
next
  case (Inr s)
  have all: "take (length s + 1) (s @ [LF]) = s @ [LF]" by simp
  show ?thesis
  proof (cases "io_landed env")
    case None
    with Inr assms all show ?thesis
      by (auto simp: Writer_defs
          simp del: take_append intro: exI [of _ "length s + 1"] exI [of _ 0] split: if_splits)
  next
    case (Some n)
    with Inr assms show ?thesis
      by (auto simp: Writer_defs
          simp del: take_append intro: exI [of _ n] exI [of _ 0] split: if_splits)
  qed
qed

definition good_io :: io where
  "good_io = \<lparr>io_lock = True, io_landed = None, io_unlock = True, io_read = True\<rparr>"

theorem Writer_Write_outcome_witness:
  "Writer_Write \<lparr>io_lock = False, io_landed = None, io_unlock = True, io_read = True\<rparr> \<lparr>ef_bytes = ''x'', ef_locked = False\<rparr> sample_event =
     (\<lparr>ef_bytes = ''x'', ef_locked = False\<rparr>, Some ErrLock)"
proof -
  have "snd (Writer_Write \<lparr>io_lock = False, io_landed = None, io_unlock = True, io_read = True\<rparr>
      \<lparr>ef_bytes = ''x'', ef_locked = False\<rparr> sample_event) = Some ErrLock"
    by (simp add: Writer_Write_def Writer_appendLocked_def lock_file_def Marshal_def event_doc_def sample_event_def zero_event_def)
  then show ?thesis
    using Writer_Write_outcome [OF surjective_pairing, of "\<lparr>ef_bytes = ''x'', ef_locked = False\<rparr>"
        "\<lparr>io_lock = False, io_landed = None, io_unlock = True, io_read = True\<rparr>" sample_event]
    by (simp add: prod_eq_iff)
qed

text \<open>
  What is written is read. When \<^verbatim>\<open>Write\<close> of a well-formed event succeeds on a file
  that ends at a line, \<^verbatim>\<open>ReadFile\<close> returns the events it returned before and then this
  one, whatever malformed or blank lines the file also holds, provided the line fits the scanner's
  buffer.
\<close>

theorem ReadFile_after_Write:
  assumes "wf_event e" "text_event e" "required_present e" "nesting_ok e" "Marshal e = Inr s" "length s < maxLine"
    and "ends_line (ef_bytes f)" "ReadFile (Some (ef_bytes f)) False = Inr es"
    and "Writer_Write env f e = (f', None)"
  shows "ReadFile (Some (ef_bytes f')) False = Inr (es @ [e]) \<and> ends_line (ef_bytes f')"
proof -
  have "ef_bytes f' = ef_bytes f @ s @ [LF]"
    using assms(5,9)
    by (auto simp: Writer_defs
        split: if_splits option.splits)
  moreover from assms(1,5) have "LF \<notin> set s" by (intro printable_no_LF Marshal_printable)
  moreover have "json_event s = Some e"
    using json_event_Marshal [OF assms(1,4,5)] assms(2) cleaned_id [OF assms(2)] by (auto simp: text_event_def)
  with assms(3) have "Unmarshal s = Inr e" by (rule Unmarshal_json [rotated])
  ultimately show ?thesis
    using ReadFile_line [of "ef_bytes f" s e es] assms(6-8) Marshal_trim [OF assms(5)] by (simp add: ends_line_def)
qed

theorem ReadFile_after_Write_witness:
  "\<exists>s. ReadFile (Some (s @ [LF])) False = Inr [sample_event]"
proof -
  obtain s where s: "Marshal sample_event = Inr s"
    by (auto simp: Marshal_def event_doc_def sample_event_def zero_event_def)
  then have len: "length s < maxLine" using sample_length by (fastforce simp: maxLine_def)
  have w: "Writer_Write good_io \<lparr>ef_bytes = [], ef_locked = False\<rparr> sample_event =
      (\<lparr>ef_bytes = s @ [LF], ef_locked = False\<rparr>, None)"
    using s by (simp add: Writer_defs good_io_def)
  have "ReadFile (Some []) False = Inr []" by (simp add: ReadFile_def Scan_def scan_tokens_def)
  then have "ReadFile (Some (s @ [LF])) False = Inr [sample_event]"
    using ReadFile_after_Write [OF sample_event_ok s len _ _ w, of "[]"] by (simp add: ends_line_def)
  then show ?thesis by blast
qed

text \<open>
  C12. A writer never takes over a name. Whatever the system answers, a file that exists, or that
  another process creates in between, keeps its bytes and its mode; a file is created only when it
  was absent and its directory belongs to this process; and a new file that is opened has exactly
  mode 0640, whatever the umask.
\<close>

theorem openAppend_safe:
  "(case path of
      Some f \<Rightarrow> fst (openAppend env path) = Some f
    | None \<Rightarrow>
        (oe_owner env \<noteq> Some True \<longrightarrow> openAppend env path = (None, Inl ErrOpen)) \<and>
        (oe_owner env = Some True \<and> oe_race env = Some g \<longrightarrow> fst (openAppend env path) = Some g)) \<and>
   (snd (openAppend env path) = Inr () \<and> path = None \<and> oe_race env = None \<longrightarrow>
      oe_owner env = Some True \<and> fst (openAppend env path) = Some \<lparr>fe_bytes = [], fe_mode = 416\<rparr>)"
  by (auto simp: openAppend_def open_existing_def split: option.splits bool.splits)

theorem openAppend_safe_witness:
  "openAppend \<lparr>oe_openable = True, oe_owner = Some False, oe_race = None, oe_creatable = True, oe_chmod = True,
      oe_mask = (\<lambda>m. m)\<rparr> None = (None, Inl ErrOpen)"
  using openAppend_safe [where path = None and env = "\<lparr>oe_openable = True, oe_owner = Some False, oe_race = None,
      oe_creatable = True, oe_chmod = True, oe_mask = (\<lambda>m. m)\<rparr>"] by simp

end
