(* ===== verification/Event_Chain.thy ===== *)
theory Event_Chain
  imports Event_Writer Sha2
begin

text \<open>
  The prev_hash chain of event/chain.go: the canonical form of one event line and its hash, the
  tail of a file as \<^verbatim>\<open>readTail\<close> finds it, the chained writer, and the verifier.
  \<^verbatim>\<open>jcs.Transform\<close> is a third party's, so it is the argument \<open>jcs\<close> of everything
  that uses it; SHA-256 is the one of \<^verbatim>\<open>crypto/sha256\<close>.
\<close>

section \<open>Canonical form and hash\<close>

definition ChainHashPrefix :: string where
  "ChainHashPrefix = ''sha256:''"

definition digest :: "bytes \<Rightarrow> string" where
  "digest canonical = ChainHashPrefix @ hex_EncodeToString (sha256 canonical)"

definition run_jcs :: "(bytes \<Rightarrow> bytes option) \<Rightarrow> bytes \<Rightarrow> event_error + bytes" where
  "run_jcs jcs data = (case jcs data of None \<Rightarrow> Inl ErrCanonicalize | Some c \<Rightarrow> Inr c)"

definition Canonicalize :: "(bytes \<Rightarrow> bytes option) \<Rightarrow> Event \<Rightarrow> event_error + bytes" where
  "Canonicalize jcs e =
     (case Marshal (e\<lparr>ev_PrevHash := []\<rparr>) of Inl err \<Rightarrow> Inl err | Inr data \<Rightarrow> run_jcs jcs data)"

definition ChainHash :: "(bytes \<Rightarrow> bytes option) \<Rightarrow> Event \<Rightarrow> event_error + string" where
  "ChainHash jcs e = (case Canonicalize jcs e of Inl err \<Rightarrow> Inl err | Inr c \<Rightarrow> Inr (digest c))"

text \<open>
  A value held as \<^verbatim>\<open>json.RawMessage\<close> is printed compact with its strings
  HTML-escaped; its numbers and the order of its inner members are kept.
\<close>

fun html_cst :: "cst \<Rightarrow> cst" where
  "html_cst (CStr raw) = CStr (html_raw raw)"
| "html_cst (CArr vs) = CArr (map html_cst vs)"
| "html_cst (CObj kvs) = CObj (map (\<lambda>(k, v). (html_raw k, html_cst v)) kvs)"
| "html_cst c = c"

text \<open>The members as \<^verbatim>\<open>map[string]json.RawMessage\<close> holds them: keys unquoted, the last of a key wins.\<close>

definition raw_members :: "(string \<times> cst) list \<Rightarrow> (string \<times> cst) list" where
  "raw_members ms = m_collect [] (map (\<lambda>(raw, c). (dec_str raw, c)) ms)"

definition print_members :: "(string \<times> cst) list \<Rightarrow> bytes" where
  "print_members m = print_json (CObj (map (\<lambda>(k, c). (enc_str k, html_cst c)) m))"

definition CanonicalizeRaw :: "(bytes \<Rightarrow> bytes option) \<Rightarrow> bytes \<Rightarrow> event_error + bytes" where
  "CanonicalizeRaw jcs line =
     (case parse_json line of
        Some CNull \<Rightarrow> run_jcs jcs ''null''
      | Some (CObj ms) \<Rightarrow> run_jcs jcs (print_members (m_delete (raw_members ms) ''prev_hash''))
      | _ \<Rightarrow> Inl ErrCanonicalize)"

definition ChainHashRaw :: "(bytes \<Rightarrow> bytes option) \<Rightarrow> bytes \<Rightarrow> event_error + string" where
  "ChainHashRaw jcs line = (case CanonicalizeRaw jcs line of Inl err \<Rightarrow> Inl err | Inr c \<Rightarrow> Inr (digest c))"

section \<open>The tail of a file\<close>

definition resumeWindow :: nat where "resumeWindow = 4194304"
definition tailChunk :: nat where "tailChunk = 8192"

record tail =
  t_line :: "bytes option"
  t_endsNewline :: bool

text \<open>The part of a text after its last line feed.\<close>

definition after_LF :: "bytes \<Rightarrow> bytes" where
  "after_LF r = rev (takeWhile (\<lambda>c. c \<noteq> LF) (rev r))"

text \<open>One turn of the loop with the last \<open>n\<close> bytes in hand; \<open>None\<close> reads further back.\<close>

definition tail_at :: "bytes \<Rightarrow> nat \<Rightarrow> tail option" where
  "tail_at f n =
     (let buf = drop (length f - n) f;
          t = \<lparr>t_line = None, t_endsNewline = (buf \<noteq> [] \<and> last buf = LF)\<rparr>;
          r = trim_right buf;
          b = after_LF r;
          start = length r - length b;
          atStart = (n = length f)
      in if r = [] \<and> atStart then Some t
         else if start > 0 \<or> atStart then
           (if r \<noteq> [] then
              let line = TrimSpace b in
              case Unmarshal line of Inr _ \<Rightarrow> Some (t\<lparr>t_line := Some line\<rparr>) | Inl _ \<Rightarrow> Some t
            else Some t)
         else if n = resumeWindow then Some t
         else None)"

lemma tail_at_answers: "n = length f \<or> n = resumeWindow \<Longrightarrow> tail_at f n \<noteq> None"
  by (auto simp: tail_at_def Let_def split: sum.splits)

text \<open>The read doubles from \<^verbatim>\<open>tailChunk\<close>; the \<open>i\<close>th one asks for \<open>tailChunk * 2 ^ i\<close> bytes.\<close>

function tail_loop :: "bytes \<Rightarrow> nat \<Rightarrow> tail" where
  "tail_loop f i =
     (case tail_at f (min (tailChunk * 2 ^ i) (min (length f) resumeWindow)) of
        Some t \<Rightarrow> t
      | None \<Rightarrow> tail_loop f (Suc i))"
  by pat_completeness auto
termination
proof (relation "measure (\<lambda>(f, i). length f - tailChunk * 2 ^ i)", goal_cases)
  case (2 f i)
  then have "tailChunk * 2 ^ i < length f"
    using tail_at_answers [of "length f" f] tail_at_answers [of resumeWindow f] by (auto simp: min_def le_less split: if_splits)
  moreover have "0 < tailChunk * 2 ^ i" "tailChunk * 2 ^ Suc i = 2 * (tailChunk * 2 ^ i)"
    by (simp_all add: tailChunk_def)
  ultimately have "length f - tailChunk * 2 ^ Suc i < length f - tailChunk * 2 ^ i" by linarith
  then show ?case by simp
qed simp

declare tail_loop.simps [simp del]

definition readTail :: "io \<Rightarrow> bytes \<Rightarrow> event_error + tail" where
  "readTail env f =
     (if \<not> io_read env then Inl ErrReadTail
      else if f = [] then Inr \<lparr>t_line = None, t_endsNewline = True\<rparr>
      else Inr (tail_loop f 0))"

section \<open>The chained writer\<close>

record ChainedWriter =
  cw_next :: string
  cw_resumedFrom :: string

definition tail_hash :: "(bytes \<Rightarrow> bytes option) \<Rightarrow> tail \<Rightarrow> string" where
  "tail_hash jcs t =
     (case t_line t of
        None \<Rightarrow> []
      | Some l \<Rightarrow> (case ChainHashRaw jcs l of Inr h \<Rightarrow> h | Inl _ \<Rightarrow> []))"

text \<open>\<^verbatim>\<open>openChainedWriter\<close> on an open file, without checkpoints.\<close>

definition openChainedWriter :: "(bytes \<Rightarrow> bytes option) \<Rightarrow> io \<Rightarrow> efile \<Rightarrow> efile \<times> (event_error + ChainedWriter)" where
  "openChainedWriter jcs env f =
     (case lock_file env f of
        (f, False) \<Rightarrow> (f, Inl ErrLock)
      | (f, True) \<Rightarrow>
          (let cw = \<lparr>cw_next = [],
             cw_resumedFrom = (case readTail env (ef_bytes f) of Inl _ \<Rightarrow> [] | Inr t \<Rightarrow> tail_hash jcs t)\<rparr>
           in case unlock_file env f of
                (f, False) \<Rightarrow> (f, Inl ErrUnlock)
              | (f, True) \<Rightarrow> (f, Inr cw)))"

definition cw_appendLocked :: "(bytes \<Rightarrow> bytes option) \<Rightarrow> io \<Rightarrow> ChainedWriter \<Rightarrow> efile \<Rightarrow> Event \<Rightarrow>
    ChainedWriter \<times> efile \<times> event_error option" where
  "cw_appendLocked jcs env cw f e =
     (case readTail env (ef_bytes f) of
        Inl err \<Rightarrow> (cw, f, Some err)
      | Inr t \<Rightarrow>
          (let cw = cw\<lparr>cw_next := tail_hash jcs t\<rparr>;
               e = e\<lparr>ev_PrevHash := cw_next cw\<rparr>
           in case Marshal e of
                Inl err \<Rightarrow> (cw, f, Some err)
              | Inr data \<Rightarrow>
                  (case ChainHashRaw jcs data of
                     Inl err \<Rightarrow> (cw, f, Some err)
                   | Inr _ \<Rightarrow>
                       (case write_file env f ((if t_endsNewline t then [] else [LF]) @ data @ [LF]) of
                          (f, ok) \<Rightarrow> (cw, f, if ok then None else Some ErrWrite)))))"

text \<open>
  \<^verbatim>\<open>write\<close> without checkpoints: an append error wins over an error of the unlock.
\<close>

definition cw_write :: "(bytes \<Rightarrow> bytes option) \<Rightarrow> io \<Rightarrow> ChainedWriter \<Rightarrow> efile \<Rightarrow> Event \<Rightarrow>
    ChainedWriter \<times> efile \<times> event_error option" where
  "cw_write jcs env cw f e =
     (case lock_file env f of
        (f, False) \<Rightarrow> (cw, f, Some ErrLock)
      | (f, True) \<Rightarrow>
          (case cw_appendLocked jcs env cw f e of
             (cw, f, err) \<Rightarrow>
               (case unlock_file env f of
                  (f, ok) \<Rightarrow> (cw, f, if \<not> ok \<and> err = None then Some ErrUnlock else err))))"

section \<open>The verifier\<close>

record ChainBreak =
  cb_Line :: nat
  cb_Expected :: string
  cb_Found :: string

record ChainReport =
  cr_Lines :: nat
  cr_Malformed :: nat
  cr_Chained :: nat
  cr_HeadLines :: "nat list"
  cr_Unverifiable :: "nat list"
  cr_Breaks :: "ChainBreak list"

record Restart =
  rs_Line :: nat
  rs_After :: nat

record vstate =
  v_report :: ChainReport
  v_restarts :: "Restart list"
  v_lineNo :: nat
  v_prevHash :: string
  v_prevSeen :: bool
  v_prevKnown :: bool
  v_lastEvent :: nat

definition v_init :: vstate where
  "v_init = \<lparr>v_report = \<lparr>cr_Lines = 0, cr_Malformed = 0, cr_Chained = 0, cr_HeadLines = [], cr_Unverifiable = [],
       cr_Breaks = []\<rparr>, v_restarts = [], v_lineNo = 0, v_prevHash = [], v_prevSeen = False, v_prevKnown = True,
     v_lastEvent = 0\<rparr>"

text \<open>The switch of the loop: how one event's prev_hash is judged.\<close>

definition judge :: "vstate \<Rightarrow> Event \<Rightarrow> nat \<Rightarrow> vstate" where
  "judge st e lastBefore =
     (let r = v_report st; n = v_lineNo st in
      if ev_PrevHash e = [] then
        st\<lparr>v_restarts := (if cr_HeadLines r \<noteq> [] then v_restarts st @ [\<lparr>rs_Line = n, rs_After = lastBefore\<rparr>]
                          else v_restarts st),
           v_report := r\<lparr>cr_HeadLines := cr_HeadLines r @ [n]\<rparr>\<rparr>
      else if \<not> v_prevSeen st \<or> \<not> v_prevKnown st then
        st\<lparr>v_report := r\<lparr>cr_Unverifiable := cr_Unverifiable r @ [n]\<rparr>\<rparr>
      else if ev_PrevHash e = v_prevHash st then
        st\<lparr>v_report := r\<lparr>cr_Chained := cr_Chained r + 1\<rparr>\<rparr>
      else
        st\<lparr>v_report := r\<lparr>cr_Breaks := cr_Breaks r @
          [\<lparr>cb_Line = n, cb_Expected = v_prevHash st, cb_Found = ev_PrevHash e\<rparr>]\<rparr>\<rparr>)"

definition verify_line :: "(bytes \<Rightarrow> bytes option) \<Rightarrow> vstate \<Rightarrow> bytes \<Rightarrow> vstate" where
  "verify_line jcs st tok =
     (let st = st\<lparr>v_lineNo := v_lineNo st + 1\<rparr>; line = TrimSpace tok in
      if line = [] then st
      else
        let st = st\<lparr>v_report := (v_report st)\<lparr>cr_Lines := cr_Lines (v_report st) + 1\<rparr>\<rparr> in
        case Unmarshal line of
          Inl _ \<Rightarrow> st\<lparr>v_report := (v_report st)\<lparr>cr_Malformed := cr_Malformed (v_report st) + 1\<rparr>, v_prevKnown := False\<rparr>
        | Inr e \<Rightarrow>
            let lastBefore = v_lastEvent st;
                st = judge (st\<lparr>v_lastEvent := v_lineNo st\<rparr>) e lastBefore;
                st = st\<lparr>v_prevSeen := True\<rparr>
            in case ChainHashRaw jcs line of
                 Inl _ \<Rightarrow> st\<lparr>v_prevKnown := False\<rparr>
               | Inr h \<Rightarrow> st\<lparr>v_prevHash := h, v_prevKnown := True\<rparr>)"

definition verify_run :: "(bytes \<Rightarrow> bytes option) \<Rightarrow> bytes list \<Rightarrow> vstate" where
  "verify_run jcs ts = foldl (verify_line jcs) v_init ts"

definition verifyChain :: "(bytes \<Rightarrow> bytes option) \<Rightarrow> bytes \<Rightarrow> bool \<Rightarrow> ChainReport \<times> Restart list \<times> event_error option" where
  "verifyChain jcs r rerr =
     (case scan_tokens maxLine r of (ts, long) \<Rightarrow>
        let st = verify_run jcs ts
        in (v_report st, v_restarts st, if long then Some ErrTooLong else if rerr then Some ErrRead else None))"

definition VerifyChain :: "(bytes \<Rightarrow> bytes option) \<Rightarrow> bytes \<Rightarrow> bool \<Rightarrow> ChainReport \<times> event_error option" where
  "VerifyChain jcs r rerr = (case verifyChain jcs r rerr of (rep, rs, err) \<Rightarrow> (rep, err))"

definition VerifyChainRestarts :: "(bytes \<Rightarrow> bytes option) \<Rightarrow> bytes \<Rightarrow> bool \<Rightarrow> ChainReport \<times> Restart list \<times> event_error option" where
  "VerifyChainRestarts jcs r rerr = verifyChain jcs r rerr"

definition cr_Ok :: "ChainReport \<Rightarrow> bool" where
  "cr_Ok r \<longleftrightarrow> length (cr_Breaks r) = 0"

end
