(* ===== verification/Chain_Verify.thy ===== *)
theory Chain_Verify
  imports Event_Chain Json_Prefix
begin

text \<open>
  What the chained writer and the verifier owe each other. The tail the writer chains from is the
  last line the verifier judged; so a write never adds a break, whatever the file held, and any
  number of writers that share a file build one chain.
\<close>

section \<open>The tail is the last line that is not blank\<close>

lemma after_LF_eq: "LF \<notin> set b \<Longrightarrow> after_LF (a @ LF # b) = b"
proof -
  assume "LF \<notin> set b"
  then have "takeWhile (\<lambda>c. c \<noteq> LF) (rev b @ LF # rev a) = rev b"
    by (subst takeWhile_append2) auto
  then show ?thesis by (simp add: after_LF_def)
qed

lemma after_LF_split:
  obtains "LF \<notin> set r" "after_LF r = r" | a where "r = a @ LF # after_LF r" "LF \<notin> set (after_LF r)"
proof (cases "LF \<in> set r")
  case True
  then obtain a b where r: "r = a @ LF # b" "LF \<notin> set b" by (auto dest: split_list_last)
  then have "after_LF r = b" by (simp add: after_LF_eq)
  with r show ?thesis using that(2) by simp
next
  case False
  then have "takeWhile (\<lambda>c. c \<noteq> LF) (rev r) = rev r" by (intro takeWhile_eq_all_conv [THEN iffD2]) auto
  then have "after_LF r = r" by (simp only: after_LF_def rev_rev_ident)
  with False show ?thesis by (rule that(1))
qed

lemma Unmarshal_Nil: "Unmarshal [] = Inl ErrInvalidJSON"
  by (simp add: Unmarshal_def json_event_def parse_json_def lex_json.simps parse_tokens_def)

lemma tail_at_line:
  assumes "tail_at f n = Some t" "t_line t = Some l" "n \<le> length f"
  shows "text_lines f \<noteq> [] \<and> last (text_lines f) = l"
proof -
  define buf where "buf = drop (length f - n) f"
  define r where "r = trim_right buf"
  define b where "b = after_LF r"
  obtain x where x: "f = x @ buf" "n = length f \<Longrightarrow> x = []"
    unfolding buf_def by (metis append_take_drop_id diff_self_eq_0 take0)
  obtain w where w: "blank w" "buf = r @ w" unfolding r_def by (rule trim_right_split)
  have l: "r \<noteq> []" "length r - length b > 0 \<or> n = length f" "l = TrimSpace b" "Unmarshal l \<noteq> Inl ErrInvalidJSON"
    using assms(1,2) unfolding tail_at_def Let_def buf_def [symmetric] r_def [symmetric] b_def [symmetric]
    by (auto split: if_splits sum.splits)
  then have "l \<noteq> []" using Unmarshal_Nil by auto
  have "\<exists>a. r = a @ b \<and> ends_line (x @ a) \<and> LF \<notin> set b"
  proof (cases r rule: after_LF_split)
    case 1
    with l(2) x(2) have "x = []" by (simp add: b_def)
    with 1 show ?thesis by (intro exI [of _ "[]"]) (simp add: b_def ends_line_def)
  next
    case (2 a)
    then show ?thesis unfolding b_def by (intro exI [of _ "a @ [LF]"]) (simp add: ends_line_def)
  qed
  then obtain a where a: "r = a @ b" "ends_line (x @ a)" "LF \<notin> set b" by blast
  have "f = (x @ a) @ (b @ w)" using x(1) w(2) a(1) by simp
  then have "text_lines f = text_lines (x @ a) @ text_lines (b @ w)"
    using text_lines_append [OF a(2)] by metis
  also have "text_lines (b @ w) = [l]"
    using text_lines_blank_suffix [OF a(3) w(1)] l(3) \<open>l \<noteq> []\<close> by simp
  finally show ?thesis by simp
qed

lemma tail_loop_answer: "\<exists>n \<le> length f. tail_at f n = Some (tail_loop f i)"
proof (induction f i rule: tail_loop.induct)
  case (1 f i)
  show ?case
  proof (cases "tail_at f (min (tailChunk * 2 ^ i) (min (length f) resumeWindow))")
    case None
    with "1.IH" show ?thesis by (simp add: tail_loop.simps [of f i])
  next
    case (Some t)
    then show ?thesis
      by (intro exI [of _ "min (tailChunk * 2 ^ i) (min (length f) resumeWindow)"]) (simp add: tail_loop.simps [of f i])
  qed
qed

lemma readTail_line:
  "readTail env f = Inr t \<Longrightarrow> t_line t = Some l \<Longrightarrow> text_lines f \<noteq> [] \<and> last (text_lines f) = l"
  using tail_loop_answer [of f 0] tail_at_line
  by (fastforce simp: readTail_def split: if_splits)

lemma tail_at_newline:
  "tail_at f n = Some t \<Longrightarrow> 0 < n \<Longrightarrow> n \<le> length f \<Longrightarrow> t_endsNewline t \<longleftrightarrow> last f = LF"
  by (auto simp: tail_at_def Let_def last_drop split: if_splits sum.splits)

lemma readTail_newline: "readTail env f = Inr t \<Longrightarrow> t_endsNewline t \<longleftrightarrow> ends_line f"
proof (cases "f = []")
  case False
  assume t: "readTail env f = Inr t"
  obtain n where n: "n \<le> length f" "tail_at f n = Some (tail_loop f 0)" using tail_loop_answer by blast
  have "n \<noteq> 0"
  proof
    assume "n = 0"
    with n(2) False show False by (simp add: tail_at_def Let_def resumeWindow_def after_LF_def)
  qed
  with n t False tail_at_newline [OF n(2)] show ?thesis by (auto simp: readTail_def ends_line_def split: if_splits)
qed (auto simp: readTail_def ends_line_def split: if_splits)

section \<open>The verifier, line by line\<close>

lemma verify_line_drop_cr: "verify_line jcs st (drop_cr p) = verify_line jcs st p"
  by (simp add: verify_line_def)

lemma verify_run_pieces: "verify_run jcs (map drop_cr ps) = verify_run jcs ps"
  unfolding verify_run_def by (induction ps rule: rev_induct) (simp_all add: verify_line_drop_cr)

lemma verify_run_snoc: "verify_run jcs (ps @ [p]) = verify_line jcs (verify_run jcs ps) p"
  by (simp add: verify_run_def)

definition text_of :: "bytes list \<Rightarrow> bytes list" where
  "text_of ps = filter (\<lambda>l. l \<noteq> []) (map TrimSpace ps)"

lemma judge_known [simp]:
  "v_prevHash (judge st e k) = v_prevHash st" "v_prevSeen (judge st e k) = v_prevSeen st"
  "v_prevKnown (judge st e k) = v_prevKnown st" "v_lastEvent (judge st e k) = v_lastEvent st"
  "v_lineNo (judge st e k) = v_lineNo st"
  by (simp_all add: judge_def Let_def)

text \<open>After a well-formed line whose hash can be taken, blank lines aside, the next prev_hash is judged against it.\<close>

lemma verify_knows_last:
  assumes "text_of ps \<noteq> []" "last (text_of ps) = l" "Unmarshal l = Inr e" "ChainHashRaw jcs l = Inr h"
  shows "v_prevSeen (verify_run jcs ps) \<and> v_prevKnown (verify_run jcs ps) \<and> v_prevHash (verify_run jcs ps) = h"
  using assms
proof (induction ps rule: rev_induct)
  case Nil
  then show ?case by (simp add: text_of_def)
next
  case (snoc p ps)
  show ?case
  proof (cases "TrimSpace p = []")
    case True
    with snoc show ?thesis by (simp add: verify_run_snoc verify_line_def Let_def text_of_def)
  next
    case False
    with snoc.prems have "TrimSpace p = l" by (simp add: text_of_def)
    with False snoc.prems show ?thesis by (simp add: verify_run_snoc verify_line_def Let_def)
  qed
qed

lemma text_lines_of: "text_lines f = text_of (pieces f)"
  by (simp add: text_lines_def text_of_def)

section \<open>One more line at the end of a stream\<close>

definition sep_for :: "bytes \<Rightarrow> bytes" where
  "sep_for f = (if ends_line f then [] else [LF])"

lemma pieces_written: "LF \<notin> set data \<Longrightarrow> pieces (f @ sep_for f @ data @ [LF]) = pieces f @ [data]"
  using pieces_append [of f "data @ [LF]"] pieces_close [of f "data @ [LF]"] pieces_line [of data "[]"]
  by (simp add: sep_for_def)

text \<open>The same for a line cut short, or one whose line feed did not land.\<close>

lemma pieces_torn: "LF \<notin> set q \<Longrightarrow> q \<noteq> [] \<Longrightarrow> pieces (f @ sep_for f @ q) = pieces f @ [q]"
  using pieces_append [of f q] pieces_close [of f q] pieces_last [of q] by (simp add: sep_for_def)

lemma pieces_sep: "pieces (f @ sep_for f) = pieces f"
  using pieces_close [of f "[]"] by (simp add: sep_for_def)

lemma verify_added:
  assumes "pieces g = pieces f @ [q]" "verifyChain jcs f False = (rep, rs, err)" "verifyChain jcs g False = (rep', rs', err')"
  shows "(err \<noteq> None \<or> length q \<ge> maxLine \<longrightarrow> rep' = rep \<and> rs' = rs \<and> err' = Some ErrTooLong) \<and>
    (err = None \<and> length q < maxLine \<longrightarrow>
       err' = None \<and> rep = v_report (verify_run jcs (pieces f)) \<and>
       rep' = v_report (verify_line jcs (verify_run jcs (pieces f)) q) \<and>
       rs' = v_restarts (verify_line jcs (verify_run jcs (pieces f)) q))"
proof -
  obtain ts long where ts: "scan_tokens maxLine f = (ts, long)" by (cases "scan_tokens maxLine f")
  then have "\<not> long \<Longrightarrow> verify_run jcs ts = verify_run jcs (pieces f)"
    using cap_tokens_short [of maxLine "pieces f"] by (simp add: scan_tokens_def verify_run_pieces)
  moreover have "scan_tokens maxLine g =
      (if long then (ts, True) else if length q \<ge> maxLine then (ts, True) else (ts @ [drop_cr q], False))"
    using ts by (simp add: scan_tokens_def assms(1) cap_tokens_append)
  ultimately show ?thesis
    using ts assms(2,3) unfolding verifyChain_def
    by (auto simp: Let_def verify_run_snoc verify_line_drop_cr split: if_splits)
qed

section \<open>The line a chained writer appends\<close>

lemma ascii_append: "ascii (s @ t) \<longleftrightarrow> ascii s \<and> ascii t"
  by (simp add: ascii_def)

lemma ascii_hex: "ascii (hex_EncodeToString s)"
proof -
  have "lowerHex c \<Longrightarrow> (of_char c :: nat) < 128" for c by (auto simp: lowerHex_def Let_def split: if_splits)
  then show ?thesis using hex_lower [of s] by (auto simp: ascii_def list_all_iff)
qed

lemma digest_ascii: "ascii (digest c)"
  by (simp add: digest_def ascii_append ascii_hex) (simp add: ascii_def ChainHashPrefix_def)

lemma digest_nonempty: "digest c \<noteq> []"
  by (simp add: digest_def ChainHashPrefix_def)

lemma ChainHashRaw_digest: "ChainHashRaw jcs l = Inr h \<Longrightarrow> \<exists>c. CanonicalizeRaw jcs l = Inr c \<and> h = digest c"
  by (auto simp: ChainHashRaw_def split: sum.splits)

lemma tail_hash_ascii: "ascii (tail_hash jcs t)"
proof (cases "tail_hash jcs t = []")
  case False
  then obtain l where "ChainHashRaw jcs l = Inr (tail_hash jcs t)"
    by (auto simp: tail_hash_def split: option.splits sum.splits)
  then show ?thesis using ChainHashRaw_digest digest_ascii by metis
qed (simp add: ascii_def)

lemma Canonical_parses: "CanonicalizeRaw jcs l = Inr c \<Longrightarrow> parse_json l \<noteq> None"
  by (auto simp: CanonicalizeRaw_def split: option.splits)

text \<open>The verifier reads from the written line the prev_hash the writer stamped.\<close>

lemma stamped_hash:
  assumes "wf_event e" "Marshal (e\<lparr>ev_PrevHash := h\<rparr>) = Inr data" "ChainHashRaw jcs data = Inr k" "ascii h"
  shows "(case Unmarshal data of Inr e' \<Rightarrow> ev_PrevHash e' = h | Inl _ \<Rightarrow> \<not> required_present e)"
proof -
  let ?e = "e\<lparr>ev_PrevHash := h\<rparr>"
  have wf: "wf_event ?e" using assms(1) by (simp add: wf_event_def)
  from assms(2) obtain c where c: "event_doc ?e = Some c" "data = print_json c"
    by (auto simp: Marshal_def split: option.splits)
  have "parse_json data \<noteq> None"
    using assms(3) Canonical_parses by (auto dest: ChainHashRaw_digest)
  with c parse_print_iff [OF event_doc_wf [OF wf c(1)]] have "nesting_ok ?e"
    by (auto simp: nesting_ok_def split: if_splits)
  then obtain d where d: "json_event data = Some (cleaned ?e d)"
    using json_event_Marshal [OF wf _ assms(2)] by blast
  have "required_present (cleaned ?e d) \<longleftrightarrow> required_present e"
    using to_valid_empty by (auto simp: required_present_def cleaned_def eq_commute [of "[]"])
  with d assms(4) show ?thesis
    by (auto simp: cleaned_def to_valid_id ascii_valid Unmarshal_def required_present_def split: sum.splits if_splits)
qed

text \<open>What the verifier's step does with a line whose event carries a given prev_hash.\<close>

lemma verify_line_report:
  assumes "TrimSpace data = data" "data \<noteq> []"
    and "st' = verify_line jcs st data" "r = v_report st" "r' = v_report st'"
  shows "(case Unmarshal data of
      Inl _ \<Rightarrow> r' = r\<lparr>cr_Lines := cr_Lines r + 1, cr_Malformed := cr_Malformed r + 1\<rparr>
    | Inr e \<Rightarrow>
        (if ev_PrevHash e = [] then
           r' = r\<lparr>cr_Lines := cr_Lines r + 1, cr_HeadLines := cr_HeadLines r @ [v_lineNo st + 1]\<rparr>
         else v_prevSeen st \<and> v_prevKnown st \<and> v_prevHash st = ev_PrevHash e \<longrightarrow>
           r' = r\<lparr>cr_Lines := cr_Lines r + 1, cr_Chained := cr_Chained r + 1\<rparr>))"
  using assms by (auto simp: verify_line_def judge_def Let_def split: sum.splits)

text \<open>Every outcome of a write: nothing landed, or a prefix of one line did.\<close>

lemma cw_write_bytes:
  assumes "cw_write jcs env cw f e = (cw', f', r)"
  shows "ef_bytes f' = ef_bytes f \<and> \<not> (r = None \<or> r = Some ErrUnlock) \<or>
    (\<exists>t data k n. readTail env (ef_bytes f) = Inr t \<and> cw_next cw' = tail_hash jcs t \<and>
      Marshal (e\<lparr>ev_PrevHash := tail_hash jcs t\<rparr>) = Inr data \<and> ChainHashRaw jcs data = Inr k \<and>
      ef_bytes f' = ef_bytes f @ take n (sep_for (ef_bytes f) @ data @ [LF]) \<and>
      (r = None \<or> r = Some ErrUnlock \<longrightarrow> length (sep_for (ef_bytes f) @ data @ [LF]) \<le> n))"
proof (cases "io_lock env")
  case False
  with assms show ?thesis by (auto simp: cw_write_def lock_file_def)
next
  case True
  define f1 where "f1 = f\<lparr>ef_locked := True\<rparr>"
  obtain cw1 g r1 where g: "cw_appendLocked jcs env cw f1 e = (cw1, g, r1)"
    by (cases "cw_appendLocked jcs env cw f1 e")
  with True assms have out: "cw' = cw1" "ef_bytes f' = ef_bytes g"
      "r = (if \<not> io_unlock env \<and> r1 = None then Some ErrUnlock else r1)"
    by (auto simp: cw_write_def lock_file_def unlock_file_def f1_def split: if_splits)
  have marshal: "Marshal x = Inl err \<Longrightarrow> err = ErrMarshal" for x err
    by (simp add: Marshal_def split: option.splits)
  have hash: "ChainHashRaw jcs x = Inl err \<Longrightarrow> err = ErrCanonicalize" for x err
    by (auto simp: ChainHashRaw_def CanonicalizeRaw_def run_jcs_def split: option.splits cst.splits sum.splits)
  show ?thesis
  proof (cases "readTail env (ef_bytes f)")
    case (Inl x)
    then have "x = ErrReadTail" by (auto simp: readTail_def split: if_splits)
    with Inl g out show ?thesis by (auto simp: cw_appendLocked_def f1_def)
  next
    case t: (Inr t)
    show ?thesis
    proof (cases "Marshal (e\<lparr>ev_PrevHash := tail_hash jcs t\<rparr>)")
      case (Inl x)
      with marshal t g out show ?thesis by (auto simp: cw_appendLocked_def f1_def Let_def)
    next
      case data: (Inr data)
      show ?thesis
      proof (cases "ChainHashRaw jcs data")
        case (Inl x)
        with hash t g out data show ?thesis by (auto simp: cw_appendLocked_def f1_def Let_def)
      next
        case k: (Inr k)
        define line where "line = sep_for (ef_bytes f) @ data @ [LF]"
        have "(if t_endsNewline t then [] else [LF]) @ data @ [LF] = line"
          using readTail_newline [OF t] by (simp add: line_def sep_for_def)
        with t g data k have w: "cw_next cw1 = tail_hash jcs t"
            "write_file env f1 line = (g, r1 = None)" "r1 = None \<or> r1 = Some ErrWrite"
          by (auto simp: cw_appendLocked_def f1_def Let_def split: prod.splits if_splits)
        then have "\<exists>n. ef_bytes g = ef_bytes f @ take n line \<and> (r1 = None \<longrightarrow> length line \<le> n)"
          by (cases "io_landed env") (auto simp: write_file_def f1_def intro: exI [of _ "length line"])
        then obtain n where "ef_bytes g = ef_bytes f @ take n line" "r1 = None \<longrightarrow> length line \<le> n" by blast
        note n = this
        have landed: "r = None \<or> r = Some ErrUnlock \<longrightarrow> length line \<le> n" using n(2) out(3) w(3) by (auto split: if_splits)
        have next_hash: "cw_next cw' = tail_hash jcs t" using w(1) out(1) by simp
        have bytes: "ef_bytes f' = ef_bytes f @ take n line" using n(1) out(2) by (rule trans [rotated])
        show ?thesis
          by (rule disjI2) (use t next_hash data k bytes landed in \<open>unfold line_def, blast\<close>)
      qed
    qed
  qed
qed

text \<open>The tail's hash is the one the verifier holds after the file's last line.\<close>

lemma tail_hash_known:
  assumes "readTail env f = Inr t" "tail_hash jcs t \<noteq> []"
  shows "v_prevSeen (verify_run jcs (pieces f)) \<and> v_prevKnown (verify_run jcs (pieces f)) \<and>
    v_prevHash (verify_run jcs (pieces f)) = tail_hash jcs t"
proof -
  obtain l where l: "t_line t = Some l" "ChainHashRaw jcs l = Inr (tail_hash jcs t)"
    using assms(2) by (auto simp: tail_hash_def split: option.splits sum.splits)
  have "\<exists>e. Unmarshal l = Inr e"
  proof -
    obtain n where "tail_at f n = Some t"
      using assms(1) l(1) tail_loop_answer [of f 0] by (auto simp: readTail_def split: if_splits)
    with l(1) show ?thesis by (auto simp: tail_at_def Let_def split: if_splits sum.splits)
  qed
  then obtain e where "Unmarshal l = Inr e" by blast
  with readTail_line [OF assms(1) l(1)] l(2) show ?thesis
    by (intro verify_knows_last) (simp_all add: text_lines_of)
qed

text \<open>What a prefix of the line does to the file's pieces.\<close>

lemma torn_pieces:
  assumes "LF \<notin> set data" "g = f @ take n (sep_for f @ data @ [LF])"
  shows "if length (sep_for f @ data @ [LF]) \<le> n then pieces g = pieces f @ [data]
    else pieces g = pieces f \<or> (\<exists>q. prefix q data \<and> q \<noteq> [] \<and> pieces g = pieces f @ [q])"
proof (cases "length (sep_for f @ data @ [LF]) \<le> n")
  case True
  then show ?thesis using pieces_written [OF assms(1), of f] assms(2) by simp
next
  case False
  define m where "m = n - length (sep_for f)"
  have le: "m \<le> length data" using False by (simp add: m_def)
  show ?thesis
  proof (cases "n \<le> length (sep_for f)")
    case True
    then have "take n (sep_for f @ data @ [LF]) = [] \<or> take n (sep_for f @ data @ [LF]) = sep_for f"
      by (cases "ends_line f"; cases n) (auto simp: sep_for_def)
    then have "pieces g = pieces f" using pieces_sep [of f] assms(2) by auto
    with False show ?thesis by simp
  next
    case short: False
    then have "take n (sep_for f @ data @ [LF]) = sep_for f @ take m data" "take m data \<noteq> []"
      using le by (auto simp: m_def)
    moreover have "LF \<notin> set (take m data)" using assms(1) by (auto dest: in_set_takeD)
    ultimately have "pieces g = pieces f @ [take m data]" "take m data \<noteq> []"
      using pieces_torn [of "take m data" f] assms(2) by auto
    with False show ?thesis using take_is_prefix by auto
  qed
qed

text \<open>A line cut short is a malformed line.\<close>

lemma torn_malformed:
  assumes "wf_event e" "Marshal e = Inr data" "ChainHashRaw jcs data = Inr k" "strict_prefix q data" "q \<noteq> []"
  shows "TrimSpace q \<noteq> [] \<and> Unmarshal (TrimSpace q) = Inl ErrInvalidJSON"
proof -
  from assms(2) obtain ms where ms: "event_doc e = Some (CObj ms)" "data = print_json (CObj ms)"
    by (auto simp: Marshal_doc event_doc_def)
  note wf = event_doc_wf [OF assms(1) ms(1)]
  have "parse_json data \<noteq> None"
    using assms(3) Canonical_parses by (auto dest: ChainHashRaw_digest)
  with ms parse_print_iff [OF wf] have deep: "cdepth (CObj ms) \<le> maxNestingDepth" by (auto split: if_splits)
  obtain p where p: "q = CHR ''{'' # p"
    using assms(4,5) Marshal_braces [OF assms(2)] by (cases q) (auto simp: strict_prefix_def)
  have open_brace: "code_at spaces (CHR ''{'' # x) = None" for x by (simp add: code_at_def spaces_def)
  then have "TrimSpace q = trim_right q" by (simp add: p TrimSpace_def trim_left_def strip_codes.simps)
  moreover obtain w where w: "blank w" "q = trim_right q @ w" by (rule trim_right_split)
  ultimately have pre: "prefix (TrimSpace q) q" by (metis prefixI)
  then have "strict_prefix (TrimSpace q) data" using assms(4) by (metis prefix_order.le_less_trans)
  then have "parse_json (TrimSpace q) = None" using prefix_not_document [OF wf deep] ms(2) by blast
  moreover have "TrimSpace q \<noteq> []"
  proof
    assume "TrimSpace q = []"
    then have "blank q" by (rule TrimSpace_empty_blank)
    from trim_left_blank [OF this, of "[]"] open_brace show False by (simp add: p trim_left_def strip_codes.simps [of _ "_ # _"] strip_codes_Nil)
  qed
  ultimately show ?thesis by (simp add: Unmarshal_def json_event_def)
qed

lemma verify_line_malformed:
  assumes "TrimSpace q \<noteq> []" "Unmarshal (TrimSpace q) = Inl x"
  shows "v_report (verify_line jcs st q) =
    (v_report st)\<lparr>cr_Lines := cr_Lines (v_report st) + 1, cr_Malformed := cr_Malformed (v_report st) + 1\<rparr>"
  using assms by (simp add: verify_line_def Let_def)

text \<open>What the report gains from the writer's line, with or without its line feed.\<close>

lemma line_added:
  assumes "wf_event e" "readTail env f = Inr t" "Marshal (e\<lparr>ev_PrevHash := tail_hash jcs t\<rparr>) = Inr data"
    and "ChainHashRaw jcs data = Inr k" "pieces g = pieces f @ [data]"
    and "verifyChain jcs f False = (rep, rs, err)" "verifyChain jcs g False = (rep', rs', err')"
  shows "cr_Breaks rep' = cr_Breaks rep \<and> cr_Unverifiable rep' = cr_Unverifiable rep \<and>
    (err' = None \<and> required_present e \<longrightarrow>
      (\<exists>n. rep' = (if tail_hash jcs t = []
         then rep\<lparr>cr_Lines := cr_Lines rep + 1, cr_HeadLines := cr_HeadLines rep @ [n]\<rparr>
         else rep\<lparr>cr_Lines := cr_Lines rep + 1, cr_Chained := cr_Chained rep + 1\<rparr>)))"
proof (cases "err = None \<and> length data < maxLine")
  case False
  then have "rep' = rep \<and> err' = Some ErrTooLong" using verify_added [OF assms(5-7)] by auto
  then show ?thesis by simp
next
  case True
  then have rep: "rep = v_report (verify_run jcs (pieces f))" "rep' = v_report (verify_line jcs (verify_run jcs (pieces f)) data)"
    using verify_added [OF assms(5-7)] by auto
  have line: "TrimSpace data = data" "data \<noteq> []" using Marshal_trim [OF assms(3)] by auto
  note h = stamped_hash [OF assms(1,3,4) tail_hash_ascii]
  note step = verify_line_report [OF line refl refl refl, of jcs "verify_run jcs (pieces f)"]
  show ?thesis
  proof (cases "Unmarshal data")
    case (Inl x)
    with h step rep show ?thesis by auto
  next
    case (Inr e')
    with h have e': "ev_PrevHash e' = tail_hash jcs t" by simp
    show ?thesis
    proof (cases "tail_hash jcs t = []")
      case True
      with step Inr rep e' show ?thesis by auto
    next
      case False
      with step Inr rep e' tail_hash_known [OF assms(2) False] show ?thesis by auto
    qed
  qed
qed

lemma verifyChain_pieces: "pieces g = pieces f \<Longrightarrow> verifyChain jcs g rerr = verifyChain jcs f rerr"
  by (simp add: verifyChain_def scan_tokens_def)

section \<open>Properties\<close>

text \<open>
  C9. A write never makes a verifier accuse anybody. Whatever the file holds (torn lines, blank
  lines, foreign or malformed lines, a rotated segment) and whatever becomes of the write (refused,
  cut short at any byte, landed, its lock not released), the report over the file afterwards has
  the same breaks and the same unverifiable lines as before. If the whole line landed, the file
  scans to its end and the event has its required fields, the report grows by exactly one line:
  chained to the line before it when the writer found a hash there, a new chain head when it found
  none.
\<close>

theorem cw_write_never_breaks:
  assumes "wf_event e" "cw_write jcs env cw f e = (cw', f', r)"
    and "verifyChain jcs (ef_bytes f) False = (rep, rs, err)" "verifyChain jcs (ef_bytes f') False = (rep', rs', err')"
  shows "cr_Breaks rep' = cr_Breaks rep \<and> cr_Unverifiable rep' = cr_Unverifiable rep \<and>
    ((r = None \<or> r = Some ErrUnlock) \<and> err' = None \<and> required_present e \<longrightarrow>
      (\<exists>n. rep' = (if cw_next cw' = []
         then rep\<lparr>cr_Lines := cr_Lines rep + 1, cr_HeadLines := cr_HeadLines rep @ [n]\<rparr>
         else rep\<lparr>cr_Lines := cr_Lines rep + 1, cr_Chained := cr_Chained rep + 1\<rparr>)))"
proof (cases "ef_bytes f' = ef_bytes f \<and> \<not> (r = None \<or> r = Some ErrUnlock)")
  case True
  with assms(3,4) show ?thesis by auto
next
  case False
  then obtain t data k n where t: "readTail env (ef_bytes f) = Inr t" "cw_next cw' = tail_hash jcs t"
      "Marshal (e\<lparr>ev_PrevHash := tail_hash jcs t\<rparr>) = Inr data" "ChainHashRaw jcs data = Inr k"
      "ef_bytes f' = ef_bytes f @ take n (sep_for (ef_bytes f) @ data @ [LF])"
      "r = None \<or> r = Some ErrUnlock \<longrightarrow> length (sep_for (ef_bytes f) @ data @ [LF]) \<le> n"
    using cw_write_bytes [OF assms(2)] by blast
  have wf: "wf_event (e\<lparr>ev_PrevHash := tail_hash jcs t\<rparr>)" using assms(1) by (simp add: wf_event_def)
  have lf: "LF \<notin> set data" by (intro printable_no_LF Marshal_printable [OF wf t(3)])
  show ?thesis
  proof (cases "length (sep_for (ef_bytes f) @ data @ [LF]) \<le> n")
    case True
    then have "pieces (ef_bytes f') = pieces (ef_bytes f) @ [data]" using torn_pieces [OF lf t(5)] by simp
    from line_added [OF assms(1) t(1,3,4) this assms(3,4)] t(2) show ?thesis by simp
  next
    case False
    with t(6) have r: "\<not> (r = None \<or> r = Some ErrUnlock)" by blast
    from False torn_pieces [OF lf t(5)] consider "pieces (ef_bytes f') = pieces (ef_bytes f)"
      | q where "prefix q data" "q \<noteq> []" "pieces (ef_bytes f') = pieces (ef_bytes f) @ [q]" by auto
    then show ?thesis
    proof cases
      case 1
      then have "verifyChain jcs (ef_bytes f') False = verifyChain jcs (ef_bytes f) False" by (rule verifyChain_pieces)
      with assms(3,4) r show ?thesis by auto
    next
      case (2 q)
      show ?thesis
      proof (cases "q = data")
        case True
        with line_added [OF assms(1) t(1,3,4) _ assms(3,4)] 2(3) r show ?thesis by auto
      next
        case False
        with 2(1) have "strict_prefix q data" by (simp add: strict_prefix_def)
        from verify_line_malformed [OF torn_malformed [OF wf t(3,4) this 2(2), THEN conjunct1]
            torn_malformed [OF wf t(3,4) this 2(2), THEN conjunct2]] r
        show ?thesis using verify_added [OF 2(3) assms(3,4)]
          by (cases "err = None \<and> length q < maxLine") auto
      qed
    qed
  qed
qed

section \<open>Writes that succeed\<close>

lemma ChainHashRaw_written:
  assumes "wf_event e" "nesting_ok e" "Marshal e = Inr data" "\<forall>s. jcs s \<noteq> None"
  shows "\<exists>k. ChainHashRaw jcs data = Inr k"
proof -
  from assms(3) obtain ms where ms: "event_doc e = Some (CObj ms)" "data = print_json (CObj ms)"
    by (auto simp: Marshal_doc event_doc_def)
  then have "parse_json data = Some (CObj ms)"
    using assms(2) parse_print_iff [OF event_doc_wf [OF assms(1) ms(1)]] by (simp add: nesting_ok_def)
  with assms(4) show ?thesis
    by (auto simp: ChainHashRaw_def CanonicalizeRaw_def run_jcs_def split: option.splits)
qed

lemma cw_write_succeeds:
  assumes "io_lock env" "io_landed env = None" "io_unlock env" "readTail env (ef_bytes f) = Inr t"
    and "Marshal (e\<lparr>ev_PrevHash := tail_hash jcs t\<rparr>) = Inr data" "ChainHashRaw jcs data = Inr k"
  shows "cw_write jcs env cw f e =
    (cw\<lparr>cw_next := tail_hash jcs t\<rparr>, \<lparr>ef_bytes = ef_bytes f @ sep_for (ef_bytes f) @ data @ [LF], ef_locked = False\<rparr>, None)"
proof -
  have "(if t_endsNewline t then [] else [LF]) = sep_for (ef_bytes f)"
    using readTail_newline [OF assms(4)] by (simp add: sep_for_def)
  with assms show ?thesis
    by (cases f) (simp add: cw_write_def cw_appendLocked_def lock_file_def unlock_file_def write_file_def Let_def)
qed

definition plain_jcs :: "bytes \<Rightarrow> bytes option" where
  "plain_jcs s = Some s"

definition fresh_writer :: ChainedWriter where
  "fresh_writer = \<lparr>cw_next = [], cw_resumedFrom = []\<rparr>"

definition empty_file :: efile where
  "empty_file = \<lparr>ef_bytes = [], ef_locked = False\<rparr>"

lemma first_write:
  "\<exists>data. Marshal sample_event = Inr data \<and>
     cw_write plain_jcs good_io fresh_writer empty_file sample_event =
       (fresh_writer, \<lparr>ef_bytes = data @ [LF], ef_locked = False\<rparr>, None)"
proof -
  obtain data where data: "Marshal sample_event = Inr data"
    by (auto simp: Marshal_def event_doc_def sample_event_def zero_event_def)
  obtain k where k: "ChainHashRaw plain_jcs data = Inr k"
    using ChainHashRaw_written [OF sample_event_ok(1,4) data, of plain_jcs] by (auto simp: plain_jcs_def)
  have e: "sample_event\<lparr>ev_PrevHash := []\<rparr> = sample_event" by (simp add: sample_event_def zero_event_def)
  have t: "readTail good_io (ef_bytes empty_file) = Inr \<lparr>t_line = None, t_endsNewline = True\<rparr>"
    by (simp add: readTail_def good_io_def empty_file_def)
  show ?thesis
    using cw_write_succeeds [OF _ _ _ t, where e = sample_event and jcs = plain_jcs and data = data and k = k and cw = fresh_writer] data k e
    by (simp add: tail_hash_def good_io_def empty_file_def sep_for_def ends_line_def fresh_writer_def)
qed

theorem cw_write_never_breaks_witness:
  "\<exists>data rep rs err. Marshal sample_event = Inr data \<and> verifyChain plain_jcs (data @ [LF]) False = (rep, rs, err) \<and>
     cr_Breaks rep = [] \<and> cr_Unverifiable rep = []"
proof -
  obtain data where data: "Marshal sample_event = Inr data"
    "cw_write plain_jcs good_io fresh_writer empty_file sample_event =
       (fresh_writer, \<lparr>ef_bytes = data @ [LF], ef_locked = False\<rparr>, None)"
    using first_write by blast
  obtain rep rs err where v: "verifyChain plain_jcs (data @ [LF]) False = (rep, rs, err)" by (metis prod_cases3)
  have "verifyChain plain_jcs (ef_bytes empty_file) False = (v_report v_init, [], None)"
    by (simp add: verifyChain_def scan_tokens_def verify_run_def Let_def v_init_def empty_file_def)
  from cw_write_never_breaks [OF sample_event_ok(1) data(2) this, of rep rs err] v data(1) show ?thesis
    by (simp add: v_init_def)
qed

end
