(* ===== verification/Shared_Stream.thy ===== *)
theory Shared_Stream
  imports Chain_Verify
begin

text \<open>
  Any number of chained writers, in any processes, on one file: \<open>shared\<close> is every file they
  can leave, one write at a time because each holds the file lock, with every way a write can go
  wrong. Two results: such a file never shows a break, and, as long as no write was cut short and no
  line outgrew the window a writer looks back through, it is one chain from its first line.
\<close>

section \<open>The step relation\<close>

definition landed :: "event_error option \<Rightarrow> bool" where
  "landed r \<longleftrightarrow> r = None \<or> r = Some ErrUnlock"

text \<open>
  The file, the events whose writes landed, and whether some write was cut short. Every step is one
  call of \<^verbatim>\<open>Write\<close> by some writer in some state, under some behaviour of the system.
\<close>

inductive shared :: "(bytes \<Rightarrow> bytes option) \<Rightarrow> bytes \<Rightarrow> Event list \<Rightarrow> bool \<Rightarrow> bool" for jcs where
  start: "shared jcs [] [] False"
| step: "shared jcs f es torn \<Longrightarrow> wf_event e \<Longrightarrow>
    cw_write jcs env cw \<lparr>ef_bytes = f, ef_locked = False\<rparr> e = (cw', f', r) \<Longrightarrow>
    shared jcs (ef_bytes f') (if landed r then es @ [e] else es) (torn \<or> \<not> landed r \<and> ef_bytes f' \<noteq> f)"

inductive_cases shared_cases: "shared jcs f es torn"

section \<open>A line that fits is found again\<close>

lemma trim_right_brace: "trim_right (x @ ''}'') = x @ ''}''"
proof -
  have "code_at (map rev spaces) (CHR ''}'' # t) = None" for t
    by (simp add: code_at_def spaces_def)
  then show ?thesis by (simp add: trim_right_def strip_codes.simps)
qed

lemma trim_right_closed: "data = m @ ''}'' \<Longrightarrow> trim_right (x @ data @ [LF]) = x @ data"
proof -
  assume "data = m @ ''}''"
  have "blank [LF]" by (rule blank_single) (simp add: spaces_def)
  from trim_right_blank [OF this, of "x @ data"] trim_right_brace [of "x @ m"] \<open>data = m @ ''}''\<close>
  show ?thesis by simp
qed

lemma after_LF_none: "LF \<notin> set r \<Longrightarrow> after_LF r = r"
  by (cases r rule: after_LF_split) (auto, metis in_set_conv_decomp)

lemma tail_at_fits:
  assumes "f = y @ data @ [LF]" "ends_line y" "data = m @ ''}''" "LF \<notin> set data" "TrimSpace data = data"
    and "Unmarshal data = Inr e" "length data + 2 \<le> resumeWindow"
    and "0 < n" "n \<le> length f" "tail_at f n = Some t"
  shows "t_line t = Some data"
proof -
  define buf where "buf = drop (length f - n) f"
  show ?thesis
  proof (cases "n \<le> length data + 1")
    case False
    define y' where "y' = drop (length f - n) y"
    have le: "length f - n \<le> length y" using False assms(1) by simp
    then have buf: "buf = y' @ data @ [LF]" unfolding buf_def y'_def assms(1) by simp
    have "y' \<noteq> []" using False assms(1,9) by (auto simp: y'_def)
    moreover have "y \<noteq> []" using calculation by (auto simp: y'_def)
    ultimately have "last y' = LF" using assms(2) le by (auto simp: y'_def ends_line_def last_drop)
    with \<open>y' \<noteq> []\<close> obtain z where z: "y' = z @ [LF]" by (metis append_butlast_last_id)
    have r: "trim_right buf = z @ LF # data" using trim_right_closed [OF assms(3), of y'] buf z by simp
    with after_LF_eq [OF assms(4)] assms(5,6,10) show ?thesis
      unfolding tail_at_def Let_def buf_def [symmetric] by (auto split: if_splits)
  next
    case True
    define d where "d = drop (length f - n - length y) data"
    have buf: "buf = d @ [LF]"
      using True assms(1,8) by (auto simp: buf_def d_def)
    have "LF \<notin> set d" using assms(4) by (auto simp: d_def dest: in_set_dropD)
    obtain w where w: "d @ [LF] = trim_right buf @ w" using trim_right_split [of buf] buf by metis
    have "blank [LF]" by (rule blank_single) (simp add: spaces_def)
    then have rd: "trim_right buf = trim_right d" using trim_right_blank buf by blast
    obtain w' where "d = trim_right d @ w'" using trim_right_split [of d] by metis
    with \<open>LF \<notin> set d\<close> have "LF \<notin> set (trim_right buf)" unfolding rd by (metis Un_iff set_append)
    then have after: "after_LF (trim_right buf) = trim_right buf" by (rule after_LF_none)
    show ?thesis
    proof (cases "n = length f")
      case True
      with \<open>n \<le> length data + 1\<close> assms(1) have "y = []" "d = data" by (auto simp: d_def)
      then have "trim_right buf = data" using trim_right_closed [OF assms(3), of "[]"] buf by simp
      moreover have "data \<noteq> []" using assms(3) by simp
      ultimately show ?thesis
        using after assms(5,6,10) True unfolding tail_at_def Let_def buf_def [symmetric] by (auto split: if_splits)
    next
      case False
      moreover have "n \<noteq> resumeWindow" using True assms(7) by simp
      ultimately show ?thesis
        using after assms(10) unfolding tail_at_def Let_def buf_def [symmetric] by (simp split: if_splits)
    qed
  qed
qed

lemma readTail_fits:
  assumes "f = y @ data @ [LF]" "ends_line y" "data = m @ ''}''" "LF \<notin> set data" "TrimSpace data = data"
    and "Unmarshal data = Inr e" "length data + 2 \<le> resumeWindow" "readTail env f = Inr t"
  shows "t_line t = Some data"
proof -
  obtain n where n: "n \<le> length f" "tail_at f n = Some (tail_loop f 0)" using tail_loop_answer by blast
  have "n \<noteq> 0"
  proof
    assume "n = 0"
    with n(2) assms(1) show False by (simp add: tail_at_def Let_def resumeWindow_def after_LF_def)
  qed
  with tail_at_fits [OF assms(1-7) _ n(1,2)] assms(1,8) show ?thesis
    by (auto simp: readTail_def split: if_splits)
qed

section \<open>Clean streams\<close>

text \<open>What a stream of \<open>n\<close> chained lines reports.\<close>

definition one_chain :: "nat \<Rightarrow> ChainReport" where
  "one_chain n = \<lparr>cr_Lines = n, cr_Malformed = 0, cr_Chained = n - 1, cr_HeadLines = (if n = 0 then [] else [1]),
     cr_Unverifiable = [], cr_Breaks = []\<rparr>"

definition last_line_ok :: "(bytes \<Rightarrow> bytes option) \<Rightarrow> bytes \<Rightarrow> bool" where
  "last_line_ok jcs f \<longleftrightarrow>
     (\<exists>y data m e h. f = y @ data @ [LF] \<and> ends_line y \<and> data = m @ ''}'' \<and> LF \<notin> set data \<and> TrimSpace data = data \<and>
        Unmarshal data = Inr e \<and> ChainHashRaw jcs data = Inr h)"

definition clean_stream :: "(bytes \<Rightarrow> bytes option) \<Rightarrow> bytes \<Rightarrow> nat \<Rightarrow> bool" where
  "clean_stream jcs f n \<longleftrightarrow>
     (let st = verify_run jcs (pieces f) in
      ends_line f \<and> v_report st = one_chain n \<and> v_restarts st = [] \<and> v_lineNo st = n \<and>
      (if n = 0 then f = [] else last_line_ok jcs f))"

definition lines_fit :: "bytes \<Rightarrow> bool" where
  "lines_fit f \<longleftrightarrow> (\<forall>p \<in> set (pieces f). length p + 2 \<le> resumeWindow)"

lemma lines_fit_scan: "lines_fit f \<Longrightarrow> snd (scan_tokens maxLine f) = False"
proof -
  have "\<forall>p \<in> set ps. length p + 2 \<le> resumeWindow \<Longrightarrow> snd (cap_tokens maxLine ps) = False" for ps
    by (induction ps) (auto simp: resumeWindow_def maxLine_def split: prod.splits)
  then show "lines_fit f \<Longrightarrow> snd (scan_tokens maxLine f) = False"
    by (simp add: lines_fit_def scan_tokens_def)
qed

lemma verify_line_clean:
  assumes "v_report st = one_chain n" "v_restarts st = []" "v_lineNo st = n"
    and "TrimSpace data = data" "data \<noteq> []" "Unmarshal data = Inr e"
    and "if n = 0 then ev_PrevHash e = [] else ev_PrevHash e \<noteq> [] \<and> v_prevSeen st \<and> v_prevKnown st \<and> v_prevHash st = ev_PrevHash e"
  shows "v_report (verify_line jcs st data) = one_chain (Suc n) \<and> v_restarts (verify_line jcs st data) = [] \<and>
    v_lineNo (verify_line jcs st data) = Suc n"
proof (cases n)
  case 0
  with assms show ?thesis by (auto simp: verify_line_def judge_def one_chain_def Let_def split: sum.splits)
next
  case (Suc k)
  with assms show ?thesis by (auto simp: verify_line_def judge_def one_chain_def Let_def split: sum.splits)
qed

text \<open>One landed write keeps a stream clean.\<close>

lemma clean_write:
  assumes "clean_stream jcs f n" "wf_event e" "required_present e" "lines_fit g"
    and "readTail env f = Inr t" "Marshal (e\<lparr>ev_PrevHash := tail_hash jcs t\<rparr>) = Inr data"
    and "ChainHashRaw jcs data = Inr k" "g = f @ sep_for f @ data @ [LF]"
  shows "clean_stream jcs g (Suc n)"
proof -
  have wf: "wf_event (e\<lparr>ev_PrevHash := tail_hash jcs t\<rparr>)" using assms(2) by (simp add: wf_event_def)
  have lf: "LF \<notin> set data" by (intro printable_no_LF Marshal_printable [OF wf assms(6)])
  have line: "TrimSpace data = data" "data \<noteq> []" using Marshal_trim [OF assms(6)] by auto
  have f: "ends_line f" using assms(1) by (simp add: clean_stream_def Let_def)
  have g: "g = f @ data @ [LF]" "pieces g = pieces f @ [data]"
    using assms(8) f pieces_written [OF lf, of f] by (simp_all add: sep_for_def)
  obtain e' where e': "Unmarshal data = Inr e'" "ev_PrevHash e' = tail_hash jcs t"
    using stamped_hash [OF assms(2,6,7) tail_hash_ascii] assms(3) by (auto split: sum.splits)
  obtain m where m: "data = m @ ''}''" using Marshal_braces [OF assms(6)] by auto
  have tail: "if n = 0 then tail_hash jcs t = [] else tail_hash jcs t \<noteq> []"
  proof (cases "n = 0")
    case True
    with assms(1,5) show ?thesis
      by (auto simp: clean_stream_def Let_def readTail_def tail_hash_def split: if_splits)
  next
    case False
    with assms(1) obtain y d m' x h where d: "f = y @ d @ [LF]" "ends_line y" "d = m' @ ''}''" "LF \<notin> set d"
        "TrimSpace d = d" "Unmarshal d = Inr x" "ChainHashRaw jcs d = Inr h"
      by (auto simp: clean_stream_def Let_def last_line_ok_def)
    have "d \<in> set (pieces g)"
      using pieces_written [OF d(4), of y] d(1,2) g(2) by (simp add: sep_for_def)
    then have "length d + 2 \<le> resumeWindow" using assms(4) by (simp add: lines_fit_def)
    from readTail_fits [OF d(1-6) this assms(5)] d(7) have "tail_hash jcs t = h" by (simp add: tail_hash_def)
    then show ?thesis using False d(7) ChainHashRaw_digest digest_nonempty by metis
  qed
  have known: "n \<noteq> 0 \<Longrightarrow> v_prevSeen (verify_run jcs (pieces f)) \<and> v_prevKnown (verify_run jcs (pieces f)) \<and>
      v_prevHash (verify_run jcs (pieces f)) = tail_hash jcs t"
    using tail_hash_known [OF assms(5)] tail by auto
  have "v_report (verify_run jcs (pieces g)) = one_chain (Suc n) \<and> v_restarts (verify_run jcs (pieces g)) = [] \<and>
      v_lineNo (verify_run jcs (pieces g)) = Suc n"
    unfolding g(2) verify_run_snoc
    by (rule verify_line_clean [OF _ _ _ line e'(1)])
      (use assms(1) e'(2) tail known in \<open>auto simp: clean_stream_def Let_def\<close>)
  moreover have "last_line_ok jcs g"
    unfolding last_line_ok_def using g(1) f m lf line(1) e'(1) assms(7) by blast
  ultimately show ?thesis by (simp add: clean_stream_def Let_def g(1) ends_line_def)
qed

lemma shared_clean:
  "shared jcs f es torn \<Longrightarrow> \<not> torn \<Longrightarrow> list_all required_present es \<Longrightarrow> lines_fit f \<Longrightarrow>
     clean_stream jcs f (length es)"
proof (induction rule: shared.induct)
  case start
  then show ?case
    by (simp add: clean_stream_def verify_run_def v_init_def one_chain_def ends_line_def Let_def)
next
  case (step f es torn e env cw cw' f' r)
  show ?case
  proof (cases "landed r")
    case False
    with step show ?thesis by simp
  next
    case True
    then have "r = None \<or> r = Some ErrUnlock" by (simp add: landed_def)
    with cw_write_bytes [OF step.hyps(3)] obtain t data k n where t: "readTail env f = Inr t"
      "Marshal (e\<lparr>ev_PrevHash := tail_hash jcs t\<rparr>) = Inr data" "ChainHashRaw jcs data = Inr k"
      "ef_bytes f' = f @ take n (sep_for f @ data @ [LF])" "length (sep_for f @ data @ [LF]) \<le> n"
      by auto
    then have g: "ef_bytes f' = f @ sep_for f @ data @ [LF]" by simp
    have "wf_event (e\<lparr>ev_PrevHash := tail_hash jcs t\<rparr>)" using step.hyps(2) by (simp add: wf_event_def)
    then have lf: "LF \<notin> set data" using Marshal_printable [OF _ t(2)] printable_no_LF by blast
    have "lines_fit f"
      using step.prems(3) pieces_written [OF lf, of f] by (simp add: lines_fit_def g)
    with step True have "clean_stream jcs f (length es)" by simp
    from clean_write [OF this step.hyps(2) _ step.prems(3) t(1-3) g] step.prems(2) True show ?thesis by simp
  qed
qed

section \<open>Properties\<close>

text \<open>
  Any writers, any faults, no false accusation. Every file that any number of chained writers can
  leave, in any order of their writes and with any of them refused, cut short or unable to release
  the lock, verifies without a break and without an unverifiable line.
\<close>

theorem shared_never_broken:
  assumes "shared jcs f es torn" "verifyChain jcs f False = (rep, rs, err)"
  shows "cr_Ok rep \<and> cr_Unverifiable rep = []"
  using assms
proof (induction arbitrary: rep rs err rule: shared.induct)
  case start
  then show ?case
    by (auto simp: verifyChain_def scan_tokens_def verify_run_def v_init_def cr_Ok_def Let_def)
next
  case (step f es torn e env cw cw' f' r)
  obtain rep0 rs0 err0 where v: "verifyChain jcs f False = (rep0, rs0, err0)" by (metis prod_cases3)
  with cw_write_never_breaks [OF step.hyps(2,3), of rep0 rs0 err0] step.IH [OF v] step.prems
  show ?case by (simp add: cr_Ok_def)
qed

definition sample_run :: "efile" where
  "sample_run = fst (snd (cw_write plain_jcs good_io fresh_writer empty_file sample_event))"

lemma sample_shared: "shared plain_jcs (ef_bytes sample_run) [sample_event] False"
proof -
  obtain data where "cw_write plain_jcs good_io fresh_writer empty_file sample_event =
       (fresh_writer, \<lparr>ef_bytes = data @ [LF], ef_locked = False\<rparr>, None)"
    using first_write by blast
  with shared.step [OF shared.start sample_event_ok(1), of plain_jcs good_io fresh_writer] show ?thesis
    by (simp add: sample_run_def empty_file_def landed_def)
qed

theorem shared_never_broken_witness:
  "cr_Ok (fst (verifyChain plain_jcs (ef_bytes sample_run) False))"
proof -
  obtain rep rs err where v: "verifyChain plain_jcs (ef_bytes sample_run) False = (rep, rs, err)" by (metis prod_cases3)
  with shared_never_broken [OF sample_shared v] show ?thesis by simp
qed

text \<open>
  C8. Many writers, one chain. If no write was cut short, every event carries its required fields
  and no line outgrew the window a writer looks back through, then the file any number of writers
  built, in whatever order the lock granted them, is one chain: every event whose write landed is
  a line of it, the first is its only head, every other one is chained to the line before it, there
  is no restart and nothing is malformed.
\<close>

theorem shared_one_chain:
  assumes "shared jcs f es False" "list_all required_present es" "lines_fit f"
  shows "verifyChain jcs f False =
    (\<lparr>cr_Lines = length es, cr_Malformed = 0, cr_Chained = length es - 1,
      cr_HeadLines = (if es = [] then [] else [1]), cr_Unverifiable = [], cr_Breaks = []\<rparr>, [], None)"
proof -
  have "clean_stream jcs f (length es)" using shared_clean [OF assms(1) _ assms(2,3)] by simp
  moreover have "scan_tokens maxLine f = (map drop_cr (pieces f), False)"
    using lines_fit_scan [OF assms(3)] cap_tokens_short [of maxLine "pieces f"]
    by (cases "scan_tokens maxLine f") (simp add: scan_tokens_def)
  ultimately show ?thesis
    by (simp add: verifyChain_def Let_def verify_run_pieces clean_stream_def one_chain_def)
qed

theorem shared_one_chain_witness:
  "verifyChain plain_jcs (ef_bytes sample_run) False =
    (\<lparr>cr_Lines = 1, cr_Malformed = 0, cr_Chained = 0, cr_HeadLines = [1], cr_Unverifiable = [], cr_Breaks = []\<rparr>, [], None)"
proof -
  obtain data where data: "Marshal sample_event = Inr data" "cw_write plain_jcs good_io fresh_writer empty_file sample_event =
       (fresh_writer, \<lparr>ef_bytes = data @ [LF], ef_locked = False\<rparr>, None)"
    using first_write by blast
  then have "ef_bytes sample_run = data @ [LF]" by (simp add: sample_run_def)
  moreover have "LF \<notin> set data" by (intro printable_no_LF Marshal_printable [OF sample_event_ok(1) data(1)])
  ultimately have "lines_fit (ef_bytes sample_run)"
    using sample_length [OF data(1)] by (simp add: lines_fit_def pieces_line resumeWindow_def)
  with shared_one_chain [OF sample_shared] show ?thesis by (simp add: sample_event_ok)
qed

end
