(* ===== verification/Tamper.thy ===== *)
theory Tamper
  imports Shared_Stream
begin

text \<open>
  What the chain says about an edited stream, and exactly how far: a changed line is accused at the
  line after it, and at no line further on, because the hash of a line leaves out that line's own
  prev_hash.
\<close>

section \<open>What one line leaves behind\<close>

text \<open>Two verifier states that judge the rest of the stream alike.\<close>

definition same_view :: "vstate \<Rightarrow> vstate \<Rightarrow> bool" where
  "same_view a b \<longleftrightarrow> v_lineNo a = v_lineNo b \<and> v_prevHash a = v_prevHash b \<and> v_prevSeen a = v_prevSeen b \<and>
     v_prevKnown a = v_prevKnown b"

definition breaks_after :: "nat \<Rightarrow> vstate \<Rightarrow> ChainBreak list" where
  "breaks_after k st = filter (\<lambda>x. cb_Line x > k) (cr_Breaks (v_report st))"

lemma judge_breaks:
  "cr_Breaks (v_report (judge st e k)) =
    (if ev_PrevHash e \<noteq> [] \<and> v_prevSeen st \<and> v_prevKnown st \<and> ev_PrevHash e \<noteq> v_prevHash st
     then cr_Breaks (v_report st) @ [\<lparr>cb_Line = v_lineNo st, cb_Expected = v_prevHash st, cb_Found = ev_PrevHash e\<rparr>]
     else cr_Breaks (v_report st))"
  by (simp add: judge_def Let_def)

lemma verify_line_same:
  assumes "same_view a b" "breaks_after k a = breaks_after k b"
  shows "same_view (verify_line jcs a p) (verify_line jcs b p) \<and>
    breaks_after k (verify_line jcs a p) = breaks_after k (verify_line jcs b p)"
proof (cases "TrimSpace p = []")
  case True
  with assms show ?thesis by (simp add: verify_line_def same_view_def breaks_after_def Let_def)
next
  case False
  show ?thesis
  proof (cases "Unmarshal (TrimSpace p)")
    case (Inl x)
    with assms False show ?thesis by (simp add: verify_line_def same_view_def breaks_after_def Let_def)
  next
    case (Inr e)
    show ?thesis
      by (cases "ChainHashRaw jcs (TrimSpace p)")
        (use assms False Inr in \<open>simp_all add: verify_line_def same_view_def breaks_after_def Let_def judge_breaks\<close>)
  qed
qed

lemma verify_run_same:
  assumes "same_view a b" "breaks_after k a = breaks_after k b"
  shows "breaks_after k (foldl (verify_line jcs) a ps) = breaks_after k (foldl (verify_line jcs) b ps)"
  using assms
proof (induction ps arbitrary: a b)
  case (Cons p ps)
  from Cons.IH [of "verify_line jcs a p" "verify_line jcs b p"] verify_line_same [OF Cons.prems, of jcs p]
  show ?case by simp
qed simp

lemma v_lineNo_line [simp]: "v_lineNo (verify_line jcs st p) = v_lineNo st + 1"
  by (simp add: verify_line_def Let_def split: sum.splits)

lemma v_lineNo_run [simp]: "v_lineNo (verify_run jcs ps) = length ps"
  by (induction ps rule: rev_induct) (simp_all add: verify_run_snoc, simp add: verify_run_def v_init_def)

text \<open>Every break so far is on a line already read, and breaks are only ever added.\<close>

lemma verify_line_breaks:
  "\<exists>xs. cr_Breaks (v_report (verify_line jcs st p)) = cr_Breaks (v_report st) @ xs \<and>
     (\<forall>x \<in> set xs. cb_Line x = v_lineNo st + 1)"
  by (auto simp: verify_line_def judge_breaks Let_def split: sum.splits)

lemma verify_run_lines:
  "x \<in> set (cr_Breaks (v_report (verify_run jcs ps))) \<Longrightarrow> cb_Line x \<le> length ps"
proof (induction ps rule: rev_induct)
  case Nil
  then show ?case by (simp add: verify_run_def v_init_def)
next
  case (snoc p ps)
  obtain xs where "cr_Breaks (v_report (verify_line jcs (verify_run jcs ps) p)) =
      cr_Breaks (v_report (verify_run jcs ps)) @ xs" "\<forall>x \<in> set xs. cb_Line x = length ps + 1"
    using verify_line_breaks [of jcs "verify_run jcs ps" p] by auto
  with snoc show ?case by (auto simp: verify_run_snoc)
qed

lemma breaks_kept:
  "x \<in> set (cr_Breaks (v_report st)) \<Longrightarrow> x \<in> set (cr_Breaks (v_report (foldl (verify_line jcs) st ps)))"
proof (induction ps arbitrary: st)
  case (Cons p ps)
  have "x \<in> set (cr_Breaks (v_report (verify_line jcs st p)))"
    using Cons.prems verify_line_breaks [of jcs st p] by auto
  with Cons.IH show ?case by simp
qed simp

text \<open>A well-formed line with a hash: the next line is judged against that hash alone.\<close>

lemma verify_line_view:
  assumes "TrimSpace p = l" "l \<noteq> []" "Unmarshal l = Inr e" "ChainHashRaw jcs l = Inr h"
  shows "v_prevHash (verify_line jcs st p) = h \<and> v_prevSeen (verify_line jcs st p) \<and> v_prevKnown (verify_line jcs st p)"
  using assms by (simp add: verify_line_def Let_def)

definition hashed_line :: "(bytes \<Rightarrow> bytes option) \<Rightarrow> bytes \<Rightarrow> Event \<Rightarrow> string \<Rightarrow> bool" where
  "hashed_line jcs p e h \<longleftrightarrow> Unmarshal (TrimSpace p) = Inr e \<and> ChainHashRaw jcs (TrimSpace p) = Inr h"

lemma hashed_line_nonempty: "hashed_line jcs p e h \<Longrightarrow> TrimSpace p \<noteq> []"
  using Unmarshal_Nil by (auto simp: hashed_line_def)

text \<open>Equal hashes: the same canonical form, or two inputs SHA-256 sends to one digest.\<close>

definition sha256_collision :: "bytes \<Rightarrow> bytes \<Rightarrow> bool" where
  "sha256_collision x y \<longleftrightarrow> x \<noteq> y \<and> sha256 x = sha256 y"

lemma digest_eq: "digest x = digest y \<Longrightarrow> x = y \<or> sha256_collision x y"
  by (auto simp: digest_def hex_inj sha256_collision_def)

section \<open>A concrete stream\<close>

definition quoted :: "string \<Rightarrow> string" where
  "quoted s = CHR 0x22 # s @ [CHR 0x22]"

definition line_at :: "string \<Rightarrow> string" where
  "line_at ts = ''{'' @ quoted ''schema'' @ '':'' @ quoted ''v'' @ '','' @ quoted ''ts'' @ '':'' @ quoted ts @ '','' @
     quoted ''source'' @ '':'' @ quoted ''s'' @ '','' @ quoted ''type'' @ '':'' @ quoted ''a'' @ '','' @
     quoted ''agent_id'' @ '':'' @ quoted ''b'' @ ''}''"

lemma line_at_event:
  "\<exists>e. Unmarshal (TrimSpace (line_at ''t'')) = Inr e" "\<exists>e. Unmarshal (TrimSpace (line_at ''u'')) = Inr e"
proof -
  have "Unmarshal (TrimSpace (line_at ''t'')) \<noteq> Inl ErrInvalidJSON \<and> isl (Unmarshal (TrimSpace (line_at ''t''))) = False" by code_simp
  then show "\<exists>e. Unmarshal (TrimSpace (line_at ''t'')) = Inr e" by (cases "Unmarshal (TrimSpace (line_at ''t''))") auto
  have "isl (Unmarshal (TrimSpace (line_at ''u''))) = False" by code_simp
  then show "\<exists>e. Unmarshal (TrimSpace (line_at ''u'')) = Inr e" by (cases "Unmarshal (TrimSpace (line_at ''u''))") auto
qed

lemma line_at_canonical:
  "\<exists>x y. CanonicalizeRaw plain_jcs (TrimSpace (line_at ''t'')) = Inr x \<and>
     CanonicalizeRaw plain_jcs (TrimSpace (line_at ''u'')) = Inr y \<and> x \<noteq> y"
proof -
  have "isl (CanonicalizeRaw plain_jcs (TrimSpace (line_at ''t''))) = False" by code_simp
  moreover have "isl (CanonicalizeRaw plain_jcs (TrimSpace (line_at ''u''))) = False" by code_simp
  moreover have "CanonicalizeRaw plain_jcs (TrimSpace (line_at ''t'')) \<noteq> CanonicalizeRaw plain_jcs (TrimSpace (line_at ''u''))"
    by code_simp
  ultimately show ?thesis
    by (cases "CanonicalizeRaw plain_jcs (TrimSpace (line_at ''t''))";
        cases "CanonicalizeRaw plain_jcs (TrimSpace (line_at ''u''))") auto
qed

lemma line_at_shape: "LF \<notin> set (line_at ''t'')" "LF \<notin> set (line_at ''u'')" "length (line_at ''t'') < 100" "length (line_at ''u'') < 100"
  by code_simp+

section \<open>Properties\<close>

text \<open>
  C10. An edit is accused at the next line, and only there. Take a stream whose line \<open>b\<close> carries
  the hash of the line \<open>l\<close> before it, and replace \<open>l\<close> by another event line. Unless the
  two have the same canonical form (or collide under SHA-256), the verifier reports a break at
  \<open>b\<close>, naming the hash \<open>b\<close> carries and the one it should; and on all the lines after
  \<open>b\<close> the two streams have exactly the same breaks.
\<close>

theorem edit_breaks_next_line:
  assumes "hashed_line jcs l el hl" "hashed_line jcs l' el' hl'" "hashed_line jcs b eb hb" "ev_PrevHash eb = hl"
    and "CanonicalizeRaw jcs (TrimSpace l) = Inr x" "CanonicalizeRaw jcs (TrimSpace l') = Inr x'" "x \<noteq> x'"
    and "verifyChain jcs f False = (rep, rs, None)" "pieces f = pre @ l # b # post"
    and "verifyChain jcs g False = (rep', rs', None)" "pieces g = pre @ l' # b # post"
  shows "(sha256_collision x x' \<or> \<lparr>cb_Line = length pre + 2, cb_Expected = hl', cb_Found = hl\<rparr> \<in> set (cr_Breaks rep')) \<and>
    filter (\<lambda>c. cb_Line c > length pre + 2) (cr_Breaks rep') = filter (\<lambda>c. cb_Line c > length pre + 2) (cr_Breaks rep)"
proof -
  have run: "verifyChain jcs s False = (r, q, None) \<Longrightarrow> r = v_report (verify_run jcs (pieces s))" for s r q
    using cap_tokens_short [of maxLine "pieces s"]
    by (auto simp: verifyChain_def scan_tokens_def verify_run_pieces Let_def split: prod.splits if_splits)
  define s where "s = verify_line jcs (verify_run jcs pre) l"
  define s' where "s' = verify_line jcs (verify_run jcs pre) l'"
  have rep: "rep = v_report (foldl (verify_line jcs) (verify_line jcs s b) post)"
    using run [OF assms(8)] by (simp add: assms(9) s_def verify_run_def)
  have rep': "rep' = v_report (foldl (verify_line jcs) (verify_line jcs s' b) post)"
    using run [OF assms(10)] by (simp add: assms(11) s'_def verify_run_def)
  note vs = verify_line_view [OF refl hashed_line_nonempty]
  have view: "v_prevHash s' = hl'" "v_prevSeen s'" "v_prevKnown s'"
    using vs [OF assms(2)] assms(2) by (simp_all add: s'_def hashed_line_def)
  have bview: "v_prevHash (verify_line jcs t b) = hb \<and> v_prevSeen (verify_line jcs t b) \<and> v_prevKnown (verify_line jcs t b)" for t
    using vs [OF assms(3)] assms(3) by (simp add: hashed_line_def)
  have no: "v_lineNo s = length pre + 1" "v_lineNo s' = length pre + 1" by (simp_all add: s_def s'_def)
  have hl: "hl = digest x" "hl' = digest x'"
    using assms(1,2,5,6) by (auto simp: hashed_line_def ChainHashRaw_def)
  have "sha256_collision x x' \<or> \<lparr>cb_Line = length pre + 2, cb_Expected = hl', cb_Found = hl\<rparr> \<in> set (cr_Breaks rep')"
  proof (cases "hl = hl'")
    case True
    then show ?thesis using digest_eq hl assms(7) by blast
  next
    case False
    then have "\<lparr>cb_Line = length pre + 2, cb_Expected = hl', cb_Found = hl\<rparr> \<in> set (cr_Breaks (v_report (verify_line jcs s' b)))"
      using assms(3,4) view no(2) hl(1) digest_nonempty hashed_line_nonempty [OF assms(3)]
      by (auto simp: verify_line_def judge_def hashed_line_def Let_def)
    then show ?thesis unfolding rep' by (intro disjI2 breaks_kept)
  qed
  moreover have "breaks_after (length pre + 2) (verify_line jcs t b) = []" if "t = s \<or> t = s'" for t
    using that verify_run_lines [of _ jcs "pre @ [l, b]"] verify_run_lines [of _ jcs "pre @ [l', b]"]
    by (fastforce simp: breaks_after_def filter_empty_conv s_def s'_def verify_run_def)
  then have "breaks_after (length pre + 2) (foldl (verify_line jcs) (verify_line jcs s' b) post) =
      breaks_after (length pre + 2) (foldl (verify_line jcs) (verify_line jcs s b) post)"
    by (intro verify_run_same) (simp_all add: same_view_def bview no)
  ultimately show ?thesis by (simp add: rep rep' breaks_after_def)
qed

theorem edit_breaks_next_line_witness:
  "\<exists>g rep rs x y. verifyChain plain_jcs g False = (rep, rs, None) \<and> (sha256_collision x y \<or> cr_Breaks rep \<noteq> [])"
proof -
  obtain x y where xy: "CanonicalizeRaw plain_jcs (TrimSpace (line_at ''t'')) = Inr x"
    "CanonicalizeRaw plain_jcs (TrimSpace (line_at ''u'')) = Inr y" "x \<noteq> y"
    using line_at_canonical by blast
  obtain et eu where e: "Unmarshal (TrimSpace (line_at ''t'')) = Inr et" "Unmarshal (TrimSpace (line_at ''u'')) = Inr eu"
    using line_at_event by blast
  then have t: "hashed_line plain_jcs (line_at ''t'') et (digest x)" and u: "hashed_line plain_jcs (line_at ''u'') eu (digest y)"
    using xy by (simp_all add: hashed_line_def ChainHashRaw_def)
  define eb where "eb = sample_event\<lparr>ev_PrevHash := digest x\<rparr>"
  have wf: "wf_event eb" "nesting_ok eb"
    using sample_event_ok
    by (simp_all add: eb_def wf_event_def nesting_ok_def event_doc_def event_members_def omit_empty_def str_member_def
        sample_event_def zero_event_def maxNestingDepth_def)
  obtain b where b: "Marshal eb = Inr b"
    by (auto simp: eb_def Marshal_def event_doc_def sample_event_def zero_event_def)
  obtain k where k: "ChainHashRaw plain_jcs b = Inr k"
    using ChainHashRaw_written [OF wf b, of plain_jcs] by (auto simp: plain_jcs_def)
  have trim: "TrimSpace b = b" using Marshal_trim [OF b] by simp
  obtain e' where e': "Unmarshal b = Inr e'" "ev_PrevHash e' = digest x"
    using stamped_hash [OF sample_event_ok(1) b [unfolded eb_def] k digest_ascii] sample_event_ok(3)
    by (auto split: sum.splits)
  have hb: "hashed_line plain_jcs b e' k" using e' k trim by (simp add: hashed_line_def)
  have lf: "LF \<notin> set b" by (intro printable_no_LF Marshal_printable [OF wf(1) b])
  have len: "length b < maxLine"
    using sample_length_hash [OF b [unfolded eb_def]] by (simp add: maxLine_def digest_def ChainHashPrefix_def)
  have pieces: "pieces (p @ LF # b @ [LF]) = [p, b]" if "LF \<notin> set p" for p
    using that lf pieces_line [of b "[]"] by (simp add: pieces_line)
  have ends: "\<exists>rep rs. verifyChain plain_jcs (p @ LF # b @ [LF]) False = (rep, rs, None)" if "LF \<notin> set p" "length p < 100" for p
    using that len by (auto simp: verifyChain_def scan_tokens_def pieces Let_def maxLine_def split: prod.splits)
  obtain rep rs rep' rs' where v: "verifyChain plain_jcs (line_at ''t'' @ LF # b @ [LF]) False = (rep, rs, None)"
    "verifyChain plain_jcs (line_at ''u'' @ LF # b @ [LF]) False = (rep', rs', None)"
    using ends line_at_shape by meson
  have "sha256_collision x y \<or> cr_Breaks rep' \<noteq> []"
    using edit_breaks_next_line [OF t u hb e'(2) xy v(1) _ v(2), of "[]" "[]"] pieces line_at_shape by auto
  with v(2) show ?thesis by blast
qed

end
