(* ===== verification/Line_Scanner.thy ===== *)
theory Line_Scanner
  imports Lines
begin

text \<open>
  The \<^verbatim>\<open>lineScanner\<close> of event/scan.go, which reads a stream once, hashes every byte of
  it and calls back at every line feed. A hash.Hash is what was written to it since its last reset,
  so \<open>ls_sum\<close> is that byte string and a marshalled state is one too. The reader is the list of
  chunks its \<^verbatim>\<open>Read\<close> calls return; the result does not depend on where they are cut.
\<close>

section \<open>State and steps\<close>

record lineScanner =
  ls_sum :: bytes
  ls_maxLen :: nat
  ls_keep :: bool
  ls_cur :: bytes
  ls_long :: bool
  ls_pos :: nat
  ls_off :: nat
  ls_lines :: nat
  ls_last :: "bytes option"
  ls_partial :: bool

definition newLineScanner :: "bytes \<Rightarrow> nat \<Rightarrow> bytes option \<Rightarrow> nat \<Rightarrow> nat \<Rightarrow> bool \<Rightarrow> lineScanner" where
  "newLineScanner h off state lines maxLen keep =
     \<lparr>ls_sum = h, ls_maxLen = maxLen, ls_keep = keep, ls_cur = [], ls_long = False, ls_pos = off, ls_off = off,
      ls_lines = lines, ls_last = state, ls_partial = False\<rparr>"

definition ls_add :: "lineScanner \<Rightarrow> bytes \<Rightarrow> lineScanner" where
  "ls_add s b =
     (if ls_long s then s
      else if length (ls_cur s) + length b > ls_maxLen s then s\<lparr>ls_long := True, ls_cur := []\<rparr>
      else s\<lparr>ls_cur := ls_cur s @ b\<rparr>)"

definition ls_write :: "lineScanner \<Rightarrow> bytes \<Rightarrow> lineScanner" where
  "ls_write s b = s\<lparr>ls_sum := ls_sum s @ b, ls_pos := ls_pos s + length b\<rparr>"

text \<open>What happens at a line feed, up to the callback: the line, whether it was too long, the new state.\<close>

definition ls_line :: "lineScanner \<Rightarrow> bytes \<Rightarrow> bytes \<times> bool \<times> lineScanner" where
  "ls_line s seg =
     (let s = ls_write s (seg @ [LF]);
          s = ls_add s seg;
          s = s\<lparr>ls_off := ls_pos s, ls_partial := False\<rparr>;
          s = (if ls_keep s then s\<lparr>ls_last := Some (ls_sum s)\<rparr> else s)
      in (ls_cur s, ls_long s, s\<lparr>ls_cur := [], ls_long := False, ls_lines := ls_lines s + 1\<rparr>))"

text \<open>Bytes with no line feed among them.\<close>

definition ls_rest :: "lineScanner \<Rightarrow> bytes \<Rightarrow> lineScanner" where
  "ls_rest s p = (ls_add (ls_write s p) p)\<lparr>ls_partial := True\<rparr>"

type_synonym ('w, 'e) emitter = "bytes \<Rightarrow> bool \<Rightarrow> nat \<Rightarrow> lineScanner \<Rightarrow> 'w \<Rightarrow> 'w \<times> 'e option"

text \<open>The inner loop, over one chunk; \<open>seg\<close> collects the bytes since the last line feed in it.\<close>

fun ls_feed :: "('w, 'e) emitter \<Rightarrow> bytes \<Rightarrow> lineScanner \<Rightarrow> bytes \<Rightarrow> 'w \<Rightarrow> lineScanner \<times> 'w \<times> 'e option" where
  "ls_feed emit seg s [] w = (if seg = [] then (s, w, None) else (ls_rest s seg, w, None))"
| "ls_feed emit seg s (c # p) w =
     (if c = LF then
        (case ls_line s seg of
           (line, long, s') \<Rightarrow>
             (case emit line long (ls_off s') s' w of
                (w', Some err) \<Rightarrow> (s', w', Some err)
              | (w', None) \<Rightarrow> ls_feed emit [] s' p w'))
      else ls_feed emit (seg @ [c]) s p w)"

text \<open>\<^verbatim>\<open>run\<close>: the chunks, and the error the reader ends with when it is not the end of the file.\<close>

fun ls_run :: "('w, 'e) emitter \<Rightarrow> lineScanner \<Rightarrow> bytes list \<Rightarrow> 'e option \<Rightarrow> 'w \<Rightarrow> lineScanner \<times> 'w \<times> 'e option" where
  "ls_run emit s [] rerr w = (s, w, rerr)"
| "ls_run emit s (p # ps) rerr w =
     (case ls_feed emit [] s p w of
        (s', w', Some err) \<Rightarrow> (s', w', Some err)
      | (s', w', None) \<Rightarrow> ls_run emit s' ps rerr w')"

definition ls_settle :: "lineScanner \<Rightarrow> lineScanner" where
  "ls_settle s =
     (if \<not> ls_partial s then s
      else s\<lparr>ls_partial := False, ls_sum := (case ls_last s of None \<Rightarrow> [] | Some b \<Rightarrow> b)\<rparr>)"

section \<open>The cut between two chunks does not matter\<close>

lemma ls_add_fields [simp]:
  "ls_sum (ls_add s b) = ls_sum s" "ls_maxLen (ls_add s b) = ls_maxLen s" "ls_keep (ls_add s b) = ls_keep s"
  "ls_pos (ls_add s b) = ls_pos s" "ls_off (ls_add s b) = ls_off s" "ls_lines (ls_add s b) = ls_lines s"
  "ls_last (ls_add s b) = ls_last s" "ls_partial (ls_add s b) = ls_partial s"
  by (simp_all add: ls_add_def)

lemma ls_add_append: "ls_cur s = [] \<or> \<not> ls_long s \<Longrightarrow> ls_add (ls_add s a) b = ls_add s (a @ b)"
  by (cases s) (auto simp: ls_add_def)

lemma ls_rest_append:
  "ls_rest (ls_rest s a) b = ls_rest s (a @ b)"
  by (cases s) (auto simp: ls_rest_def ls_write_def ls_add_def)

lemma ls_line_eq:
  "ls_line s seg = (ls_cur (ls_add s seg), ls_long (ls_add s seg),
     s\<lparr>ls_sum := ls_sum s @ seg @ [LF], ls_pos := ls_pos s + (length seg + 1), ls_off := ls_pos s + (length seg + 1),
       ls_partial := False, ls_last := (if ls_keep s then Some (ls_sum s @ seg @ [LF]) else ls_last s),
       ls_cur := [], ls_long := False, ls_lines := ls_lines s + 1\<rparr>)"
  by (simp add: ls_line_def Let_def ls_add_def ls_write_def)

lemma ls_add_rest:
  "ls_cur (ls_add (ls_rest s a) b) = ls_cur (ls_add s (a @ b))"
  "ls_long (ls_add (ls_rest s a) b) = ls_long (ls_add s (a @ b))"
  by (auto simp: ls_rest_def ls_add_def ls_write_def)

lemma ls_rest_fields [simp]:
  "ls_sum (ls_rest s a) = ls_sum s @ a" "ls_pos (ls_rest s a) = ls_pos s + length a" "ls_keep (ls_rest s a) = ls_keep s"
  "ls_lines (ls_rest s a) = ls_lines s" "ls_last (ls_rest s a) = ls_last s" "ls_off (ls_rest s a) = ls_off s"
  "ls_partial (ls_rest s a) = True" "ls_maxLen (ls_rest s a) = ls_maxLen s"
  by (simp_all add: ls_rest_def ls_write_def)

lemma ls_line_rest: "ls_line (ls_rest s a) b = ls_line s (a @ b)"
  unfolding ls_line_eq ls_add_rest by (simp add: ls_rest_def ls_write_def ls_add_def algebra_simps)

definition ls_catch :: "lineScanner \<Rightarrow> bytes \<Rightarrow> lineScanner" where
  "ls_catch s seg = (if seg = [] then s else ls_rest s seg)"

lemma ls_feed_catch: "ls_feed emit seg (ls_catch s a) p w = ls_feed emit (a @ seg) s p w"
proof (induction p arbitrary: seg s a w)
  case Nil
  then show ?case by (simp add: ls_catch_def ls_rest_append)
next
  case (Cons c p)
  have "ls_line (ls_catch s a) seg = ls_line s (a @ seg)" by (simp add: ls_catch_def ls_line_rest)
  with Cons.IH [of "seg @ [c]" s a] show ?case by simp
qed

lemma ls_feed_append:
  "ls_feed emit seg s (p @ q) w =
     (case ls_feed emit seg s p w of
        (s', w', Some err) \<Rightarrow> (s', w', Some err)
      | (s', w', None) \<Rightarrow> ls_feed emit [] s' q w')"
proof (induction p arbitrary: seg s w)
  case Nil
  show ?case using ls_feed_catch [of emit "[]" s seg q w] by (cases "seg = []") (simp_all add: ls_catch_def)
next
  case (Cons c p)
  then show ?case by (auto split: prod.splits option.splits)
qed

section \<open>What a whole run does\<close>

text \<open>The lines of a stream that end in a line feed, and the bytes after the last one.\<close>

fun full_lines :: "bytes \<Rightarrow> bytes \<Rightarrow> bytes list \<times> bytes" where
  "full_lines seg [] = ([], seg)"
| "full_lines seg (c # p) =
     (if c = LF then (case full_lines [] p of (ls, r) \<Rightarrow> (seg # ls, r)) else full_lines (seg @ [c]) p)"

lemma full_lines_concat: "full_lines seg p = (ls, r) \<Longrightarrow> seg @ p = concat (map (\<lambda>l. l @ [LF]) ls) @ r"
  by (induction seg p arbitrary: ls r rule: full_lines.induct) (auto split: if_splits prod.splits)

lemma full_lines_append:
  "full_lines seg (p @ q) = (case full_lines seg p of (ls, r) \<Rightarrow> case full_lines r q of (ks, t) \<Rightarrow> (ls @ ks, t))"
  by (induction seg p rule: full_lines.induct) (auto split: prod.splits)

lemma full_lines_line: "LF \<notin> set p \<Longrightarrow> full_lines seg (p @ LF # q) = (case full_lines [] q of (ls, r) \<Rightarrow> ((seg @ p) # ls, r))"
  by (induction p arbitrary: seg) auto

definition ends_at :: "bytes \<Rightarrow> bytes list \<Rightarrow> bytes" where
  "ends_at base ls = base @ concat (map (\<lambda>l. l @ [LF]) ls)"

text \<open>Calling back line by line, with the hash input exactly the bytes through the line's feed.\<close>

fun emit_all :: "nat \<Rightarrow> bool \<Rightarrow> ('w, 'e) emitter \<Rightarrow> lineScanner \<Rightarrow> bytes list \<Rightarrow> 'w \<Rightarrow> lineScanner \<times> 'w \<times> 'e option" where
  "emit_all cap keep emit s [] w = (s, w, None)"
| "emit_all cap keep emit s (l # ls) w =
     (let s' = s\<lparr>ls_sum := ls_sum s @ l @ [LF], ls_pos := ls_pos s + length l + 1, ls_off := ls_pos s + length l + 1,
            ls_lines := ls_lines s + 1, ls_last := (if keep then Some (ls_sum s @ l @ [LF]) else ls_last s)\<rparr>
      in case emit (if length l > cap then [] else l) (length l > cap) (ls_off s') s' w of
           (w', Some err) \<Rightarrow> (s', w', Some err)
         | (w', None) \<Rightarrow> emit_all cap keep emit s' ls w')"

definition at_line :: "lineScanner \<Rightarrow> bool" where
  "at_line s \<longleftrightarrow> ls_cur s = [] \<and> \<not> ls_long s \<and> \<not> ls_partial s \<and> ls_off s = ls_pos s"

lemma ls_line_at:
  assumes "at_line s"
  shows "ls_line s l = (if length l > ls_maxLen s then [] else l, length l > ls_maxLen s,
    s\<lparr>ls_sum := ls_sum s @ l @ [LF], ls_pos := ls_pos s + length l + 1, ls_off := ls_pos s + length l + 1,
      ls_lines := ls_lines s + 1, ls_last := (if ls_keep s then Some (ls_sum s @ l @ [LF]) else ls_last s)\<rparr>)"
  using assms by (simp add: ls_line_eq ls_add_def at_line_def)

lemma ls_feed_lines:
  "at_line s \<Longrightarrow> full_lines seg p = (ls, r) \<Longrightarrow>
     ls_feed emit seg s p w =
       (case emit_all (ls_maxLen s) (ls_keep s) emit s ls w of
          (s', w', Some err) \<Rightarrow> (s', w', Some err)
        | (s', w', None) \<Rightarrow> (ls_catch s' r, w', None))"
proof (induction seg p arbitrary: s ls w rule: full_lines.induct)
  case (1 seg)
  then show ?case by (simp add: ls_catch_def)
next
  case (2 seg c p)
  show ?case
  proof (cases "c = LF")
    case False
    with 2 show ?thesis by simp
  next
    case True
    with "2.prems"(2) obtain ks where ks: "ls = seg # ks" "full_lines [] p = (ks, r)"
      by (auto split: prod.splits)
    define s' where "s' = s\<lparr>ls_sum := ls_sum s @ seg @ [LF], ls_pos := ls_pos s + length seg + 1,
      ls_off := ls_pos s + length seg + 1, ls_lines := ls_lines s + 1,
      ls_last := (if ls_keep s then Some (ls_sum s @ seg @ [LF]) else ls_last s)\<rparr>"
    have line: "ls_line s seg = (if length seg > ls_maxLen s then [] else seg, length seg > ls_maxLen s, s')"
      unfolding s'_def by (rule ls_line_at [OF "2.prems"(1)])
    have s': "at_line s'" "ls_maxLen s' = ls_maxLen s" "ls_keep s' = ls_keep s"
      using "2.prems"(1) by (auto simp: s'_def at_line_def)
    note IH = "2.IH"(1) [OF True s'(1) ks(2), unfolded s'(2,3)]
    obtain w' r' where e: "emit (if length seg > ls_maxLen s then [] else seg) (length seg > ls_maxLen s) (ls_off s') s' w = (w', r')"
      by (metis surj_pair)
    have all: "emit_all (ls_maxLen s) (ls_keep s) emit s (seg # ks) w =
        (case r' of Some err \<Rightarrow> (s', w', Some err) | None \<Rightarrow> emit_all (ls_maxLen s) (ls_keep s) emit s' ks w')"
      unfolding emit_all.simps Let_def s'_def [symmetric] e by (simp split: option.split)
    show ?thesis
      unfolding ks(1) all using True by (cases r') (simp_all add: line e IH)
  qed
qed

lemma ls_run_feed:
  "ls_run emit s ps rerr w =
     (case ls_feed emit [] s (concat ps) w of
        (s', w', Some err) \<Rightarrow> (s', w', Some err)
      | (s', w', None) \<Rightarrow> (s', w', rerr))"
proof (induction ps arbitrary: s w)
  case (Cons p ps)
  then show ?case by (auto simp: ls_feed_append split: prod.splits option.splits)
qed simp

section \<open>Where a run leaves the scanner\<close>

definition lines_text :: "bytes list \<Rightarrow> bytes" where
  "lines_text ls = concat (map (\<lambda>l. l @ [LF]) ls)"

lemma lines_text_simps [simp]: "lines_text [] = []" "lines_text (l # ls) = l @ LF # lines_text ls"
  by (simp_all add: lines_text_def)

lemma emit_all_state:
  "emit_all cap keep emit s ls w = (s', w', None) \<Longrightarrow>
     s' = (if ls = [] then s
           else s\<lparr>ls_sum := ls_sum s @ lines_text ls, ls_pos := ls_pos s + length (lines_text ls),
             ls_off := ls_pos s + length (lines_text ls), ls_lines := ls_lines s + length ls,
             ls_last := (if keep then Some (ls_sum s @ lines_text ls) else ls_last s)\<rparr>)"
proof (induction ls arbitrary: s w)
  case (Cons l ls)
  from Cons.prems obtain w1 where w1: "emit_all cap keep emit (s\<lparr>ls_sum := ls_sum s @ l @ [LF], ls_pos := ls_pos s + length l + 1,
      ls_off := ls_pos s + length l + 1, ls_lines := ls_lines s + 1,
      ls_last := (if keep then Some (ls_sum s @ l @ [LF]) else ls_last s)\<rparr>) ls w1 = (s', w', None)"
    by (auto simp: Let_def split: prod.splits option.splits)
  show ?case using Cons.IH [OF w1] by (cases ls) simp_all
qed simp

text \<open>A scanner that stands at a line boundary, with the hash state there kept for \<^verbatim>\<open>settle\<close>.\<close>

definition resting :: "lineScanner \<Rightarrow> bool" where
  "resting s \<longleftrightarrow> at_line s \<and> ls_keep s \<and> ls_last s = (if ls_sum s = [] then ls_last s else Some (ls_sum s)) \<and>
     (ls_sum s = [] \<longrightarrow> ls_last s = None \<or> ls_last s = Some [])"

lemma resting_last: "resting s \<Longrightarrow> (case ls_last s of None \<Rightarrow> [] | Some b \<Rightarrow> b) = ls_sum s"
  by (cases "ls_sum s = []") (auto simp: resting_def)

lemma settle_catch:
  "resting s \<Longrightarrow> ls_sum (ls_settle (ls_catch s r)) = ls_sum s \<and> ls_last (ls_settle (ls_catch s r)) = ls_last s \<and>
     ls_off (ls_settle (ls_catch s r)) = ls_off s \<and> ls_lines (ls_settle (ls_catch s r)) = ls_lines s"
  using resting_last [of s] by (auto simp: ls_settle_def ls_catch_def)

lemma newLineScanner_resting:
  "last_state = (if h = [] then None else Some h) \<or> last_state = Some h \<Longrightarrow>
     resting (newLineScanner h off last_state n cap True)"
  by (auto simp: resting_def at_line_def newLineScanner_def)

lemma emit_all_resting:
  "resting s \<Longrightarrow> emit_all cap True emit s ls w = (s', w', None) \<Longrightarrow> resting s'"
  using emit_all_state [of cap True emit s ls w s' w'] by (auto simp: resting_def at_line_def)

text \<open>The chunks a file reader returns; their size is the buffer's.\<close>

function read_chunks :: "bytes \<Rightarrow> bytes list" where
  "read_chunks b = (if b = [] then [] else take 65536 b # read_chunks (drop 65536 b))"
  by pat_completeness auto
termination by (relation "measure length") auto

declare read_chunks.simps [simp del]

lemma concat_read_chunks [simp]: "concat (read_chunks b) = b"
  by (induction b rule: read_chunks.induct) (subst read_chunks.simps, simp)

section \<open>Properties\<close>

text \<open>
  C13. A scan does not depend on how the reads cut the stream, and leaves the hash at the last line.
  However the stream is cut into chunks, the callbacks, their order, the state and the error are
  the same; and when the scan ends well, \<^verbatim>\<open>settle\<close> leaves the hash having absorbed exactly
  what it held before plus the stream through its last line feed, with the offset and the line
  count to match, so the next scan can go on from there.
\<close>

theorem lineScanner_run:
  assumes "concat ps = concat qs" "full_lines [] (concat ps) = (ls, r)"
    and "s = newLineScanner h (length h) (if h = [] then None else Some h) n cap True"
    and "ls_run emit s ps None w = (s', w', None)"
  shows "ls_run emit s qs None w = (s', w', None) \<and>
    ls_sum (ls_settle s') = h @ lines_text ls \<and> ls_off (ls_settle s') = length (h @ lines_text ls) \<and>
    ls_lines (ls_settle s') = n + length ls \<and> concat ps = lines_text ls @ r"
proof -
  have s: "resting s" "ls_maxLen s = cap" "ls_keep s" "ls_sum s = h" "ls_pos s = length h" "ls_off s = length h" "ls_lines s = n"
    unfolding assms(3) by (rule newLineScanner_resting) (simp_all add: newLineScanner_def)
  then have "at_line s" by (simp add: resting_def)
  from ls_feed_lines [OF this assms(2), of emit w] assms(4) s(2,3)
  obtain s1 where s1: "emit_all cap True emit s ls w = (s1, w', None)" "s' = ls_catch s1 r"
    by (auto simp: ls_run_feed split: prod.splits option.splits)
  note st = emit_all_state [OF s1(1)]
  have "concat ps = lines_text ls @ r"
    using full_lines_concat [OF assms(2)] by (simp add: lines_text_def)
  moreover have "ls_run emit s qs None w = (s', w', None)"
    using assms(4) by (simp add: ls_run_feed assms(1))
  ultimately show ?thesis
    using settle_catch [OF emit_all_resting [OF s(1) s1(1)], of r] st s s1(2) by (cases ls) auto
qed

definition count_lines :: "(nat, unit) emitter" where
  "count_lines line long off s w = (Suc w, None)"

theorem lineScanner_run_witness:
  "ls_sum (ls_settle (fst (ls_run count_lines (newLineScanner [] 0 None 0 8 True) [''a'' @ [LF], ''b''] None 0))) = ''a'' @ [LF]"
proof -
  have run: "ls_run count_lines (newLineScanner [] (length []) (if ([] :: bytes) = [] then None else Some []) 0 8 True)
      [''a'' @ [LF], ''b''] None 0 =
    (fst (ls_run count_lines (newLineScanner [] 0 None 0 8 True) [''a'' @ [LF], ''b''] None 0), 1, None)"
    by (simp add: count_lines_def newLineScanner_def ls_line_eq ls_add_def)
  have "full_lines [] (concat [''a'' @ [LF], ''b'']) = ([''a''], ''b'')" by simp
  from lineScanner_run [OF refl this refl run] show ?thesis by simp
qed

end
