(* ===== verification/Json_Struct.thy ===== *)
theory Json_Struct
  imports Event_Chain
begin

text \<open>
  \<^verbatim>\<open>json.Unmarshal\<close> into a struct, for any struct: the members in order, each going
  to the field its key names. A member of the wrong type is remembered as the error of the call, and
  decoding goes on with the next one. Members held as \<^verbatim>\<open>json.RawMessage\<close> print
  their strings HTML-escaped, which does not change what they decode to.
\<close>

section \<open>Integers\<close>

text \<open>\<^verbatim>\<open>strconv.ParseInt(s, 10, 64)\<close> on a literal of the number grammar.\<close>

definition json_int64 :: "string \<Rightarrow> int option" where
  "json_int64 w =
     (let neg = (w \<noteq> [] \<and> hd w = CHR ''-''); ds = (if neg then tl w else w);
          n = (if neg then - int (digits_value ds) else int (digits_value ds))
      in if ds \<noteq> [] \<and> list_all is_digit ds \<and> is_int64 n then Some n else None)"

definition int_text :: "int \<Rightarrow> string" where
  "int_text n = (if n < 0 then CHR ''-'' # dec_digits (nat (- n)) else dec_digits (nat n))"

section \<open>Structs\<close>

text \<open>
  \<open>put n c r\<close> is what member \<open>c\<close> does to field \<open>n\<close> of \<open>r\<close>, \<open>None\<close> a mismatch of types. The
  result is the struct and whether every member fitted.
\<close>

type_synonym 'r setter = "string \<Rightarrow> cst \<Rightarrow> 'r \<Rightarrow> 'r option"

fun dec_struct :: "string list \<Rightarrow> 'r setter \<Rightarrow> (string \<times> cst) list \<Rightarrow> 'r \<Rightarrow> 'r \<times> bool" where
  "dec_struct names put [] r = (r, True)"
| "dec_struct names put ((raw, c) # ms) r =
     (case field_for names (dec_str raw) of
        None \<Rightarrow> dec_struct names put ms r
      | Some n \<Rightarrow>
          (case put n c r of
             None \<Rightarrow> (fst (dec_struct names put ms r), False)
           | Some r' \<Rightarrow> dec_struct names put ms r'))"

text \<open>A document that is no object: null leaves the struct as it is, anything else is a mismatch.\<close>

definition json_fill :: "string list \<Rightarrow> 'r setter \<Rightarrow> bytes \<Rightarrow> 'r \<Rightarrow> 'r \<times> bool" where
  "json_fill names put data r =
     (case parse_json data of
        Some CNull \<Rightarrow> (r, True)
      | Some (CObj ms) \<Rightarrow> dec_struct names put ms r
      | _ \<Rightarrow> (r, False))"

definition json_struct :: "string list \<Rightarrow> 'r setter \<Rightarrow> bytes \<Rightarrow> 'r \<Rightarrow> 'r option" where
  "json_struct names put data r = (case json_fill names put data r of (r', ok) \<Rightarrow> if ok then Some r' else None)"

lemmas json_struct_defs = json_struct_def json_fill_def

text \<open>Fields: an integer, and the two pointers.\<close>

definition set_int :: "cst \<Rightarrow> int \<Rightarrow> int option" where
  "set_int c old = (case c of CNum w \<Rightarrow> json_int64 w | CNull \<Rightarrow> Some old | _ \<Rightarrow> None)"

definition set_ptr_int :: "cst \<Rightarrow> int option option" where
  "set_ptr_int c = (case c of CNull \<Rightarrow> Some None | CNum w \<Rightarrow> map_option Some (json_int64 w) | _ \<Rightarrow> None)"

definition set_ptr_string :: "cst \<Rightarrow> bytes option option" where
  "set_ptr_string c = (case c of CNull \<Rightarrow> Some None | CStr raw \<Rightarrow> Some (Some (dec_str raw)) | _ \<Rightarrow> None)"

text \<open>\<^verbatim>\<open>json.Unmarshal\<close> into a \<^verbatim>\<open>map[string]json.RawMessage\<close>.\<close>

definition json_raw_map :: "bytes \<Rightarrow> (string \<times> cst) list option" where
  "json_raw_map data =
     (case parse_json data of Some CNull \<Rightarrow> Some [] | Some (CObj ms) \<Rightarrow> Some (raw_members ms) | _ \<Rightarrow> None)"

text \<open>\<^verbatim>\<open>json.Unmarshal\<close> into a \<^verbatim>\<open>map[string]any\<close>; null is the nil map.\<close>

definition json_any_map :: "bytes \<Rightarrow> (string \<times> gval) list option" where
  "json_any_map data =
     (case parse_json data of Some CNull \<Rightarrow> Some [] | Some (CObj ms) \<Rightarrow> dec_members [] ms | _ \<Rightarrow> None)"

section \<open>HTML escaping does not change a literal's value\<close>

lemma html_raw_Nil [simp]: "html_raw [] = []"
  by (subst html_raw.simps) simp

lemma html_raw_special: "html_special c \<Longrightarrow> html_raw (c # cs) = u00 c @ html_raw cs"
  by (subst html_raw.simps) simp

lemma html_raw_sep: "is_sep_2028 s \<Longrightarrow> html_raw s = esc_2028 s @ html_raw (drop 3 s)"
proof -
  assume s: "is_sep_2028 s"
  then obtain x t where "s = CHR 0xE2 # CHR 0x80 # x # t" using is_sep_2028D by blast
  with s show ?thesis by (subst html_raw.simps) (simp add: html_special_def)
qed

lemma html_raw_plain: "\<not> html_special c \<Longrightarrow> \<not> is_sep_2028 (c # cs) \<Longrightarrow> html_raw (c # cs) = c # html_raw cs"
  by (subst html_raw.simps) simp

lemma html_raw_low: "\<not> html_special c \<Longrightarrow> (of_char c :: nat) < 128 \<Longrightarrow> html_raw (c # cs) = c # html_raw cs"
  by (rule html_raw_plain) (auto dest!: is_sep_2028D)

lemma not_special_high: "128 \<le> (of_char c :: nat) \<Longrightarrow> \<not> html_special c"
  by (auto simp: html_special_def)

lemma html_raw_cont:
  "128 \<le> (of_char c :: nat) \<Longrightarrow> (of_char c :: nat) < 192 \<Longrightarrow> html_raw (c # cs) = c # html_raw cs"
  by (rule html_raw_plain) (auto simp: not_special_high dest!: is_sep_2028D)

lemma html_raw_conts:
  "list_all (\<lambda>c. 128 \<le> (of_char c :: nat) \<and> (of_char c :: nat) < 192) p \<Longrightarrow> html_raw (p @ t) = p @ html_raw t"
  by (induction p) (simp_all add: html_raw_cont)

text \<open>A byte that can follow in a rune is there in the escaped text only if it was there before.\<close>

lemma html_raw_head_cont:
  assumes "html_raw cs = d # ds" "128 \<le> (of_char d :: nat)"
  shows "\<exists>t. cs = d # t \<and> (ds = html_raw t)"
proof (cases cs)
  case (Cons c t)
  show ?thesis
  proof (cases "html_special c \<or> is_sep_2028 (c # t)")
    case True
    then have "hd (html_raw cs) = CHR 0x5C"
      using Cons by (auto simp: html_raw_special html_raw_sep u00_def esc_2028_def)
    with assms show ?thesis by simp
  next
    case False
    with Cons assms show ?thesis by (simp add: html_raw_plain)
  qed
qed (use assms in simp)

lemma follows_html:
  "follows (html_raw cs) ps \<Longrightarrow> (\<And>p d. p \<in> set ps \<Longrightarrow> p d \<Longrightarrow> 128 \<le> (of_char d :: nat)) \<Longrightarrow> follows cs ps"
proof (induction ps arbitrary: cs)
  case (Cons p ps)
  obtain d ds where ds: "html_raw cs = d # ds" using Cons.prems(1) by (cases "html_raw cs") auto
  with Cons.prems have d: "p d" "follows ds ps" "128 \<le> (of_char d :: nat)" by auto
  obtain t where t: "cs = d # t" "ds = html_raw t" using html_raw_head_cont [OF ds d(3)] by blast
  have "follows t ps" by (rule Cons.IH) (use d t Cons.prems(2) in auto)
  with t d show ?case by simp
qed (cases cs; simp)+

lemma utf8_len_html:
  assumes "\<not> (of_char c :: nat) < 128"
  shows "utf8_len (c # cs) = 0 \<Longrightarrow> utf8_len (c # html_raw cs) = 0"
proof (rule ccontr)
  assume z: "utf8_len (c # cs) = 0" and "utf8_len (c # html_raw cs) \<noteq> 0"
  then have "0 < utf8_len (c # html_raw cs)" by simp
  then obtain ps where ps: "follows (html_raw cs) ps" "\<And>ds. follows ds ps \<Longrightarrow> utf8_len (c # ds) = Suc (length ps)"
      "set ps \<subseteq> {cont_byte, second_ok c}"
    using utf8_len_multi [OF assms] by metis
  have "follows cs ps"
  proof (rule follows_html [OF ps(1)])
    fix p d assume "p \<in> set ps" "p d"
    with ps(3) have "cont_byte d \<or> second_ok c d" by auto
    then show "128 \<le> (of_char d :: nat)"
      by (auto simp: cont_byte_def second_ok_def Let_def split: if_splits)
  qed
  with ps(2) z show False by simp
qed

lemma rune_conts:
  assumes "\<not> (of_char c :: nat) < 128" "0 < utf8_len (c # cs)"
  obtains p where "take (utf8_len (c # cs)) (c # cs) = c # p" "c # cs = (c # p) @ drop (utf8_len (c # cs)) (c # cs)"
    "list_all (\<lambda>c. 128 \<le> (of_char c :: nat) \<and> (of_char c :: nat) < 192) p"
proof -
  obtain ps where ps: "follows cs ps" "utf8_len (c # cs) = Suc (length ps)" "set ps \<subseteq> {cont_byte, second_ok c}"
    using utf8_len_multi [OF assms] by metis
  have "list_all (\<lambda>c. 128 \<le> (of_char c :: nat) \<and> (of_char c :: nat) < 192) (take (length ps) cs)"
  proof (rule follows_all [OF ps(1)])
    fix p d assume "p \<in> set ps" "p d"
    with ps(3) have "cont_byte d \<or> second_ok c d" by auto
    then show "128 \<le> (of_char d :: nat) \<and> (of_char d :: nat) < 192"
      by (auto simp: cont_byte_def second_ok_def Let_def split: if_splits)
  qed
  then show thesis using that [of "take (length ps) cs"] ps(2) by simp
qed

text \<open>What is left of a literal after one unit of it is a literal.\<close>

lemma raw_ok_piece: "lex_piece p \<Longrightarrow> raw_ok (p @ t) \<longleftrightarrow> raw_ok t"
  by (auto simp: raw_ok_def lex_piece_def split: option.splits)

lemma raw_ok_plain:
  assumes "raw_ok (c # cs)" "c \<noteq> CHR 0x5C"
  shows "raw_ok cs" "c \<noteq> CHR 0x22"
  using assms by (auto simp: raw_ok_def split: if_splits)

lemma raw_ok_escape:
  assumes "raw_ok (CHR 0x5C # cs)"
  obtains e t where "cs = e # t" "simple_escape e" "raw_ok t"
  | h1 h2 h3 h4 t where "cs = CHR ''u'' # h1 # h2 # h3 # h4 # t" "is_hex h1" "is_hex h2" "is_hex h3" "is_hex h4" "raw_ok t"
proof -
  obtain e cs1 where cs: "cs = e # cs1"
    using assms by (cases cs) (auto simp: raw_ok_def split: if_splits)
  show thesis
  proof (cases "simple_escape e")
    case True
    with assms cs have "raw_ok cs1" by (auto simp: raw_ok_def)
    with cs True show thesis by (rule that(1))
  next
    case False
    have lex: "lex_str (CHR 0x5C # e # cs1 @ [CHR 0x22]) = Some (CHR 0x5C # e # cs1, [])"
      using assms cs by (simp add: raw_ok_def)
    with False have e: "e = CHR ''u''" by (simp split: if_splits)
    obtain h1 h2 h3 h4 cs2 where h: "cs1 @ [CHR 0x22] = h1 # h2 # h3 # h4 # cs2" "is_hex h1" "is_hex h2" "is_hex h3" "is_hex h4"
      and r: "map_option (\<lambda>(raw, rest). (CHR 0x5C # e # h1 # h2 # h3 # h4 # raw, rest)) (lex_str cs2) = Some (CHR 0x5C # e # cs1, [])"
      using lex False e by (auto split: list.splits if_splits)
    have q: "\<not> is_hex (CHR 0x22)" by (simp add: hex_defs)
    have "cs2 \<noteq> []"
    proof
      assume "cs2 = []"
      with h(1) have "h4 = CHR 0x22" by (metis append.simps last_ConsL last_ConsR last_snoc list.distinct(1))
      with h(5) q show False by simp
    qed
    then obtain t where t: "cs2 = t @ [CHR 0x22]" "cs1 = h1 # h2 # h3 # h4 # t"
      using h(1) by (cases cs2 rule: rev_cases) (auto simp flip: append.simps(2))
    with r have "raw_ok t" by (auto simp: raw_ok_def)
    with t h e cs show thesis by (intro that(2) [of h1 h2 h3 h4 t]) auto
  qed
qed

lemma hex_low: "is_hex c \<Longrightarrow> \<not> html_special c \<and> (of_char c :: nat) < 128"
  by (auto simp: hex_defs html_special_def Let_def split: if_splits)

lemma html_raw_hexes:
  "is_hex h1 \<Longrightarrow> is_hex h2 \<Longrightarrow> is_hex h3 \<Longrightarrow> is_hex h4 \<Longrightarrow>
     html_raw (CHR 0x5C # CHR ''u'' # h1 # h2 # h3 # h4 # t) = CHR 0x5C # CHR ''u'' # h1 # h2 # h3 # h4 # html_raw t"
  using hex_low [of h1] hex_low [of h2] hex_low [of h3] hex_low [of h4]
  by (simp add: html_raw_low html_special_def)

lemma getu4_hexes:
  assumes "is_hex h1" "is_hex h2" "is_hex h3" "is_hex h4"
  shows "\<exists>r. \<forall>t. getu4 (CHR 0x5C # CHR ''u'' # h1 # h2 # h3 # h4 # t) = Some r"
  using assms by (auto simp: getu4_def is_hex_def)

lemma getu4_none: "a \<noteq> CHR 0x5C \<Longrightarrow> getu4 (a # t) = None" "b \<noteq> CHR ''u'' \<Longrightarrow> getu4 (a # b # t) = None"
  by (auto simp: getu4_def split: list.split)

lemma getu4_u00: "html_special c \<Longrightarrow> \<exists>r < 55296. getu4 (u00 c @ t) = Some r"
  by (auto simp: html_special_def u00_def hexDigit_def getu4_def hex_value_def)

text \<open>The only escapes HTML escaping adds stand for code points outside the surrogates.\<close>

lemma getu4_html:
  assumes "raw_ok t"
  shows "(\<exists>r. getu4 (html_raw t) = Some r \<and> getu4 t = Some r \<and> html_raw (drop 6 t) = drop 6 (html_raw t) \<and> raw_ok (drop 6 t)) \<or>
    getu4 t = None \<and> (\<forall>r. getu4 (html_raw t) = Some r \<longrightarrow> r < 55296)"
proof (cases t)
  case (Cons c cs)
  consider "c = CHR 0x5C" | "html_special c" | "is_sep_2028 t" | "c \<noteq> CHR 0x5C" "\<not> html_special c" "\<not> is_sep_2028 t" by blast
  then show ?thesis
  proof cases
    case 1
    then have "raw_ok (CHR 0x5C # cs)" using assms Cons by simp
    then show ?thesis
    proof (cases cs rule: raw_ok_escape)
      case (1 e u)
      then have "e \<noteq> CHR ''u''" "\<not> html_special e" "(of_char e :: nat) < 128"
        by (auto simp: simple_escape_def html_special_def)
      with 1 Cons \<open>c = CHR 0x5C\<close> show ?thesis
        by (simp add: html_raw_low html_special_def getu4_none)
    next
      case (2 h1 h2 h3 h4 u)
      with getu4_hexes [OF 2(2-5)] Cons \<open>c = CHR 0x5C\<close> show ?thesis
        by (auto simp: html_raw_hexes)
    qed
  next
    case 2
    then have "c \<noteq> CHR 0x5C" by (auto simp: html_special_def)
    then have "getu4 t = None" by (simp add: Cons getu4_none)
    moreover have "\<exists>r < 55296. getu4 (html_raw t) = Some r"
      unfolding Cons html_raw_special [OF 2] by (rule getu4_u00 [OF 2])
    ultimately show ?thesis by auto
  next
    case 3
    then obtain x u where x: "t = CHR 0xE2 # CHR 0x80 # x # u" using is_sep_2028D by blast
    with 3 show ?thesis
      by (auto simp: html_raw_sep esc_2028_def getu4_none) (simp_all add: getu4_def hex_value_def)
  next
    case 4
    with Cons show ?thesis by (simp add: html_raw_plain getu4_none)
  qed
qed (simp add: getu4_def)

lemma dec_str_pair:
  assumes "\<And>t. getu4 (CHR 0x5C # CHR ''u'' # h1 # h2 # h3 # h4 # t) = Some r"
  shows "dec_str (CHR 0x5C # CHR ''u'' # h1 # h2 # h3 # h4 # t) =
    (if is_surrogate r then
       (case getu4 t of
          Some q \<Rightarrow> if r < 56320 \<and> 56320 \<le> q \<and> q < 57344
            then utf8_encode ((r - 55296) * 1024 + (q - 56320) + 65536) @ dec_str (drop 6 t)
            else replacement @ dec_str t
        | None \<Rightarrow> replacement @ dec_str t)
     else utf8_encode r @ dec_str t)"
  using assms by (subst dec_str.simps) (simp split: option.split)

theorem dec_html_raw: "raw_ok s \<Longrightarrow> dec_str (html_raw s) = dec_str s"
proof (induction s rule: measure_induct_rule [of length])
  case (less s)
  show ?case
  proof (cases s)
    case (Cons c cs)
    consider "c = CHR 0x5C" | "c \<noteq> CHR 0x5C" "(of_char c :: nat) < 128" | "\<not> (of_char c :: nat) < 128" by blast
    then show ?thesis
    proof cases
      case 1
      then have "raw_ok (CHR 0x5C # cs)" using less.prems Cons by simp
      then show ?thesis
      proof (cases cs rule: raw_ok_escape)
        case (1 e u)
        then have e: "e \<noteq> CHR ''u''" "\<not> html_special e" "(of_char e :: nat) < 128"
          by (auto simp: simple_escape_def html_special_def)
        with 1 Cons \<open>c = CHR 0x5C\<close> less.IH [of u] show ?thesis
          by (simp add: html_raw_low html_special_def dec_str_simple)
      next
        case (2 h1 h2 h3 h4 u)
        obtain r where r: "\<And>t. getu4 (CHR 0x5C # CHR ''u'' # h1 # h2 # h3 # h4 # t) = Some r"
          using getu4_hexes [OF 2(2-5)] by blast
        have s: "s = CHR 0x5C # CHR ''u'' # h1 # h2 # h3 # h4 # u" using 2 Cons \<open>c = CHR 0x5C\<close> by simp
        have h: "html_raw s = CHR 0x5C # CHR ''u'' # h1 # h2 # h3 # h4 # html_raw u"
          unfolding s by (rule html_raw_hexes [OF 2(2-5)])
        have u: "dec_str (html_raw u) = dec_str u" "raw_ok (drop 6 u) \<Longrightarrow> dec_str (html_raw (drop 6 u)) = dec_str (drop 6 u)"
          by (rule less.IH; simp add: s 2(6))+
        show ?thesis
          unfolding h unfolding s dec_str_pair [OF r]
          using getu4_html [OF 2(6)] u by (auto split: option.splits)
      qed
    next
      case 2
      then have cs: "raw_ok cs" using less.prems Cons raw_ok_plain by blast
      with less.IH [of cs] 2 Cons show ?thesis
        by (cases "html_special c") (simp_all add: html_raw_special dec_u00 html_raw_low dec_str_ascii)
    next
      case 3
      show ?thesis
      proof (cases "0 < utf8_len (c # cs)")
        case True
        obtain p where p: "take (utf8_len (c # cs)) (c # cs) = c # p" "c # cs = (c # p) @ drop (utf8_len (c # cs)) (c # cs)"
            "list_all (\<lambda>c. 128 \<le> (of_char c :: nat) \<and> (of_char c :: nat) < 192) p"
          by (rule rune_conts [OF 3 True])
        define t where "t = drop (utf8_len (c # cs)) (c # cs)"
        have s: "s = (c # p) @ t" using p(2) Cons by (simp add: t_def)
        have "list_all (\<lambda>c. 128 \<le> (of_char c :: nat)) (c # p)" using p(3) 3 by (auto simp: list_all_iff)
        then have "lex_piece (c # p)" by (rule lex_piece_high)
        then have "raw_ok t" using less.prems s raw_ok_piece by blast
        moreover have "length t < length s" by (simp add: s)
        ultimately have t: "dec_str (html_raw t) = dec_str t" using less.IH by blast
        have d: "dec_str ((c # p) @ u) = (c # p) @ dec_str u" for u
          using dec_str_rune [OF refl True 3, of u] p(1) by simp
        show ?thesis
        proof (cases "is_sep_2028 s")
          case True
          have "take 3 s = c # p" "drop 3 s = t" using utf8_len_sep [OF True] p(1) Cons t_def by auto
          with True d [of t] s show ?thesis by (simp add: html_raw_sep dec_2028 t)
        next
          case False
          then have "html_raw s = (c # p) @ html_raw t"
            using 3 p(3) by (simp add: s html_raw_plain not_special_high html_raw_conts)
          with d t s show ?thesis by simp
        qed
      next
        case False
        then have z: "utf8_len (c # cs) = 0" by simp
        then have "\<not> is_sep_2028 (c # cs)" using utf8_len_sep [of "c # cs"] by auto
        then have h: "html_raw s = c # html_raw cs"
          unfolding Cons by (rule html_raw_plain [rotated]) (use 3 in \<open>simp add: not_special_high\<close>)
        have bs: "c \<noteq> CHR 0x5C" using 3 by auto
        have "dec_str (c # u) = replacement @ dec_str u" if "utf8_len (c # u) = 0" for u
          using that bs by (subst dec_str.simps) (simp add: Let_def)
        from this [OF z] this [OF utf8_len_html [OF 3 z]]
        show ?thesis unfolding h using less.IH [of cs] raw_ok_plain [of c cs] less.prems bs Cons by simp
      qed
    qed
  qed simp
qed

end
