(* ===== verification/Ecdsa.thy ===== *)
theory Ecdsa
  imports Sha2 Float64
begin

text \<open>
  The two public-key primitives the module takes from Go's standard library, written out over
  integers: verification of an ECDSA signature over a NIST curve (\<^verbatim>\<open>crypto/ecdsa\<close>)
  and of an RSA signature with PKCS #1 v1.5 padding (\<^verbatim>\<open>crypto/rsa\<close>). Byte strings
  are read as big-endian numbers, as \<^verbatim>\<open>big.Int.SetBytes\<close> does.
\<close>

section \<open>Big-endian numbers\<close>

definition be_int :: "bytes \<Rightarrow> int" where
  "be_int bs = foldl (\<lambda>n c. n * 256 + int (of_char c)) 0 bs"

fun int_be :: "nat \<Rightarrow> int \<Rightarrow> bytes" where
  "int_be 0 n = []"
| "int_be (Suc k) n = int_be k (n div 256) @ [char_of (nat (n mod 256))]"

lemma length_int_be [simp]: "length (int_be k n) = k"
  by (induction k arbitrary: n) simp_all

lemma be_int_snoc [simp]: "be_int (bs @ [c]) = be_int bs * 256 + int (of_char c)"
  by (simp add: be_int_def)

lemma be_int_Nil [simp]: "be_int [] = 0"
  by (simp add: be_int_def)

lemma be_int_nonneg: "0 \<le> be_int bs"
  by (induction bs rule: rev_induct) simp_all

lemma be_int_less: "be_int bs < 256 ^ length bs"
proof (induction bs rule: rev_induct)
  case (snoc c bs)
  have "(of_char c :: nat) < 256" by (rule byte_nat_less)
  then have "int (of_char c) \<le> 255" by linarith
  with snoc show ?case by simp
qed simp

lemma be_int_be: "0 \<le> n \<Longrightarrow> n < 256 ^ k \<Longrightarrow> be_int (int_be k n) = n"
proof (induction k arbitrary: n)
  case (Suc k)
  then have "0 \<le> n div 256" "n div 256 < 256 ^ k" by (auto simp: div_int_pos_iff intro!: div_less_iff_less_mult [THEN iffD2])
  from Suc.IH [OF this] have "be_int (int_be k (n div 256)) = n div 256" .
  moreover have "(of_char (char_of (nat (n mod 256)) :: char) :: nat) = nat (n mod 256)"
    by (rule char_small) simp
  ultimately show ?case by simp
qed simp

section \<open>Curves\<close>

record curve =
  c_p :: int
  c_b :: int
  c_n :: int
  c_gx :: int
  c_gy :: int
  c_BitSize :: nat

definition P256 :: curve where
  "P256 = \<lparr>c_p = 115792089210356248762697446949407573530086143415290314195533631308867097853951,
     c_b = 41058363725152142129326129780047268409114441015993725554835256314039467401291,
     c_n = 115792089210356248762697446949407573529996955224135760342422259061068512044369,
     c_gx = 48439561293906451759052585252797914202762949526041747995844080717082404635286,
     c_gy = 36134250956749795798585127919587881956611106672985015071877198253568414405109,
     c_BitSize = 256\<rparr>"

definition P384 :: curve where
  "P384 = \<lparr>c_p = 39402006196394479212279040100143613805079739270465446667948293404245721771496870329047266088258938001861606973112319,
     c_b = 27580193559959705877849011840389048093056905856361568521428707301988689241309860865136260764883745107765439761230575,
     c_n = 39402006196394479212279040100143613805079739270465446667946905279627659399113263569398956308152294913554433653942643,
     c_gx = 26247035095799689268623156744566981891852923491109213387815615900925518854738050089022388053975719786650872476732087,
     c_gy = 8325710961489029985546751289520108179287853048861315594709205902480503199884419224438643760392947333078086511627871,
     c_BitSize = 384\<rparr>"

text \<open>A point is its affine coordinates, \<open>None\<close> the point at infinity.\<close>

type_synonym point = "(int \<times> int) option"

definition on_curve :: "curve \<Rightarrow> int \<times> int \<Rightarrow> bool" where
  "on_curve C P = (case P of (x, y) \<Rightarrow>
     0 \<le> x \<and> x < c_p C \<and> 0 \<le> y \<and> y < c_p C \<and> (y * y - (x * x * x - 3 * x + c_b C)) mod c_p C = 0)"

text \<open>The inverse by Euclid's algorithm; the remainders shrink.\<close>

function inv_loop :: "int \<Rightarrow> int \<Rightarrow> int \<Rightarrow> int \<Rightarrow> int" where
  "inv_loop r0 r1 t0 t1 = (if r1 \<le> 0 then t0 else inv_loop r1 (r0 mod r1) t1 (t0 - r0 div r1 * t1))"
  by pat_completeness auto
termination by (relation "measure (\<lambda>(r0, r1, t0, t1). nat r1)") auto

definition inv_mod :: "int \<Rightarrow> int \<Rightarrow> int" where
  "inv_mod m a = inv_loop m (a mod m) 0 1 mod m"

definition ec_add :: "curve \<Rightarrow> point \<Rightarrow> point \<Rightarrow> point" where
  "ec_add C P Q =
     (case (P, Q) of
        (None, _) \<Rightarrow> Q
      | (_, None) \<Rightarrow> P
      | (Some (x1, y1), Some (x2, y2)) \<Rightarrow>
          let p = c_p C in
          if x1 = x2 \<and> (y1 + y2) mod p = 0 then None
          else
            let l = (if x1 = x2 then (3 * x1 * x1 - 3) * inv_mod p (2 * y1) else (y2 - y1) * inv_mod p (x2 - x1)) mod p;
                x3 = (l * l - x1 - x2) mod p
            in Some (x3, (l * (x1 - x3) - y1) mod p))"

text \<open>Double and add, from the low bit.\<close>

function ec_mul :: "curve \<Rightarrow> int \<Rightarrow> point \<Rightarrow> point" where
  "ec_mul C k P =
     (if k \<le> 0 then None
      else let Q = ec_mul C (k div 2) (ec_add C P P) in if k mod 2 = 1 then ec_add C P Q else Q)"
  by pat_completeness auto
termination by (relation "measure (\<lambda>(C, k, P). nat k)") auto

declare inv_loop.simps [simp del] ec_mul.simps [simp del]

section \<open>ECDSA\<close>

record ec_key =
  ek_curve :: curve
  ek_point :: "int \<times> int"

text \<open>The leftmost bits of the digest, as many as the order has.\<close>

definition hash_int :: "curve \<Rightarrow> bytes \<Rightarrow> int" where
  "hash_int C d =
     (let size = (c_BitSize C + 7) div 8; d = take size d
      in be_int d div 2 ^ (8 * length d - c_BitSize C))"

definition ecdsa_Verify :: "ec_key \<Rightarrow> bytes \<Rightarrow> int \<Rightarrow> int \<Rightarrow> bool" where
  "ecdsa_Verify pub d r s =
     (let C = ek_curve pub; n = c_n C in
      on_curve C (ek_point pub) \<and> 0 < r \<and> r < n \<and> 0 < s \<and> s < n \<and>
      (let w = inv_mod n s;
           u1 = hash_int C d * w mod n;
           u2 = r * w mod n
       in case ec_add C (ec_mul C u1 (Some (c_gx C, c_gy C))) (ec_mul C u2 (Some (ek_point pub))) of
            None \<Rightarrow> False
          | Some (x, y) \<Rightarrow> x mod n = r))"

lemma ecdsa_Verify_range: "ecdsa_Verify pub d r s \<Longrightarrow> 0 < r \<and> r < c_n (ek_curve pub) \<and> 0 < s \<and> s < c_n (ek_curve pub)"
  by (simp add: ecdsa_Verify_def Let_def)

section \<open>RSA with PKCS #1 v1.5 padding\<close>

record rsa_key =
  rk_N :: int
  rk_E :: int

function mod_exp :: "int \<Rightarrow> int \<Rightarrow> int \<Rightarrow> int" where
  "mod_exp m b k =
     (if k \<le> 0 then 1 mod m
      else let q = mod_exp m (b * b mod m) (k div 2) in if k mod 2 = 1 then b * q mod m else q)"
  by pat_completeness auto
termination by (relation "measure (\<lambda>(m, b, k). nat k)") auto

declare mod_exp.simps [simp del]

lemma mod_exp_power: "mod_exp m b (int k) = b ^ k mod m"
proof (induction k arbitrary: b rule: less_induct)
  case (less k)
  show ?case
  proof (cases "k = 0")
    case False
    then have "k div 2 < k" by simp
    from less.IH [OF this, of "b * b mod m"]
    have q: "mod_exp m (b * b mod m) (int (k div 2)) = (b * b) ^ (k div 2) mod m"
      by (simp add: power_mod)
    have k: "k = 2 * (k div 2) + k mod 2" by simp
    have "b ^ k = (b * b) ^ (k div 2) * b ^ (k mod 2)"
      by (subst k) (simp only: power_add power_mult power2_eq_square)
    moreover have "int k mod 2 = int (k mod 2)" "k mod 2 = 0 \<or> k mod 2 = 1" by (auto simp: of_nat_mod)
    ultimately show ?thesis using False q
      by (subst mod_exp.simps) (auto simp: Let_def zdiv_int mod_mult_right_eq mult.commute)
  qed (subst mod_exp.simps, simp)
qed

text \<open>
  What \<^verbatim>\<open>checkPublicKeySize\<close> and the modulus construction demand: at least 1024 bits,
  an odd modulus, an odd exponent above one that fits 31 bits.
\<close>

definition rsa_key_ok :: "rsa_key \<Rightarrow> bool" where
  "rsa_key_ok k \<longleftrightarrow> 1024 \<le> bit_len (nat (rk_N k)) \<and> rk_N k mod 2 = 1 \<and>
     2 \<le> rk_E k \<and> rk_E k \<le> 2 ^ 31 - 1 \<and> rk_E k mod 2 = 1"

text \<open>The encoded message: the digest behind its algorithm's DER prefix, padded to the modulus.\<close>

definition pkcs1v15_em :: "bytes \<Rightarrow> bytes \<Rightarrow> nat \<Rightarrow> bytes option" where
  "pkcs1v15_em pre d k =
     (let t = pre @ d in
      if k < length t + 11 then None
      else Some ([CHR 0x00, CHR 0x01] @ replicate (k - length t - 3) (CHR 0xFF) @ [CHR 0x00] @ t))"

definition rsa_VerifyPKCS1v15 :: "rsa_key \<Rightarrow> bytes \<Rightarrow> bytes \<Rightarrow> bytes \<Rightarrow> bool" where
  "rsa_VerifyPKCS1v15 pub pre d sig =
     (let k = (bit_len (nat (rk_N pub)) + 7) div 8 in
      rsa_key_ok pub \<and> length sig = k \<and> be_int sig < rk_N pub \<and>
      (case pkcs1v15_em pre d k of
         None \<Rightarrow> False
       | Some em \<Rightarrow> int_be k (mod_exp (rk_N pub) (be_int sig) (rk_E pub)) = em))"

end
