(* ===== verification/Checkpoint.thy ===== *)
theory Checkpoint
  imports Json_Struct Line_Scanner Clock Ecdsa
begin

text \<open>
  One record of the checkpoint sidecar (event/checkpoint.go): its members and their bytes, how it is
  signed, and the checks a verifier makes of it, in the order it makes them. \<^verbatim>\<open>jcs.Transform\<close>
  is a third party's and the argument \<open>jcs\<close>; the signer, an interface, is the record \<open>signer\<close>.
\<close>

section \<open>Data\<close>

definition checkpointVersion :: int where "checkpointVersion = 1"
definition checkpointAlg :: string where "checkpointAlg = ''ES256''"
definition checkpointKindCheckpoint :: string where "checkpointKindCheckpoint = ''checkpoint''"
definition checkpointKindClose :: string where "checkpointKindClose = ''close''"
definition checkpointKindResume :: string where "checkpointKindResume = ''resume''"
definition checkpointKeyExpired :: string where "checkpointKeyExpired = ''key_expired''"
definition defaultCheckpointEvery :: int where "defaultCheckpointEvery = 64"
definition defaultCheckpointInterval :: duration where "defaultCheckpointInterval = 10 * Second"
definition checkpointRecordCap :: nat where "checkpointRecordCap = 1048576"
definition checkpointGenesis :: string where "checkpointGenesis = ''sha256:'' @ replicate 64 CHR ''0''"

definition checkpointHashRE :: "string \<Rightarrow> bool" where
  "checkpointHashRE s \<longleftrightarrow> take 7 s = ''sha256:'' \<and> length s = 71 \<and> list_all lowerHex (drop 7 s)"

definition at_shape :: string where "at_shape = ''dddd-dd-ddTdd:dd:dd.dddZ''"

text \<open>The pattern with every \<^verbatim>\<open>\d\<close> written \<^verbatim>\<open>d\<close>.\<close>

definition checkpointAtRE :: "string \<Rightarrow> bool" where
  "checkpointAtRE s \<longleftrightarrow> length s = length at_shape \<and>
     list_all2 (\<lambda>p c. if p = CHR ''d'' then is_digit c else c = p) at_shape s"

datatype ck_error =
    CkNoDir | CkNoSigner | CkEvent event_error | CkOpen event_error | CkRead | CkCanonical | CkSign | CkSigSize nat
  | CkWrite | CkStat | CkLong | CkTruncate | CkLock | CkUnlock | CkCloseFile | ErrNoCheckpoints

text \<open>What a \<^verbatim>\<open>CheckpointSigner\<close> answers: a signature, that its key expired, or another error.\<close>

datatype sign_answer = Signed bytes | KeyExpired | SignError

record signer =
  sg_KeyID :: string
  sg_Sign :: "bytes \<Rightarrow> sign_answer"

record checkpointFields =
  cf_Kind :: string
  cf_Stream :: string
  cf_Count :: int
  cf_Head :: string
  cf_Prefix :: string
  cf_At :: string
  cf_Prev :: string

section \<open>The bytes of a record\<close>

definition sha_ref :: "bytes \<Rightarrow> string" where
  "sha_ref b = ''sha256:'' @ hex_EncodeToString (sha256 b)"

text \<open>A \<^verbatim>\<open>map[string]any\<close> of strings and integers, as \<^verbatim>\<open>json.Marshal\<close> prints it.\<close>

definition jstr :: "bytes \<Rightarrow> cst" where "jstr s = CStr (enc_str s)"
definition jint :: "int \<Rightarrow> cst" where "jint n = CNum (int_text n)"

definition body :: "checkpointFields \<Rightarrow> (string \<times> cst) list" where
  "body f = m_collect [] [(''v'', jint checkpointVersion), (''kind'', jstr (cf_Kind f)), (''stream'', jstr (cf_Stream f)),
     (''count'', jint (cf_Count f)), (''head'', jstr (cf_Head f)), (''prefix'', jstr (cf_Prefix f)),
     (''at'', jstr (cf_At f)), (''prev'', jstr (cf_Prev f))]"

definition marshal_body :: "(string \<times> cst) list \<Rightarrow> bytes" where
  "marshal_body m = print_json (CObj (map (\<lambda>(k, c). (enc_str k, c)) m))"

definition canonicalJSON :: "(bytes \<Rightarrow> bytes option) \<Rightarrow> (string \<times> cst) list \<Rightarrow> ck_error + bytes" where
  "canonicalJSON jcs m = (case jcs (marshal_body m) of None \<Rightarrow> Inl CkCanonical | Some b \<Rightarrow> Inr b)"

text \<open>The signing input (\<open>None\<close> for an unsigned record) and the record's bytes.\<close>

definition encodeCheckpoint :: "(bytes \<Rightarrow> bytes option) \<Rightarrow> checkpointFields \<Rightarrow> signer \<Rightarrow> ck_error + (bytes option \<times> bytes)" where
  "encodeCheckpoint jcs f s =
     (let bdy = m_put (m_put (body f) ''alg'' (jstr checkpointAlg)) ''kid'' (jstr (sg_KeyID s))
      in case canonicalJSON jcs bdy of
           Inl err \<Rightarrow> Inl err
         | Inr input \<Rightarrow>
             (case sg_Sign s input of
                KeyExpired \<Rightarrow>
                  let bdy = m_put (m_delete (m_delete bdy ''alg'') ''kid'') ''unsigned_reason'' (jstr checkpointKeyExpired)
                  in case canonicalJSON jcs bdy of Inl err \<Rightarrow> Inl err | Inr rec \<Rightarrow> Inr (None, rec)
              | SignError \<Rightarrow> Inl CkSign
              | Signed raw \<Rightarrow>
                  if length raw \<noteq> 64 then Inl (CkSigSize (length raw))
                  else case canonicalJSON jcs (m_put bdy ''sig'' (jstr (b64 raw))) of
                      Inl err \<Rightarrow> Inl err
                    | Inr rec \<Rightarrow> Inr (Some input, rec)))"

section \<open>The clock as text\<close>

text \<open>Days since 1970 to year, month and day: cycles of 400, 100, 4 and 1 years, then the months.\<close>

fun find_month :: "int \<Rightarrow> int list \<Rightarrow> int \<Rightarrow> int \<times> int" where
  "find_month m [] d = (m, d + 1)"
| "find_month m (l # ls) d = (if d < l then (m, d + 1) else find_month (m + 1) ls (d - l))"

definition year_day :: "int \<Rightarrow> int \<times> int" where
  "year_day days =
     (let z = days + 719162; n400 = z div 146097; d = z mod 146097;
          n = d div 36524; n100 = n - n div 4; d = d - 36524 * n100;
          n4 = d div 1461; d = d mod 1461;
          n = d div 365; n1 = n - n div 4
      in (400 * n400 + 100 * n100 + 4 * n4 + n1 + 1, d - 365 * n1))"

definition leap_year :: "int \<Rightarrow> bool" where
  "leap_year y \<longleftrightarrow> y mod 4 = 0 \<and> (y mod 100 \<noteq> 0 \<or> y mod 400 = 0)"

definition civil :: "int \<Rightarrow> int \<times> int \<times> int" where
  "civil days =
     (case year_day days of (y, yday) \<Rightarrow>
        (y, find_month 1 [31, if leap_year y then 29 else 28, 31, 30, 31, 30, 31, 31, 30, 31, 30, 31] yday))"

text \<open>\<^verbatim>\<open>appendInt\<close>: a decimal of at least the given width.\<close>

definition pad_int :: "nat \<Rightarrow> int \<Rightarrow> string" where
  "pad_int w n =
     (let ds = dec_digits (nat \<bar>n\<bar>)
      in (if n < 0 then ''-'' else []) @ replicate (w - length ds) CHR ''0'' @ ds)"

text \<open>The layout \<^verbatim>\<open>2006-01-02T15:04:05.000\<close> in UTC.\<close>

definition format_at :: "gtime \<Rightarrow> string" where
  "format_at t =
     (let sec = t div Second; ms = t mod Second div 1000000; days = sec div 86400; s = sec mod 86400
      in case civil days of (y, m, d) \<Rightarrow>
        pad_int 4 y @ ''-'' @ pad_int 2 m @ ''-'' @ pad_int 2 d @ ''T'' @ pad_int 2 (s div 3600) @ '':'' @
        pad_int 2 (s mod 3600 div 60) @ '':'' @ pad_int 2 (s mod 60) @ ''.'' @ pad_int 3 ms @ ''Z'')"

section \<open>Checking one record\<close>

definition wellFormedLine :: "bytes \<Rightarrow> bool" where
  "wellFormedLine line \<longleftrightarrow> length line \<le> resumeWindow \<and> (case Unmarshal (TrimSpace line) of Inr _ \<Rightarrow> True | Inl _ \<Rightarrow> False)"

record ckRecordLine =
  rl_raw :: bytes
  rl_long :: bool

record ck_members =
  w_V :: "int option"
  w_Kind :: "string option"
  w_Stream :: "string option"
  w_Count :: "int option"
  w_Head :: "string option"
  w_Prefix :: "string option"
  w_At :: "string option"
  w_Prev :: "string option"
  w_Alg :: "string option"
  w_Kid :: "string option"
  w_Sig :: "string option"
  w_Unsigned :: "string option"

definition no_members :: ck_members where
  "no_members = \<lparr>w_V = None, w_Kind = None, w_Stream = None, w_Count = None, w_Head = None, w_Prefix = None,
     w_At = None, w_Prev = None, w_Alg = None, w_Kid = None, w_Sig = None, w_Unsigned = None\<rparr>"

definition member_names :: "string list" where
  "member_names = [''v'', ''kind'', ''stream'', ''count'', ''head'', ''prefix'', ''at'', ''prev'', ''alg'', ''kid'',
     ''sig'', ''unsigned_reason'']"

definition set_member :: "ck_members setter" where
  "set_member n c w =
     (if n = ''v'' then map_option (\<lambda>x. w\<lparr>w_V := x\<rparr>) (set_ptr_int c)
      else if n = ''kind'' then map_option (\<lambda>x. w\<lparr>w_Kind := x\<rparr>) (set_ptr_string c)
      else if n = ''stream'' then map_option (\<lambda>x. w\<lparr>w_Stream := x\<rparr>) (set_ptr_string c)
      else if n = ''count'' then map_option (\<lambda>x. w\<lparr>w_Count := x\<rparr>) (set_ptr_int c)
      else if n = ''head'' then map_option (\<lambda>x. w\<lparr>w_Head := x\<rparr>) (set_ptr_string c)
      else if n = ''prefix'' then map_option (\<lambda>x. w\<lparr>w_Prefix := x\<rparr>) (set_ptr_string c)
      else if n = ''at'' then map_option (\<lambda>x. w\<lparr>w_At := x\<rparr>) (set_ptr_string c)
      else if n = ''prev'' then map_option (\<lambda>x. w\<lparr>w_Prev := x\<rparr>) (set_ptr_string c)
      else if n = ''alg'' then map_option (\<lambda>x. w\<lparr>w_Alg := x\<rparr>) (set_ptr_string c)
      else if n = ''kid'' then map_option (\<lambda>x. w\<lparr>w_Kid := x\<rparr>) (set_ptr_string c)
      else if n = ''sig'' then map_option (\<lambda>x. w\<lparr>w_Sig := x\<rparr>) (set_ptr_string c)
      else if n = ''unsigned_reason'' then map_option (\<lambda>x. w\<lparr>w_Unsigned := x\<rparr>) (set_ptr_string c)
      else Some w)"

text \<open>Why a record is refused, in the order of the checks.\<close>

datatype refusal =
    RLong | RNotObject | RNotCanonical | RWrongType | RMembers | RVersion | RKind string | RStream string string
  | RCount | RTruncation nat int | RHeadForm | RNoEvent int | RHead int | RPrefixForm | RPrefix int | RPrev | RAt
  | RReason string | RAlg | RSigForm | RUnknownKey string | RReserialize | RSignature

text \<open>Whether the members are those of format v1, and if so whether the record is a signed one.\<close>

definition record_shape :: "ck_members \<Rightarrow> bool option" where
  "record_shape w =
     (let common = (w_V w \<noteq> None \<and> w_Kind w \<noteq> None \<and> w_Stream w \<noteq> None \<and> w_Count w \<noteq> None \<and>
            w_Head w \<noteq> None \<and> w_Prefix w \<noteq> None \<and> w_At w \<noteq> None \<and> w_Prev w \<noteq> None)
      in if common \<and> w_Alg w \<noteq> None \<and> w_Kid w \<noteq> None \<and> w_Sig w \<noteq> None \<and> w_Unsigned w = None then Some True
         else if common \<and> w_Alg w = None \<and> w_Kid w = None \<and> w_Sig w = None \<and> w_Unsigned w \<noteq> None then Some False
         else None)"

text \<open>The checks on the stream: version, kind, name, count, head, prefix, prev and time.\<close>

definition check_members :: "ck_members \<Rightarrow> nat \<Rightarrow> (int \<Rightarrow> string option) \<Rightarrow> (int \<Rightarrow> bytes option) \<Rightarrow> string \<Rightarrow> string \<Rightarrow>
    refusal option" where
  "check_members w lines headAt prefixAt expectPrev streamName =
     (let kind = the (w_Kind w); count = the (w_Count w); head = the (w_Head w); pre = the (w_Prefix w) in
      if the (w_V w) \<noteq> checkpointVersion then Some RVersion
      else if kind \<noteq> checkpointKindCheckpoint \<and> kind \<noteq> checkpointKindClose \<and> kind \<noteq> checkpointKindResume then Some (RKind kind)
      else if the (w_Stream w) \<noteq> streamName then Some (RStream (the (w_Stream w)) streamName)
      else if count < 1 then Some RCount
      else if int lines < count then Some (RTruncation lines count)
      else if \<not> checkpointHashRE head then Some RHeadForm
      else if headAt count = None then Some (RNoEvent count)
      else if headAt count \<noteq> Some head then Some (RHead count)
      else if \<not> checkpointHashRE pre then Some RPrefixForm
      else if pre \<noteq> ''sha256:'' @ hex_EncodeToString (case prefixAt count of Some b \<Rightarrow> b | None \<Rightarrow> []) then Some (RPrefix count)
      else if the (w_Prev w) \<noteq> expectPrev then Some RPrev
      else if \<not> checkpointAtRE (the (w_At w)) then Some RAt
      else None)"

text \<open>The signature, over the canonical form of the record's other members.\<close>

definition check_signature :: "(bytes \<Rightarrow> bytes option) \<Rightarrow> (string \<times> cst) list \<Rightarrow> ck_members \<Rightarrow> (string \<Rightarrow> ec_key option) \<Rightarrow>
    refusal option" where
  "check_signature jcs m w keys =
     (if the (w_Alg w) \<noteq> checkpointAlg then Some RAlg
      else case unb64 (the (w_Sig w)) of
          None \<Rightarrow> Some RSigForm
        | Some raw \<Rightarrow>
            if length raw \<noteq> 64 then Some RSigForm
            else case keys (the (w_Kid w)) of
                None \<Rightarrow> Some (RUnknownKey (the (w_Kid w)))
              | Some pub \<Rightarrow>
                  (case jcs (print_members (m_delete m ''sig'')) of
                     None \<Rightarrow> Some RReserialize
                   | Some input \<Rightarrow>
                       if ecdsa_Verify pub (sha256 input) (be_int (take 32 raw)) (be_int (drop 32 raw)) then None
                       else Some RSignature))"

text \<open>The first refusal, whether the stream was too short for the record, and whether it is signed.\<close>

definition checkRecord :: "(bytes \<Rightarrow> bytes option) \<Rightarrow> ckRecordLine \<Rightarrow> nat \<Rightarrow> (int \<Rightarrow> string option) \<Rightarrow> (int \<Rightarrow> bytes option) \<Rightarrow>
    string \<Rightarrow> string \<Rightarrow> (string \<Rightarrow> ec_key option) \<Rightarrow> refusal option \<times> bool \<times> bool" where
  "checkRecord jcs r lines headAt prefixAt expectPrev streamName keys =
     (if rl_long r then (Some RLong, False, False)
      else case json_raw_map (rl_raw r) of
          None \<Rightarrow> (Some RNotObject, False, False)
        | Some m \<Rightarrow>
            if jcs (rl_raw r) \<noteq> Some (rl_raw r) then (Some RNotCanonical, False, False)
            else case json_struct member_names set_member (rl_raw r) no_members of
                None \<Rightarrow> (Some RWrongType, False, False)
              | Some w \<Rightarrow>
                  (case record_shape w of
                     None \<Rightarrow> (Some RMembers, False, False)
                   | Some is_signed \<Rightarrow>
                       (case check_members w lines headAt prefixAt expectPrev streamName of
                          Some (RTruncation k n) \<Rightarrow> (Some (RTruncation k n), True, False)
                        | Some err \<Rightarrow> (Some err, False, False)
                        | None \<Rightarrow>
                            if \<not> is_signed then
                              (if the (w_Unsigned w) \<noteq> checkpointKeyExpired
                               then (Some (RReason (the (w_Unsigned w))), False, False) else (None, False, False))
                            else
                              (case check_signature jcs m w keys of
                                 Some err \<Rightarrow> (Some err, False, False)
                               | None \<Rightarrow> (None, False, True)))))"

end
