(* ===== verification/Checkpoint_Writer.thy ===== *)
theory Checkpoint_Writer
  imports Checkpoint
begin

text \<open>
  The sidecar writer of event/checkpoint.go (\<^verbatim>\<open>checkpointer\<close>) and the
  \<^verbatim>\<open>CheckpointedWriter\<close> around it. The stream and the sidecar are byte strings handed
  in and out, so other processes may change them between two calls; what the file system, the clock
  and the signer answer during a call is the record \<open>ck_env\<close>.
\<close>

section \<open>State and environment\<close>

record CheckpointConfig =
  cc_Dir :: string
  cc_Signer :: bool
  cc_Every :: int
  cc_Interval :: duration

definition withDefaults :: "CheckpointConfig \<Rightarrow> CheckpointConfig" where
  "withDefaults cfg =
     (let cfg = (if cc_Every cfg \<le> 0 then cfg\<lparr>cc_Every := defaultCheckpointEvery\<rparr> else cfg)
      in if cc_Interval cfg \<le> 0 then cfg\<lparr>cc_Interval := defaultCheckpointInterval\<rparr> else cfg)"

record checkpointer =
  ck_cfg :: CheckpointConfig
  ck_stream :: string
  ck_size :: nat
  ck_sum :: bytes
  ck_last :: "bytes option"
  ck_off :: nat
  ck_count :: nat
  ck_head :: string
  ck_prev :: string
  ck_pending :: int
  ck_lastAt :: gtime

text \<open>
  \<open>ce_read\<close>: the stream reads to its end, or fails after that many bytes; \<open>ce_landed\<close>: a write of a
  record lands whole, or that many bytes of it do and it fails. The three times are the clock when
  it is asked whether a record is due, what its \<^verbatim>\<open>at\<close> is, and when it was written.
\<close>

record ck_env =
  ce_stat :: bool
  ce_read :: "nat option"
  ce_check :: gtime
  ce_at :: gtime
  ce_done :: gtime
  ce_signer :: signer
  ce_landed :: "nat option"
  ce_truncate :: bool

definition read_section :: "nat option \<Rightarrow> bytes \<Rightarrow> bytes list \<times> ck_error option" where
  "read_section lim b =
     (case lim of None \<Rightarrow> (read_chunks b, None) | Some n \<Rightarrow> (read_chunks (take n b), Some CkRead))"

text \<open>\<^verbatim>\<open>File.Truncate\<close>, which fills with zero bytes when the file is shorter.\<close>

definition truncate_file :: "nat \<Rightarrow> bytes \<Rightarrow> bytes" where
  "truncate_file n f = take n f @ replicate (n - length f) (CHR 0x00)"

section \<open>Writing a record\<close>

definition writeRecord :: "(bytes \<Rightarrow> bytes option) \<Rightarrow> ck_env \<Rightarrow> checkpointer \<Rightarrow> bytes \<Rightarrow> string \<Rightarrow> nat \<Rightarrow> string \<Rightarrow> bytes \<Rightarrow>
    checkpointer \<times> bytes \<times> ck_error option" where
  "writeRecord jcs env ck side kind count head pre =
     (let f = \<lparr>cf_Kind = kind, cf_Stream = ck_stream ck, cf_Count = int count, cf_Head = head,
            cf_Prefix = ''sha256:'' @ hex_EncodeToString pre, cf_At = format_at (ce_at env), cf_Prev = ck_prev ck\<rparr>
      in case encodeCheckpoint jcs f (ce_signer env) of
           Inl err \<Rightarrow> (ck, side, Some err)
         | Inr (_, rec) \<Rightarrow>
             let line = rec @ [LF] in
             (case ce_landed env of
                Some n \<Rightarrow>
                  let side' = side @ take n line
                  in (ck, if ce_truncate env then truncate_file (ck_size ck) side' else side', Some CkWrite)
              | None \<Rightarrow>
                  (ck\<lparr>ck_size := ck_size ck + length line, ck_prev := sha_ref rec, ck_lastAt := ce_done env, ck_pending := 0\<rparr>,
                   side @ line, None)))"

section \<open>Following the stream\<close>

text \<open>The callback of \<^verbatim>\<open>advance\<close>: how many lines were added, and the head at the last one.\<close>

definition advance_emit :: "(bytes \<Rightarrow> bytes option) \<Rightarrow> (nat \<times> string, ck_error) emitter" where
  "advance_emit jcs line long end_off s w =
     (case w of (added, head) \<Rightarrow>
        if \<not> long \<and> wellFormedLine line then
          (case ChainHashRaw jcs (TrimSpace line) of
             Inl err \<Rightarrow> ((added + 1, []), Some (CkEvent err))
           | Inr h \<Rightarrow> ((added + 1, h), None))
        else ((added + 1, []), None))"

text \<open>A stream that shrank under this writer is hashed again from byte zero.\<close>

definition restart_shrunk :: "checkpointer \<Rightarrow> bytes \<Rightarrow> checkpointer" where
  "restart_shrunk ck events =
     (if length events < ck_off ck
      then ck\<lparr>ck_sum := [], ck_off := 0, ck_count := 0, ck_head := [], ck_last := None\<rparr> else ck)"

definition advance :: "(bytes \<Rightarrow> bytes option) \<Rightarrow> ck_env \<Rightarrow> checkpointer \<Rightarrow> bytes \<Rightarrow> checkpointer \<times> (ck_error + nat)" where
  "advance jcs env ck events =
     (if \<not> ce_stat env then (ck, Inl CkStat)
      else
        let ck = restart_shrunk ck events
        in if length events = ck_off ck then (ck, Inr 0)
           else
             let sc = newLineScanner (ck_sum ck) (ck_off ck) (ck_last ck) (ck_count ck) resumeWindow True in
             (case read_section (ce_read env) (drop (ck_off ck) events) of (chunks, rerr) \<Rightarrow>
                (case ls_run (advance_emit jcs) sc chunks rerr (0, ck_head ck) of
                   (sc, _, Some err) \<Rightarrow> (ck\<lparr>ck_sum := ls_sum sc\<rparr>, Inl err)
                 | (sc, (added, head), None) \<Rightarrow>
                     let sc = ls_settle sc
                     in (ck\<lparr>ck_sum := ls_sum sc, ck_last := ls_last sc, ck_off := ls_off sc,
                           ck_count := ck_count ck + added, ck_head := (if added > 0 then head else ck_head ck)\<rparr>,
                         Inr added))))"

definition afterAppend :: "(bytes \<Rightarrow> bytes option) \<Rightarrow> ck_env \<Rightarrow> checkpointer \<Rightarrow> bytes \<Rightarrow> bytes \<Rightarrow>
    checkpointer \<times> bytes \<times> ck_error option" where
  "afterAppend jcs env ck side events =
     (case advance jcs env ck events of
        (ck, Inl err) \<Rightarrow> (ck, side, Some err)
      | (ck, Inr n) \<Rightarrow>
          let ck = ck\<lparr>ck_pending := ck_pending ck + int n\<rparr> in
          if ck_pending ck = 0 then (ck, side, None)
          else if ck_pending ck < cc_Every (ck_cfg ck) \<and> time_Sub (ce_check env) (ck_lastAt ck) < cc_Interval (ck_cfg ck)
          then (ck, side, None)
          else if ck_head ck = [] then (ck, side, None)
          else writeRecord jcs env ck side checkpointKindCheckpoint (ck_count ck) (ck_head ck) (sha256 (ck_sum ck)))"

definition closeLocked :: "(bytes \<Rightarrow> bytes option) \<Rightarrow> ck_env \<Rightarrow> checkpointer \<Rightarrow> bytes \<Rightarrow> bytes \<Rightarrow>
    checkpointer \<times> bytes \<times> ck_error option" where
  "closeLocked jcs env ck side events =
     (case advance jcs env ck events of
        (ck, Inl err) \<Rightarrow> (ck, side, Some err)
      | (ck, Inr n) \<Rightarrow>
          if ck_count ck = 0 \<or> ck_head ck = [] then (ck, side, None)
          else writeRecord jcs env ck side checkpointKindClose (ck_count ck) (ck_head ck) (sha256 (ck_sum ck)))"

section \<open>Opening\<close>

text \<open>\<^verbatim>\<open>filepath.Base\<close> on a slash-separated path.\<close>

definition filepath_Base :: "string \<Rightarrow> string" where
  "filepath_Base p =
     (if p = [] then ''.''
      else let q = rev (dropWhile (\<lambda>c. c = CHR ''/'') (rev p));
               b = rev (takeWhile (\<lambda>c. c \<noteq> CHR ''/'') (rev q))
           in if b = [] then ''/'' else b)"

definition CheckpointFileName :: "string \<Rightarrow> string" where
  "CheckpointFileName stream = stream @ ''.ckpt.ndjson''"

text \<open>
  The file system while a sidecar is opened: \<open>oc_open\<close> for its own opening, then whether it opens,
  sizes and reads for its tail, whether it can be sized and cut, and \<open>oc_now\<close> the clock.
\<close>

record ck_open =
  oc_open :: open_env
  oc_tail_open :: bool
  oc_tail_stat :: bool
  oc_tail_read :: "nat option"
  oc_stat :: bool
  oc_truncate :: bool
  oc_now :: gtime

text \<open>An empty line is a nil slice, so the last record is \<open>[]\<close> both before any and after an empty one.\<close>

definition tail_emit :: "(bytes \<times> nat, ck_error) emitter" where
  "tail_emit line long end_off s w = (if long then (w, Some CkLong) else ((line, end_off), None))"

definition sidecarTail :: "ck_open \<Rightarrow> bytes \<Rightarrow> ck_error + string \<times> nat" where
  "sidecarTail env side =
     (if \<not> oc_tail_open env then Inl CkRead
      else if \<not> oc_tail_stat env then Inl CkStat
      else case read_section (oc_tail_read env) side of (chunks, rerr) \<Rightarrow>
        (case ls_run tail_emit (newLineScanner [] 0 None 0 checkpointRecordCap False) chunks rerr ([], 0) of
           (_, _, Some err) \<Rightarrow> Inl err
         | (_, (lst, whole), None) \<Rightarrow> Inr (if lst = [] then [] else sha_ref lst, whole)))"

text \<open>The callback of the first read: the last head, and the count, head and hash state at the last event.\<close>

definition open_emit :: "(bytes \<Rightarrow> bytes option) \<Rightarrow> (string \<times> nat \<times> string \<times> bytes, ck_error) emitter" where
  "open_emit jcs line long end_off s w =
     (case w of (_, goodCount, goodHead, goodState) \<Rightarrow>
        if \<not> long \<and> wellFormedLine line then
          (case ChainHashRaw jcs (TrimSpace line) of
             Inl err \<Rightarrow> (([], goodCount, goodHead, goodState), Some (CkEvent err))
           | Inr h \<Rightarrow> ((h, ls_lines s, h, ls_sum s), None))
        else (([], goodCount, goodHead, goodState), None))"

definition fresh_checkpointer :: "CheckpointConfig \<Rightarrow> string \<Rightarrow> string \<Rightarrow> nat \<Rightarrow> gtime \<Rightarrow> checkpointer" where
  "fresh_checkpointer cfg stream prev whole now =
     \<lparr>ck_cfg = cfg, ck_stream = stream, ck_size = whole, ck_sum = [], ck_last = None, ck_off = 0, ck_count = 0,
      ck_head = [], ck_prev = (if prev = [] then checkpointGenesis else prev), ck_pending = 0, ck_lastAt = now\<rparr>"

text \<open>A torn final record is cut off; when the sidecar cannot be sized it is left alone.\<close>

definition cut_sidecar :: "ck_open \<Rightarrow> fentry \<Rightarrow> nat \<Rightarrow> ck_error + fentry" where
  "cut_sidecar env fe whole =
     (if oc_stat env \<and> length (fe_bytes fe) > whole
      then (if oc_truncate env then Inr (fe\<lparr>fe_bytes := truncate_file whole (fe_bytes fe)\<rparr>) else Inl CkTruncate)
      else Inr fe)"

text \<open>The one full read of the stream.\<close>

definition first_read :: "(bytes \<Rightarrow> bytes option) \<Rightarrow> ck_env \<Rightarrow> bytes \<Rightarrow> checkpointer \<Rightarrow>
    ck_error + checkpointer \<times> nat \<times> string \<times> bytes" where
  "first_read jcs env events ck =
     (case read_section (ce_read env) events of (chunks, rerr) \<Rightarrow>
        (case ls_run (open_emit jcs) (newLineScanner [] 0 None 0 resumeWindow True) chunks rerr ([], 0, [], []) of
           (_, _, Some err) \<Rightarrow> Inl err
         | (sc, (lastHead, good), None) \<Rightarrow>
             let sc = ls_settle sc
             in Inr (ck\<lparr>ck_sum := ls_sum sc, ck_last := ls_last sc, ck_off := ls_off sc,
                  ck_count := ls_lines sc, ck_head := lastHead\<rparr>, good)))"

text \<open>The resume record, when the last line is not an event but an earlier one is.\<close>

definition resume_record :: "(bytes \<Rightarrow> bytes option) \<Rightarrow> ck_env \<Rightarrow> checkpointer \<Rightarrow> fentry \<Rightarrow> nat \<times> string \<times> bytes \<Rightarrow>
    fentry \<times> (ck_error + checkpointer)" where
  "resume_record jcs env ck fe good =
     (case good of (goodCount, goodHead, goodState) \<Rightarrow>
        if ck_count ck > 0 \<and> ck_head ck = [] \<and> goodCount > 0 then
          (case writeRecord jcs env ck (fe_bytes fe) checkpointKindResume goodCount goodHead (sha256 goodState) of
             (_, side, Some err) \<Rightarrow> (fe\<lparr>fe_bytes := side\<rparr>, Inl err)
           | (ck, side, None) \<Rightarrow> (fe\<lparr>fe_bytes := side\<rparr>, Inr ck))
        else (fe, Inr ck))"

definition openCheckpointer :: "(bytes \<Rightarrow> bytes option) \<Rightarrow> ck_open \<Rightarrow> ck_env \<Rightarrow> bytes \<Rightarrow> string \<Rightarrow> CheckpointConfig \<Rightarrow>
    fentry option \<Rightarrow> fentry option \<times> (ck_error + checkpointer)" where
  "openCheckpointer jcs oenv env events streamPath cfg path =
     (case openAppend (oc_open oenv) path of
        (file, Inl err) \<Rightarrow> (file, Inl (CkOpen err))
      | (None, Inr _) \<Rightarrow> (None, Inl (CkOpen ErrOpen))
      | (Some fe, Inr _) \<Rightarrow>
          (case sidecarTail oenv (fe_bytes fe) of
             Inl err \<Rightarrow> (Some fe, Inl err)
           | Inr (prev, whole) \<Rightarrow>
               (case cut_sidecar oenv fe whole of
                  Inl err \<Rightarrow> (Some fe, Inl err)
                | Inr fe \<Rightarrow>
                    (case first_read jcs env events
                        (fresh_checkpointer cfg (filepath_Base streamPath) prev whole (oc_now oenv)) of
                       Inl err \<Rightarrow> (Some fe, Inl err)
                     | Inr (ck, good) \<Rightarrow>
                         (case resume_record jcs env ck fe good of (fe, res) \<Rightarrow> (Some fe, res))))))"

definition openCheckpointFor :: "(bytes \<Rightarrow> bytes option) \<Rightarrow> ck_open \<Rightarrow> ck_env \<Rightarrow> bytes \<Rightarrow> string \<Rightarrow> CheckpointConfig \<Rightarrow>
    fentry option \<Rightarrow> fentry option \<times> (ck_error + checkpointer)" where
  "openCheckpointFor jcs oenv env events streamPath cfg path =
     (if \<not> ce_stat env then (path, Inl CkStat)
      else openCheckpointer jcs oenv env events streamPath (withDefaults cfg) path)"

section \<open>The checkpointed writer\<close>

text \<open>On an open stream \<open>f\<close>; \<open>path\<close> is the sidecar's directory entry.\<close>

definition NewChainedWriterWithCheckpoints :: "(bytes \<Rightarrow> bytes option) \<Rightarrow> io \<Rightarrow> ck_open \<Rightarrow> ck_env \<Rightarrow> efile \<Rightarrow> string \<Rightarrow>
    CheckpointConfig \<Rightarrow> fentry option \<Rightarrow> efile \<times> fentry option \<times> (ck_error + ChainedWriter \<times> checkpointer)" where
  "NewChainedWriterWithCheckpoints jcs ioe oenv env f streamPath cfg path =
     (if cc_Dir cfg = [] then (f, path, Inl CkNoDir)
      else if \<not> cc_Signer cfg then (f, path, Inl CkNoSigner)
      else case lock_file ioe f of
          (f, False) \<Rightarrow> (f, path, Inl CkLock)
        | (f, True) \<Rightarrow>
            let cw = \<lparr>cw_next = [],
              cw_resumedFrom = (case readTail ioe (ef_bytes f) of Inl _ \<Rightarrow> [] | Inr t \<Rightarrow> tail_hash jcs t)\<rparr>
            in (case openCheckpointFor jcs oenv env (ef_bytes f) streamPath cfg path of
                  (path, Inl err) \<Rightarrow> (fst (unlock_file ioe f), path, Inl err)
                | (path, Inr ck) \<Rightarrow>
                    (case unlock_file ioe f of
                       (f, False) \<Rightarrow> (f, path, Inl CkUnlock)
                     | (f, True) \<Rightarrow> (f, path, Inr (cw, ck)))))"

definition CheckpointedWriter_Write :: "(bytes \<Rightarrow> bytes option) \<Rightarrow> io \<Rightarrow> ck_env \<Rightarrow> ChainedWriter \<Rightarrow> checkpointer \<Rightarrow> efile \<Rightarrow>
    bytes \<Rightarrow> Event \<Rightarrow> ChainedWriter \<times> checkpointer \<times> efile \<times> bytes \<times> ck_error option" where
  "CheckpointedWriter_Write jcs ioe env cw ck f side e =
     (case lock_file ioe f of
        (f, False) \<Rightarrow> (cw, ck, f, side, Some CkLock)
      | (f, True) \<Rightarrow>
          (case cw_appendLocked jcs ioe cw f e of
             (cw, f, werr) \<Rightarrow>
               (case (case werr of
                        Some err \<Rightarrow> (ck, side, Some (CkEvent err))
                      | None \<Rightarrow> afterAppend jcs env ck side (ef_bytes f)) of
                  (ck, side, err) \<Rightarrow>
                    (case unlock_file ioe f of
                       (f, ok) \<Rightarrow> (cw, ck, f, side, if \<not> ok \<and> err = None then Some CkUnlock else err)))))"

text \<open>\<open>close_side\<close> and \<open>close_file\<close> say whether closing the two files succeeds; closing releases the lock.\<close>

definition CheckpointedWriter_Close :: "(bytes \<Rightarrow> bytes option) \<Rightarrow> io \<Rightarrow> ck_env \<Rightarrow> bool \<Rightarrow> bool \<Rightarrow> checkpointer \<Rightarrow> efile \<Rightarrow>
    bytes \<Rightarrow> checkpointer \<times> efile \<times> bytes \<times> ck_error option" where
  "CheckpointedWriter_Close jcs ioe env close_side close_file ck f side =
     (case (case lock_file ioe f of
              (f, False) \<Rightarrow> (ck, f, side, Some CkLock)
            | (f, True) \<Rightarrow>
                (case closeLocked jcs env ck side (ef_bytes f) of
                   (ck, side, err) \<Rightarrow>
                     (case unlock_file ioe f of
                        (f, ok) \<Rightarrow> (ck, f, side, if \<not> ok \<and> err = None then Some CkUnlock else err)))) of
        (ck, f, side, err) \<Rightarrow>
          (ck, f\<lparr>ef_locked := False\<rparr>, side,
           if err = None \<and> (\<not> close_side \<or> \<not> close_file) then Some CkCloseFile else err))"

end
