(* ===== verification/Checkpoint_Verify.thy ===== *)
theory Checkpoint_Verify
  imports Checkpoint_Writer
begin

text \<open>
  \<^verbatim>\<open>VerifyCheckpoints\<close> of event/checkpoint.go: the complete lines of the sidecar, one
  read of the stream that keeps the digest and the chain hash at every line a record counts, and
  one verdict per record.
\<close>

section \<open>The verifier\<close>

datatype CheckpointStatus = CheckpointRefused | CheckpointValid | CheckpointUnsigned

record CheckpointResult =
  cx_Index :: nat
  cx_Kind :: string
  cx_Count :: int
  cx_Status :: CheckpointStatus
  cx_Refusal :: "refusal option"
  cx_Truncated :: bool

record CheckpointReport =
  cp_StreamLines :: nat
  cp_Records :: "CheckpointResult list"

definition set_peek :: "(string \<times> int) setter" where
  "set_peek n c w =
     (case w of (kind, count) \<Rightarrow>
        if n = ''kind'' then map_option (\<lambda>k. (k, count)) (set_string c kind)
        else map_option (\<lambda>i. (kind, i)) (set_int c count))"

text \<open>The error is ignored: what did decode is reported.\<close>

definition peekKindCount :: "bytes \<Rightarrow> string \<times> int" where
  "peekKindCount raw = fst (json_fill [''kind'', ''count''] set_peek raw ([], 0))"

definition side_emit :: "(ckRecordLine list, ck_error) emitter" where
  "side_emit line long end_off s out = (out @ [\<lparr>rl_raw = line, rl_long = long\<rparr>], None)"

text \<open>A reader is the chunks it returns and the error it ends with.\<close>

definition readSidecar :: "bytes list \<times> ck_error option \<Rightarrow> ck_error + ckRecordLine list" where
  "readSidecar r =
     (case ls_run side_emit (newLineScanner [] 0 None 0 checkpointRecordCap False) (fst r) (snd r) [] of
        (_, _, Some err) \<Rightarrow> Inl err
      | (_, out, None) \<Rightarrow> Inr out)"

text \<open>Lines read so far, and the digests and heads kept at the lines some record counts.\<close>

type_synonym kept = "nat \<times> (int \<Rightarrow> bytes option) \<times> (int \<Rightarrow> string option)"

definition stream_emit :: "(bytes \<Rightarrow> bytes option) \<Rightarrow> int list \<Rightarrow> (kept, ck_error) emitter" where
  "stream_emit jcs needed line long end_off s w =
     (case w of (lines, prefixAt, headAt) \<Rightarrow>
        let lines = lines + 1; n = int lines in
        if n \<in> set needed then
          let prefixAt = prefixAt(n \<mapsto> sha256 (ls_sum s)) in
          if \<not> long \<and> wellFormedLine line then
            (case ChainHashRaw jcs (TrimSpace line) of
               Inl err \<Rightarrow> ((lines, prefixAt, headAt), Some (CkEvent err))
             | Inr h \<Rightarrow> ((lines, prefixAt, headAt(n \<mapsto> h)), None))
          else ((lines, prefixAt, headAt), None)
        else ((lines, prefixAt, headAt), None))"

definition status_of :: "refusal option \<times> bool \<times> bool \<Rightarrow> CheckpointStatus" where
  "status_of v = (case v of (Some _, _, _) \<Rightarrow> CheckpointRefused | (None, _, True) \<Rightarrow> CheckpointValid
     | (None, _, False) \<Rightarrow> CheckpointUnsigned)"

text \<open>The hash the next record's prev must have; an empty or overlong line before it is a nil slice.\<close>

definition expect_prev :: "bytes \<Rightarrow> string" where
  "expect_prev prevRaw = (if prevRaw = [] then checkpointGenesis else sha_ref prevRaw)"

fun check_records :: "(bytes \<Rightarrow> bytes option) \<Rightarrow> kept \<Rightarrow> string \<Rightarrow> (string \<Rightarrow> ec_key option) \<Rightarrow> nat \<Rightarrow> bytes \<Rightarrow>
    ckRecordLine list \<Rightarrow> CheckpointResult list" where
  "check_records jcs kept name keys i prevRaw [] = []"
| "check_records jcs kept name keys i prevRaw (r # rs) =
     (case kept of (lines, prefixAt, headAt) \<Rightarrow>
        let v = checkRecord jcs r lines headAt prefixAt (expect_prev prevRaw) name keys;
            pk = peekKindCount (rl_raw r)
        in \<lparr>cx_Index = i, cx_Kind = fst pk, cx_Count = snd pk, cx_Status = status_of v, cx_Refusal = fst v,
            cx_Truncated = fst (snd v)\<rparr> # check_records jcs kept name keys (i + 1) (rl_raw r) rs)"

definition needed_counts :: "ckRecordLine list \<Rightarrow> int list" where
  "needed_counts recs = filter (\<lambda>n. 1 \<le> n) (map (\<lambda>r. snd (peekKindCount (rl_raw r))) recs)"

definition VerifyCheckpoints :: "(bytes \<Rightarrow> bytes option) \<Rightarrow> bytes list \<times> ck_error option \<Rightarrow> bytes list \<times> ck_error option \<Rightarrow>
    string \<Rightarrow> (string \<Rightarrow> ec_key option) \<Rightarrow> ck_error + CheckpointReport" where
  "VerifyCheckpoints jcs stream sidecar name keys =
     (case readSidecar sidecar of
        Inl err \<Rightarrow> Inl err
      | Inr recs \<Rightarrow>
          if recs = [] then Inl ErrNoCheckpoints
          else
            (case ls_run (stream_emit jcs (needed_counts recs)) (newLineScanner [] 0 None 0 resumeWindow False)
                (fst stream) (snd stream) (0, Map.empty, Map.empty) of
               (_, _, Some err) \<Rightarrow> Inl err
             | (_, kept, None) \<Rightarrow>
                 Inr \<lparr>cp_StreamLines = fst kept, cp_Records = check_records jcs kept name keys 1 [] recs\<rparr>))"

definition ResumeCounts :: "CheckpointReport \<Rightarrow> int list" where
  "ResumeCounts r =
     map cx_Count (filter (\<lambda>x. cx_Kind x = checkpointKindResume \<and> cx_Status x = CheckpointValid) (cp_Records r))"

end
