(* ===== verification/Checkpoint_Track.thy ===== *)
theory Checkpoint_Track
  imports Checkpoint_Verify
begin

text \<open>
  What the checkpointer knows of its stream: \<open>follows_stream\<close> says that its hash, offset, line
  count and head are those of a given list of complete lines. Opening establishes it, following the
  stream keeps it, and a read that fails breaks it.
\<close>

section \<open>The head a line gives\<close>

definition line_head :: "(bytes \<Rightarrow> bytes option) \<Rightarrow> bytes \<Rightarrow> string" where
  "line_head jcs l =
     (if wellFormedLine l then (case ChainHashRaw jcs (TrimSpace l) of Inr h \<Rightarrow> h | Inl _ \<Rightarrow> []) else [])"

definition last_head :: "(bytes \<Rightarrow> bytes option) \<Rightarrow> bytes list \<Rightarrow> string" where
  "last_head jcs ls = (if ls = [] then [] else line_head jcs (last ls))"

lemma long_malformed: "resumeWindow < length l \<Longrightarrow> \<not> wellFormedLine l"
  by (simp add: wellFormedLine_def)

lemma advance_emit_line:
  "advance_emit jcs (if length l > resumeWindow then [] else l) (length l > resumeWindow) off s (a, h) = (w, r) \<Longrightarrow>
     (r = None \<longrightarrow> w = (a + 1, line_head jcs l)) \<and> (wellFormedLine l \<or> r = None)"
  using long_malformed [of l]
  by (cases "wellFormedLine l") (auto simp: advance_emit_def line_head_def split: sum.splits if_splits)

lemma emit_all_advance:
  "emit_all resumeWindow keep (advance_emit jcs) s ls (a, h) = (s', w, None) \<Longrightarrow>
     w = (a + length ls, if ls = [] then h else line_head jcs (last ls))"
proof (induction ls arbitrary: s a h)
  case (Cons l ls)
  obtain s1 w1 r1 where 1: "advance_emit jcs (if length l > resumeWindow then [] else l) (length l > resumeWindow) (ls_pos s + length l + 1)
      s1 (a, h) = (w1, r1)" "s1 = s\<lparr>ls_sum := ls_sum s @ l @ [LF], ls_pos := ls_pos s + length l + 1, ls_off := ls_pos s + length l + 1,
            ls_lines := ls_lines s + 1, ls_last := (if keep then Some (ls_sum s @ l @ [LF]) else ls_last s)\<rparr>"
    by (metis surj_pair)
  with Cons.prems have r: "r1 = None" "emit_all resumeWindow keep (advance_emit jcs) s1 ls w1 = (s', w, None)"
    by (auto simp: Let_def split: option.splits)
  from advance_emit_line [OF 1(1)] r(1) have "w1 = (a + 1, line_head jcs l)" by simp
  with Cons.IH [of s1 "a + 1" "line_head jcs l"] r(2) show ?case by auto
qed simp

lemma emit_all_open:
  "emit_all resumeWindow True (open_emit jcs) s ls (h, g) = (s', (h', gc, gh, gs), None) \<Longrightarrow>
     h' = (if ls = [] then h else line_head jcs (last ls)) \<and>
     (g = (gc, gh, gs) \<and> (\<forall>l \<in> set ls. \<not> wellFormedLine l) \<or>
      (\<exists>ps l qs. ls = ps @ l # qs \<and> wellFormedLine l \<and> (\<forall>l \<in> set qs. \<not> wellFormedLine l) \<and>
         gc = ls_lines s + length ps + 1 \<and> ChainHashRaw jcs (TrimSpace l) = Inr gh \<and> gs = ls_sum s @ lines_text (ps @ [l])))"
proof (induction ls arbitrary: s h g)
  case (Cons l ls)
  obtain g1 g2 g3 where g: "g = (g1, g2, g3)" by (cases g)
  define s1 where "s1 = s\<lparr>ls_sum := ls_sum s @ l @ [LF], ls_pos := ls_pos s + length l + 1, ls_off := ls_pos s + length l + 1,
            ls_lines := ls_lines s + 1, ls_last := Some (ls_sum s @ l @ [LF])\<rparr>"
  obtain h1 k1 r1 where 1: "open_emit jcs (if length l > resumeWindow then [] else l) (length l > resumeWindow) (ls_pos s + length l + 1)
      s1 (h, g) = ((h1, k1), r1)"
    by (metis surj_pair)
  with Cons.prems have r: "r1 = None" "emit_all resumeWindow True (open_emit jcs) s1 ls (h1, k1) = (s', (h', gc, gh, gs), None)"
    by (auto simp: Let_def s1_def split: option.splits)
  have h1: "h1 = line_head jcs l" "k1 = (if wellFormedLine l then (ls_lines s + 1, line_head jcs l, ls_sum s @ l @ [LF]) else g)"
    "wellFormedLine l \<Longrightarrow> ChainHashRaw jcs (TrimSpace l) = Inr (line_head jcs l)"
    using 1 r(1) long_malformed [of l] g
    by (auto simp: open_emit_def line_head_def s1_def split: sum.splits if_splits)
  note IH = Cons.IH [OF r(2)]
  have hd: "h' = line_head jcs (last (l # ls))" using IH h1 by (cases "ls = []") auto
  have "g = (gc, gh, gs) \<and> (\<forall>l \<in> set (l # ls). \<not> wellFormedLine l) \<or>
      (\<exists>ps x qs. l # ls = ps @ x # qs \<and> wellFormedLine x \<and> (\<forall>l \<in> set qs. \<not> wellFormedLine l) \<and>
         gc = ls_lines s + length ps + 1 \<and> ChainHashRaw jcs (TrimSpace x) = Inr gh \<and> gs = ls_sum s @ lines_text (ps @ [x]))"
  proof (cases "\<exists>l \<in> set ls. wellFormedLine l")
    case True
    with IH obtain ps x qs where x: "ls = ps @ x # qs" "wellFormedLine x" "\<forall>l \<in> set qs. \<not> wellFormedLine l"
      "gc = ls_lines s1 + length ps + 1" "ChainHashRaw jcs (TrimSpace x) = Inr gh" "gs = ls_sum s1 @ lines_text (ps @ [x])" by blast
    then have "l # ls = (l # ps) @ x # qs" "gc = ls_lines s + length (l # ps) + 1" "gs = ls_sum s @ lines_text ((l # ps) @ [x])"
      by (simp_all add: s1_def)
    with x(2,3,5) show ?thesis by blast
  next
    case False
    then have k: "k1 = (gc, gh, gs)" using IH by (auto simp: in_set_conv_decomp)
    show ?thesis
    proof (cases "wellFormedLine l")
      case True
      with k h1 have "gc = ls_lines s + length [] + 1" "ChainHashRaw jcs (TrimSpace l) = Inr gh" "gs = ls_sum s @ lines_text ([] @ [l])" by simp_all
      moreover have "l # ls = [] @ l # ls" by simp
      ultimately show ?thesis using True False by blast
    next
      case f: False
      with k h1 g False show ?thesis by simp
    qed
  qed
  with hd show ?case by simp
qed auto

section \<open>The tracking invariant\<close>

definition follows_stream :: "(bytes \<Rightarrow> bytes option) \<Rightarrow> checkpointer \<Rightarrow> bytes list \<Rightarrow> bool" where
  "follows_stream jcs ck ls \<longleftrightarrow>
     ck_sum ck = lines_text ls \<and> ck_off ck = length (lines_text ls) \<and> ck_count ck = length ls \<and>
     ck_head ck = last_head jcs ls \<and> (ck_last ck = Some (lines_text ls) \<or> ls = [] \<and> ck_last ck = None)"

lemma lines_text_append [simp]: "lines_text (xs @ ys) = lines_text xs @ lines_text ys"
  by (simp add: lines_text_def)

lemma lines_text_Nil_iff [simp]: "lines_text ls = [] \<longleftrightarrow> ls = []"
  by (cases ls) simp_all

lemma full_lines_no_LF: "full_lines seg p = (ls, r) \<Longrightarrow> LF \<notin> set seg \<Longrightarrow> LF \<notin> set r \<and> (\<forall>l \<in> set ls. LF \<notin> set l)"
proof (induction seg p arbitrary: ls r rule: full_lines.induct)
  case (2 seg c p)
  show ?case
  proof (cases "c = LF")
    case True
    then obtain ks where "full_lines [] p = (ks, r)" "ls = seg # ks" using "2.prems" by (auto split: prod.splits)
    with "2.IH"(1) [OF True] "2.prems" show ?thesis by auto
  next
    case False
    with "2.IH"(2) [OF False, of ls r] "2.prems" show ?thesis by auto
  qed
qed auto

lemma full_lines_lines_text: "\<forall>l \<in> set ls. LF \<notin> set l \<Longrightarrow> full_lines [] (lines_text ls @ q) = (case full_lines [] q of (ks, r) \<Rightarrow> (ls @ ks, r))"
  by (induction ls) (auto simp: full_lines_line [where seg = "[]", simplified] split: prod.splits)

lemma resting_start:
  "h = [] \<and> (st = None \<or> st = Some []) \<or> st = Some h \<Longrightarrow> resting (newLineScanner h off st n cap True)"
  by (auto simp: resting_def at_line_def newLineScanner_def)

text \<open>A whole run from a line boundary, for any callback.\<close>

lemma run_resting:
  assumes "resting s" "full_lines [] (concat ps) = (ls, r)" "ls_run emit s ps None w = (s', w', None)"
  obtains s1 where "emit_all (ls_maxLen s) True emit s ls w = (s1, w', None)" "ls_sum (ls_settle s') = ls_sum s @ lines_text ls"
    "ls_off (ls_settle s') = ls_off s + length (lines_text ls)" "ls_lines (ls_settle s') = ls_lines s + length ls"
    "ls_last (ls_settle s') = Some (ls_sum s @ lines_text ls) \<or> ls = [] \<and> ls_last (ls_settle s') = ls_last s"
proof -
  have at: "at_line s" "ls_keep s" using assms(1) by (auto simp: resting_def)
  from ls_feed_lines [OF at(1) assms(2), of emit w] assms(3) at(2)
  obtain s1 where s1: "emit_all (ls_maxLen s) True emit s ls w = (s1, w', None)" "s' = ls_catch s1 r"
    by (auto simp: ls_run_feed split: prod.splits option.splits)
  note st = emit_all_state [OF s1(1)]
  have "ls_off s = ls_pos s" using at(1) by (simp add: at_line_def)
  with settle_catch [OF emit_all_resting [OF assms(1) s1(1)], of r] st s1 that show thesis by (cases ls) auto
qed

lemma read_section_end: "read_section lim b = (ps, None) \<Longrightarrow> concat ps = b"
  by (auto simp: read_section_def split: option.splits)

section \<open>Following keeps the invariant\<close>

definition no_LF :: "bytes list \<Rightarrow> bool" where
  "no_LF ls \<longleftrightarrow> (\<forall>l \<in> set ls. LF \<notin> set l)"

lemma full_lines_split:
  assumes "no_LF ls" "take (length (lines_text ls)) f = lines_text ls" "full_lines [] f = (ks, r)"
  obtains qs where "ks = ls @ qs" "full_lines [] (drop (length (lines_text ls)) f) = (qs, r)"
proof -
  have "f = lines_text ls @ drop (length (lines_text ls)) f" using assms(2) by (metis append_take_drop_id)
  then have "full_lines [] f = full_lines [] (lines_text ls @ drop (length (lines_text ls)) f)" by simp
  with full_lines_lines_text [of ls "drop (length (lines_text ls)) f"] assms(1,3) that show thesis
    by (auto simp: no_LF_def split: prod.splits)
qed

text \<open>What a successful \<^verbatim>\<open>advance\<close> did: nothing to read, or one whole run.\<close>

definition ck_scanner :: "checkpointer \<Rightarrow> lineScanner" where
  "ck_scanner ck = newLineScanner (ck_sum ck) (ck_off ck) (ck_last ck) (ck_count ck) resumeWindow True"

definition ck_settled :: "checkpointer \<Rightarrow> lineScanner \<Rightarrow> nat \<Rightarrow> string \<Rightarrow> checkpointer" where
  "ck_settled ck sc added h = ck\<lparr>ck_sum := ls_sum (ls_settle sc), ck_last := ls_last (ls_settle sc), ck_off := ls_off (ls_settle sc),
      ck_count := ck_count ck + added, ck_head := (if added > 0 then h else ck_head ck)\<rparr>"

lemma advance_InrE:
  assumes "advance jcs env ck f = (ck', Inr n)" "ck0 = restart_shrunk ck f"
  obtains "length f = ck_off ck0" "ck' = ck0" "n = 0"
  | ps sc added h where "concat ps = drop (ck_off ck0) f" "ls_run (advance_emit jcs) (ck_scanner ck0) ps None (0, ck_head ck0) = (sc, (added, h), None)"
    "ck' = ck_settled ck0 sc added h" "n = added" "ce_stat env" "length f \<noteq> ck_off ck0"
proof (cases "length f = ck_off ck0")
  case True
  then show thesis using assms that(1) by (auto simp: advance_def Let_def split: if_splits)
next
  case False
  obtain ps rerr where ps: "read_section (ce_read env) (drop (ck_off ck0) f) = (ps, rerr)" by fastforce
  obtain sc added h err where run: "ls_run (advance_emit jcs) (ck_scanner ck0) ps rerr (0, ck_head ck0) = (sc, (added, h), err)"
    by (metis surj_pair)
  have stat: "ce_stat env" using assms(1) by (auto simp: advance_def split: if_splits)
  have adv: "advance jcs env ck f = (case err of Some err \<Rightarrow> (ck0\<lparr>ck_sum := ls_sum sc\<rparr>, Inl err)
      | None \<Rightarrow> (ck_settled ck0 sc added h, Inr added))"
    unfolding advance_def Let_def assms(2) [symmetric] ck_scanner_def [symmetric]
    using stat False by (simp add: ps run ck_settled_def split: option.split)
  have err: "err = None" using adv assms(1) by (cases err) simp_all
  then have "ck' = ck_settled ck0 sc added h" "n = added" using adv assms(1) by simp_all
  moreover have "rerr = None" using run err by (auto simp: ls_run_feed split: prod.splits option.splits)
  ultimately show thesis using that(2) run ps err stat False read_section_end by blast
qed

lemma advance_run:
  assumes "follows_stream jcs ck ls" "no_LF ls" "take (length (lines_text ls)) f = lines_text ls"
    and "ls_run (advance_emit jcs) (ck_scanner ck) ps None (0, ck_head ck) = (sc, (added, h), None)"
    and "concat ps = drop (ck_off ck) f"
  shows "follows_stream jcs (ck_settled ck sc added h) (fst (full_lines [] f)) \<and>
    fst (full_lines [] f) = ls @ fst (full_lines [] (drop (ck_off ck) f))"
proof -
  obtain ks r where ks: "full_lines [] f = (ks, r)" by fastforce
  have off: "ck_off ck = length (lines_text ls)" using assms(1) by (simp add: follows_stream_def)
  obtain qs where qs: "ks = ls @ qs" "full_lines [] (drop (ck_off ck) f) = (qs, r)"
    using full_lines_split [OF assms(2,3) ks] off by auto
  define s where "s = ck_scanner ck"
  have rest: "resting s"
    unfolding s_def ck_scanner_def by (rule resting_start) (use assms(1) in \<open>auto simp: follows_stream_def\<close>)
  have "full_lines [] (concat ps) = (qs, r)" using qs(2) assms(5) by simp
  from run_resting [OF rest this assms(4) [folded s_def]]
  obtain s1 where r1: "emit_all (ls_maxLen s) True (advance_emit jcs) s qs (0, ck_head ck) = (s1, (added, h), None)"
    "ls_sum (ls_settle sc) = ls_sum s @ lines_text qs" "ls_off (ls_settle sc) = ls_off s + length (lines_text qs)"
    "ls_last (ls_settle sc) = Some (ls_sum s @ lines_text qs) \<or> qs = [] \<and> ls_last (ls_settle sc) = ls_last s" by blast
  have "ls_maxLen s = resumeWindow" by (simp add: s_def ck_scanner_def newLineScanner_def)
  with r1(1) emit_all_advance [of True jcs s qs 0 "ck_head ck" s1 "(added, h)"]
  have w: "added = length qs" "h = (if qs = [] then ck_head ck else line_head jcs (last qs))" by auto
  show ?thesis
    using r1(2-4) w qs ks assms(1)
    by (auto simp: follows_stream_def last_head_def s_def ck_scanner_def newLineScanner_def ck_settled_def)
qed

lemma follows_stream_reset:
  "follows_stream jcs (ck\<lparr>ck_sum := [], ck_off := 0, ck_count := 0, ck_head := [], ck_last := None\<rparr>) []"
  by (simp add: follows_stream_def last_head_def)

text \<open>
  After a read that succeeds the checkpointer stands at the last line feed of the stream, whether
  the stream grew since or shrank below where it stood.
\<close>

lemma advance_follows:
  assumes "follows_stream jcs ck ls" "no_LF ls" "length f < ck_off ck \<or> take (length (lines_text ls)) f = lines_text ls"
    and "advance jcs env ck f = (ck', Inr n)"
  shows "follows_stream jcs ck' (fst (full_lines [] f)) \<and> ck_prev ck' = ck_prev ck \<and> ck_size ck' = ck_size ck \<and>
    ck_stream ck' = ck_stream ck \<and> ck_cfg ck' = ck_cfg ck"
proof -
  define ck0 where "ck0 = restart_shrunk ck f"
  define ks where "ks = (if length f < ck_off ck then [] else ls)"
  have k: "follows_stream jcs ck0 ks" "no_LF ks" "take (length (lines_text ks)) f = lines_text ks"
    using assms(1-3) follows_stream_reset [of jcs ck] by (auto simp: ck0_def restart_shrunk_def ks_def no_LF_def)
  have same: "ck_prev ck0 = ck_prev ck" "ck_size ck0 = ck_size ck" "ck_stream ck0 = ck_stream ck" "ck_cfg ck0 = ck_cfg ck"
    by (simp_all add: ck0_def restart_shrunk_def)
  from assms(4) ck0_def show ?thesis
  proof (cases rule: advance_InrE)
    case 1
    have "f = lines_text ks @ []"
      using k(1,3) 1 by (simp add: follows_stream_def)
    then have "fst (full_lines [] f) = ks"
      using full_lines_lines_text [of ks "[]"] k(2) by (simp add: no_LF_def)
    with 1 k(1) same show ?thesis by simp
  next
    case (2 ps sc added h)
    from advance_run [OF k 2(2,1)] have "follows_stream jcs ck' (fst (full_lines [] f))" unfolding 2(3) by blast
    moreover have "ck_prev ck' = ck_prev ck" "ck_size ck' = ck_size ck" "ck_stream ck' = ck_stream ck" "ck_cfg ck' = ck_cfg ck"
      using same by (simp_all add: 2(3) ck_settled_def)
    ultimately show ?thesis by blast
  qed
qed

section \<open>A checkpointer to try things on\<close>

definition no_jcs :: "bytes \<Rightarrow> bytes option" where "no_jcs b = None"

definition mute_signer :: signer where
  "mute_signer = \<lparr>sg_KeyID = ''k'', sg_Sign = (\<lambda>_. KeyExpired)\<rparr>"

definition steady_env :: ck_env where
  "steady_env = \<lparr>ce_stat = True, ce_read = None, ce_check = 0, ce_at = 0, ce_done = 0, ce_signer = mute_signer,
     ce_landed = None, ce_truncate = True\<rparr>"

definition sample_cfg :: CheckpointConfig where
  "sample_cfg = \<lparr>cc_Dir = ''d'', cc_Signer = True, cc_Every = 1, cc_Interval = 1\<rparr>"

definition sample_ck :: checkpointer where
  "sample_ck = fresh_checkpointer sample_cfg ''s'' [] 0 0"

lemma read_chunks_short: "b \<noteq> [] \<Longrightarrow> length b \<le> 65536 \<Longrightarrow> read_chunks b = [b]"
  by (subst read_chunks.simps) (simp add: read_chunks.simps [of "[]"])

lemma read_chunks_Nil [simp]: "read_chunks [] = []"
  by (simp add: read_chunks.simps)

lemma not_an_event: "wellFormedLine ''a'' = False"
proof -
  have "Unmarshal ''a'' = Inl ErrInvalidJSON" "TrimSpace ''a'' = ''a''" by code_simp+
  then show ?thesis by (simp add: wellFormedLine_def)
qed

end
