(* ===== verification/Checkpoint_Honest.thy ===== *)
theory Checkpoint_Honest
  imports Checkpoint_Track
begin

text \<open>
  The checkpointer over a whole life: it opens, the stream grows by anyone's appends, records are
  written after appends and at the close. \<open>ck_life\<close> is the set of states it can be in as long as its
  reads of the stream succeed and a torn append of a record is cut off again.
\<close>

section \<open>The life of a checkpointer\<close>

type_synonym ck_state = "checkpointer \<times> bytes \<times> bytes"

definition read_ok :: "checkpointer \<times> (ck_error + nat) \<Rightarrow> bool" where
  "read_ok r = (case snd r of Inr _ \<Rightarrow> True | Inl _ \<Rightarrow> False)"

definition cuts_torn :: "ck_env \<Rightarrow> bool" where
  "cuts_torn env \<longleftrightarrow> ce_landed env = None \<or> ce_truncate env"

inductive ck_life :: "(bytes \<Rightarrow> bytes option) \<Rightarrow> ck_state \<Rightarrow> bool" for jcs where
  opened: "openCheckpointer jcs oenv env f path cfg entry = (Some fe, Inr ck) \<Longrightarrow> oc_stat oenv \<Longrightarrow>
     ck_life jcs (ck, f, fe_bytes fe)"
| grown: "ck_life jcs (ck, f, side) \<Longrightarrow> ck_life jcs (ck, f @ g, side)"
| appended: "ck_life jcs (ck, f, side) \<Longrightarrow> read_ok (advance jcs env ck f) \<Longrightarrow> cuts_torn env \<Longrightarrow>
     afterAppend jcs env ck side f = (ck', side', err) \<Longrightarrow> ck_life jcs (ck', f, side')"
| closed: "ck_life jcs (ck, f, side) \<Longrightarrow> read_ok (advance jcs env ck f) \<Longrightarrow> cuts_torn env \<Longrightarrow>
     closeLocked jcs env ck side f = (ck', side', err) \<Longrightarrow> ck_life jcs (ck', f, side')"

text \<open>The sidecar as the writer knows it: whole records, its length, and the hash of the last one.\<close>

definition last_or_nil :: "bytes list \<Rightarrow> bytes" where
  "last_or_nil rs = (if rs = [] then [] else last rs)"

definition keeps_sidecar :: "checkpointer \<Rightarrow> bytes \<Rightarrow> bytes list \<Rightarrow> bool" where
  "keeps_sidecar ck side rs \<longleftrightarrow>
     side = lines_text rs \<and> no_LF rs \<and> ck_size ck = length side \<and> ck_prev ck = expect_prev (last_or_nil rs)"

definition no_LF_jcs :: "(bytes \<Rightarrow> bytes option) \<Rightarrow> bool" where
  "no_LF_jcs jcs \<longleftrightarrow> (\<forall>x d. jcs x = Some d \<longrightarrow> d \<noteq> [] \<and> LF \<notin> set d)"

lemma encodeCheckpoint_jcs: "encodeCheckpoint jcs f s = Inr (i, r) \<Longrightarrow> \<exists>x. jcs x = Some r"
  by (auto simp: encodeCheckpoint_def Let_def canonicalJSON_def split: option.splits sign_answer.splits if_splits)

lemma truncate_file_append [simp]: "truncate_file (length s) (s @ t) = s"
  by (simp add: truncate_file_def)

text \<open>A record either lands whole behind the others or leaves the sidecar as it was.\<close>

lemma writeRecord_sidecar:
  assumes "keeps_sidecar ck side rs" "no_LF_jcs jcs" "cuts_torn env \<or> err = None"
    and "writeRecord jcs env ck side kind count head pre = (ck', side', err)"
  shows "(err \<noteq> None \<and> ck' = ck \<and> side' = side) \<or>
    (\<exists>r i. err = None \<and> side' = side @ r @ [LF] \<and> keeps_sidecar ck' side' (rs @ [r]) \<and>
       encodeCheckpoint jcs \<lparr>cf_Kind = kind, cf_Stream = ck_stream ck, cf_Count = int count, cf_Head = head,
            cf_Prefix = ''sha256:'' @ hex_EncodeToString pre, cf_At = format_at (ce_at env), cf_Prev = ck_prev ck\<rparr>
         (ce_signer env) = Inr (i, r) \<and>
       ck' = ck\<lparr>ck_size := ck_size ck + length r + 1, ck_prev := sha_ref r, ck_lastAt := ce_done env, ck_pending := 0\<rparr>)"
proof -
  define f where "f = \<lparr>cf_Kind = kind, cf_Stream = ck_stream ck, cf_Count = int count, cf_Head = head,
            cf_Prefix = ''sha256:'' @ hex_EncodeToString pre, cf_At = format_at (ce_at env), cf_Prev = ck_prev ck\<rparr>"
  note w = assms(4) [unfolded writeRecord_def f_def [symmetric] Let_def]
  show ?thesis
  proof (cases "encodeCheckpoint jcs f (ce_signer env)")
    case (Inl e)
    with w show ?thesis by auto
  next
    case (Inr ir)
    obtain i r where ir: "ir = (i, r)" by (cases ir)
    show ?thesis
    proof (cases "ce_landed env")
      case (Some n)
      with w Inr ir assms(1,3) show ?thesis by (auto simp: cuts_torn_def keeps_sidecar_def)
    next
      case None
      have "r \<noteq> []" "LF \<notin> set r"
        using encodeCheckpoint_jcs [OF Inr [unfolded ir]] assms(2) by (auto simp: no_LF_jcs_def)
      then have "keeps_sidecar (ck\<lparr>ck_size := ck_size ck + length r + 1, ck_prev := sha_ref r, ck_lastAt := ce_done env, ck_pending := 0\<rparr>)
          (side @ r @ [LF]) (rs @ [r])"
        using assms(1) by (auto simp: keeps_sidecar_def no_LF_def expect_prev_def last_or_nil_def)
      with None w Inr ir show ?thesis by (auto simp: f_def)
    qed
  qed
qed

lemma follows_stream_cong:
  "ck_sum ck' = ck_sum ck \<Longrightarrow> ck_off ck' = ck_off ck \<Longrightarrow> ck_count ck' = ck_count ck \<Longrightarrow> ck_head ck' = ck_head ck \<Longrightarrow>
     ck_last ck' = ck_last ck \<Longrightarrow> follows_stream jcs ck' ls = follows_stream jcs ck ls"
  by (simp add: follows_stream_def)

text \<open>A write of a record leaves what the checkpointer knows of the stream alone.\<close>

lemma writeRecord_follows:
  "writeRecord jcs env ck side kind count head pre = (ck', side', err) \<Longrightarrow>
     follows_stream jcs ck' ls = follows_stream jcs ck ls \<and> ck_stream ck' = ck_stream ck \<and> ck_cfg ck' = ck_cfg ck"
  by (auto simp: writeRecord_def Let_def follows_stream_def split: sum.splits option.splits)

section \<open>The invariant\<close>

definition ck_inv :: "(bytes \<Rightarrow> bytes option) \<Rightarrow> ck_state \<Rightarrow> bytes list \<Rightarrow> bytes list \<Rightarrow> bool" where
  "ck_inv jcs st ls rs \<longleftrightarrow>
     (case st of (ck, f, side) \<Rightarrow>
        follows_stream jcs ck ls \<and> no_LF ls \<and> take (length (lines_text ls)) f = lines_text ls \<and> keeps_sidecar ck side rs)"

lemma stream_lines: "no_LF (fst (full_lines [] f))" "take (length (lines_text (fst (full_lines [] f)))) f = lines_text (fst (full_lines [] f))"
proof -
  obtain ls r where "full_lines [] f = (ls, r)" by fastforce
  with full_lines_no_LF [of "[]" f ls r] full_lines_concat [of "[]" f ls r]
  show "no_LF (fst (full_lines [] f))" "take (length (lines_text (fst (full_lines [] f)))) f = lines_text (fst (full_lines [] f))"
    by (simp_all add: no_LF_def lines_text_def)
qed

lemma ck_inv_advance:
  assumes "ck_inv jcs (ck, f, side) ls rs" "advance jcs env ck f = (ck', Inr n)"
  shows "ck_inv jcs (ck', f, side) (fst (full_lines [] f)) rs"
proof -
  from advance_follows [of jcs ck ls f env ck' n] assms
  have "follows_stream jcs ck' (fst (full_lines [] f))" "ck_prev ck' = ck_prev ck" "ck_size ck' = ck_size ck"
    by (auto simp: ck_inv_def)
  with assms(1) stream_lines show ?thesis by (simp add: ck_inv_def keeps_sidecar_def)
qed

lemma ck_inv_write:
  assumes "ck_inv jcs (ck, f, side) ls rs" "no_LF_jcs jcs" "cuts_torn env \<or> err = None"
    and "writeRecord jcs env ck side kind count head pre = (ck', side', err)"
  shows "\<exists>rs'. ck_inv jcs (ck', f, side') ls rs'"
  using writeRecord_sidecar [OF _ assms(2,3,4), of rs] writeRecord_follows [OF assms(4)] assms(1)
  by (auto simp: ck_inv_def)

lemma ck_inv_pending: "ck_inv jcs (ck\<lparr>ck_pending := p\<rparr>, f, side) ls rs = ck_inv jcs (ck, f, side) ls rs"
  by (simp add: ck_inv_def follows_stream_def keeps_sidecar_def)

lemma afterAppend_cases:
  assumes "afterAppend jcs env ck side f = (ck', side', err)" "read_ok (advance jcs env ck f)"
  obtains n ck1 where "advance jcs env ck f = (ck1, Inr n)" "ck' = ck1\<lparr>ck_pending := ck_pending ck1 + int n\<rparr>" "side' = side" "err = None"
  | n ck1 where "advance jcs env ck f = (ck1, Inr n)" "ck_head ck1 \<noteq> []"
    "writeRecord jcs env (ck1\<lparr>ck_pending := ck_pending ck1 + int n\<rparr>) side checkpointKindCheckpoint (ck_count ck1) (ck_head ck1) (sha256 (ck_sum ck1)) = (ck', side', err)"
proof -
  obtain ck1 n where "advance jcs env ck f = (ck1, Inr n)"
    using assms(2) by (cases "advance jcs env ck f") (auto simp: read_ok_def split: sum.splits)
  with assms(1) that show thesis by (auto simp: afterAppend_def Let_def split: if_splits)
qed

lemma closeLocked_cases:
  assumes "closeLocked jcs env ck side f = (ck', side', err)" "read_ok (advance jcs env ck f)"
  obtains n where "advance jcs env ck f = (ck', Inr n)" "side' = side" "err = None"
  | n ck1 where "advance jcs env ck f = (ck1, Inr n)" "ck_head ck1 \<noteq> []" "ck_count ck1 \<noteq> 0"
    "writeRecord jcs env ck1 side checkpointKindClose (ck_count ck1) (ck_head ck1) (sha256 (ck_sum ck1)) = (ck', side', err)"
proof -
  obtain ck1 n where "advance jcs env ck f = (ck1, Inr n)"
    using assms(2) by (cases "advance jcs env ck f") (auto simp: read_ok_def split: sum.splits)
  with assms(1) that show thesis by (auto simp: closeLocked_def Let_def split: if_splits)
qed

lemma ck_inv_grow: "ck_inv jcs (ck, f, side) ls rs \<Longrightarrow> ck_inv jcs (ck, f @ g, side) ls rs"
proof -
  assume i: "ck_inv jcs (ck, f, side) ls rs"
  then have "length (take (length (lines_text ls)) f) = length (lines_text ls)" by (simp add: ck_inv_def)
  then have "length (lines_text ls) \<le> length f" by simp
  with i show ?thesis by (simp add: ck_inv_def)
qed

section \<open>Opening establishes it\<close>

lemma run_emit_all:
  assumes "at_line s" "full_lines [] (concat ps) = (ls, r)" "ls_run emit s ps rerr w = (s', w', None)"
  obtains s1 where "emit_all (ls_maxLen s) (ls_keep s) emit s ls w = (s1, w', None)" "s' = ls_catch s1 r" "rerr = None"
  using ls_feed_lines [OF assms(1,2), of emit w] assms(3)
  by (auto simp: ls_run_feed split: prod.splits option.splits)

lemma tail_emit_line: "tail_emit l False n s w = ((l, n), None)"
  by (simp add: tail_emit_def)

lemma emit_all_tail:
  "emit_all cap False tail_emit s ls w = (s', w', None) \<Longrightarrow>
     w' = (if ls = [] then w else (last ls, ls_pos s + length (lines_text ls))) \<and> (\<forall>l \<in> set ls. length l \<le> cap)"
proof (induction ls arbitrary: s w)
  case (Cons l ls)
  then have "\<not> length l > cap" by (auto simp: tail_emit_def Let_def split: if_splits)
  with Cons.prems have "emit_all cap False tail_emit (s\<lparr>ls_sum := ls_sum s @ l @ [LF], ls_pos := ls_pos s + length l + 1,
      ls_off := ls_pos s + length l + 1, ls_lines := ls_lines s + 1\<rparr>) ls (l, ls_pos s + length l + 1) = (s', w', None)"
    using tail_emit_line by (auto simp: Let_def)
  from Cons.IH [OF this] \<open>\<not> length l > cap\<close> show ?case by auto
qed simp

lemma sidecarTail_lines:
  assumes "sidecarTail env side = Inr (prev, n)"
  obtains rs r where "full_lines [] side = (rs, r)" "n = length (lines_text rs)" "\<forall>l \<in> set rs. length l \<le> checkpointRecordCap"
    "prev = (if last_or_nil rs = [] then [] else sha_ref (last_or_nil rs))"
proof -
  obtain ps rerr where ps: "read_section (oc_tail_read env) side = (ps, rerr)" by fastforce
  define s where "s = newLineScanner [] 0 None 0 checkpointRecordCap False"
  obtain s' lst m where run: "ls_run tail_emit s ps rerr ([], 0) = (s', (lst, m), None)" "prev = (if lst = [] then [] else sha_ref lst)" "n = m"
    using assms ps by (auto simp: sidecarTail_def s_def split: if_splits prod.splits option.splits)
  obtain rs r where rs: "full_lines [] (concat ps) = (rs, r)" by fastforce
  have s: "at_line s" "ls_maxLen s = checkpointRecordCap" "ls_keep s = False" "ls_pos s = 0"
    by (simp_all add: s_def at_line_def newLineScanner_def)
  obtain s1 where e: "emit_all (ls_maxLen s) (ls_keep s) tail_emit s rs ([], 0) = (s1, (lst, m), None)" and rerr: "rerr = None"
    using run_emit_all [OF s(1) rs run(1)] by blast
  from emit_all_tail [OF e [unfolded s(2,3)]] run(2,3) s(4) rs read_section_end [OF ps [unfolded rerr]] that [of rs r]
  show thesis by (auto simp: last_or_nil_def split: if_splits)
qed

lemma sidecar_cut:
  assumes "full_lines [] side = (rs, r)" "n = length (lines_text rs)"
  shows "(if n < length side then truncate_file n side else side) = lines_text rs \<and> no_LF rs"
proof -
  have "side = lines_text rs @ r" using full_lines_concat [OF assms(1)] by (simp add: lines_text_def)
  moreover have "no_LF rs" using full_lines_no_LF [OF assms(1)] by (simp add: no_LF_def)
  ultimately show ?thesis using assms(2) by auto
qed

lemma first_read_follows:
  assumes "first_read jcs env f ck = Inr (ck', gc, gh, gs)"
  shows "follows_stream jcs ck' (fst (full_lines [] f)) \<and> ck_prev ck' = ck_prev ck \<and> ck_size ck' = ck_size ck \<and>
    ck_stream ck' = ck_stream ck \<and> ck_cfg ck' = ck_cfg ck \<and>
    (gc = 0 \<or> (\<exists>ps l qs. fst (full_lines [] f) = ps @ l # qs \<and> wellFormedLine l \<and> (\<forall>l \<in> set qs. \<not> wellFormedLine l) \<and>
         gc = length ps + 1 \<and> ChainHashRaw jcs (TrimSpace l) = Inr gh \<and> gs = lines_text (ps @ [l])))"
proof -
  obtain ps rerr where ps: "read_section (ce_read env) f = (ps, rerr)" by fastforce
  define s where "s = newLineScanner [] 0 None 0 resumeWindow True"
  obtain sc lh where run: "ls_run (open_emit jcs) s ps rerr ([], 0, [], []) = (sc, (lh, gc, gh, gs), None)"
    and ck': "ck' = ck\<lparr>ck_sum := ls_sum (ls_settle sc), ck_last := ls_last (ls_settle sc), ck_off := ls_off (ls_settle sc),
     ck_count := ls_lines (ls_settle sc), ck_head := lh\<rparr>"
    using assms by (auto simp: first_read_def ps s_def Let_def split: prod.splits option.splits)
  obtain ls q where ls: "full_lines [] (concat ps) = (ls, q)" by fastforce
  have s: "at_line s" "resting s" "ls_maxLen s = resumeWindow"
    by (simp_all add: s_def at_line_def newLineScanner_def resting_def)
  have rerr: "rerr = None" using run_emit_all [OF s(1) ls run] by blast
  then have f: "concat ps = f" using read_section_end ps by blast
  from run_resting [OF s(2) ls run [unfolded rerr]]
  obtain s2 where r2: "emit_all resumeWindow True (open_emit jcs) s ls ([], 0, [], []) = (s2, (lh, gc, gh, gs), None)"
    "ls_sum (ls_settle sc) = ls_sum s @ lines_text ls" "ls_off (ls_settle sc) = ls_off s + length (lines_text ls)"
    "ls_lines (ls_settle sc) = ls_lines s + length ls"
    "ls_last (ls_settle sc) = Some (ls_sum s @ lines_text ls) \<or> ls = [] \<and> ls_last (ls_settle sc) = ls_last s"
    using s(3) by metis
  note e = emit_all_open [OF r2(1)]
  have z: "ls_sum s = []" "ls_lines s = 0" "ls_off s = 0" "ls_last s = None" by (simp_all add: s_def newLineScanner_def)
  have "follows_stream jcs ck' ls"
    using r2(2-5) e z by (auto simp: follows_stream_def ck' last_head_def)
  moreover have "gc = 0 \<or> (\<exists>ps l qs. ls = ps @ l # qs \<and> wellFormedLine l \<and> (\<forall>l \<in> set qs. \<not> wellFormedLine l) \<and>
         gc = length ps + 1 \<and> ChainHashRaw jcs (TrimSpace l) = Inr gh \<and> gs = lines_text (ps @ [l]))"
    using e z by auto
  ultimately show ?thesis using ls f by (simp add: ck')
qed

lemma cut_sidecar_whole:
  assumes "cut_sidecar env fe n = Inr fe'" "oc_stat env" "full_lines [] (fe_bytes fe) = (rs, r)" "n = length (lines_text rs)"
  shows "fe_bytes fe' = lines_text rs \<and> no_LF rs"
  using sidecar_cut [OF assms(3,4)] assms(1,2) by (auto simp: cut_sidecar_def split: if_splits)

lemma openCheckpointer_cases:
  assumes "openCheckpointer jcs oenv env f path cfg entry = (Some fe, Inr ck)" "oc_stat oenv"
  obtains fe0 fe1 rs ck1 good where "openAppend (oc_open oenv) entry = (Some fe0, Inr ())" "rs = fst (full_lines [] (fe_bytes fe0))"
    "resume_record jcs env ck1 fe1 good = (fe, Inr ck)" "fe_bytes fe1 = lines_text rs" "no_LF rs"
    "keeps_sidecar ck1 (fe_bytes fe1) rs" "first_read jcs env f
       (fresh_checkpointer cfg (filepath_Base path) (if last_or_nil rs = [] then [] else sha_ref (last_or_nil rs)) (length (lines_text rs)) (oc_now oenv)) = Inr (ck1, good)"
proof -
  obtain fe0 where fe0: "openAppend (oc_open oenv) entry = (Some fe0, Inr ())"
    using assms(1) by (auto simp: openCheckpointer_def split: prod.splits sum.splits option.splits)
  obtain prev n where tl: "sidecarTail oenv (fe_bytes fe0) = Inr (prev, n)"
    using assms(1) fe0 by (cases "sidecarTail oenv (fe_bytes fe0)") (auto simp: openCheckpointer_def)
  obtain rs r where rs: "full_lines [] (fe_bytes fe0) = (rs, r)" "n = length (lines_text rs)"
    "prev = (if last_or_nil rs = [] then [] else sha_ref (last_or_nil rs))"
    using sidecarTail_lines [OF tl] by metis
  obtain fe1 where fe1: "cut_sidecar oenv fe0 n = Inr fe1"
    using assms(1) fe0 tl by (cases "cut_sidecar oenv fe0 n") (auto simp: openCheckpointer_def)
  obtain ck1 good where r: "first_read jcs env f (fresh_checkpointer cfg (filepath_Base path) prev n (oc_now oenv)) = Inr (ck1, good)"
    using assms(1) fe0 tl fe1
    by (cases "first_read jcs env f (fresh_checkpointer cfg (filepath_Base path) prev n (oc_now oenv))") (auto simp: openCheckpointer_def)
  have res: "resume_record jcs env ck1 fe1 good = (fe, Inr ck)"
    using assms(1) fe0 tl fe1 r by (auto simp: openCheckpointer_def split: prod.splits)
  note w = cut_sidecar_whole [OF fe1 assms(2) rs(1,2)]
  obtain gc gh gs where "good = (gc, gh, gs)" by (cases good)
  with first_read_follows [of jcs env f _ ck1 gc gh gs] r
  have "ck_prev ck1 = (if prev = [] then checkpointGenesis else prev)" "ck_size ck1 = n"
    by (auto simp: fresh_checkpointer_def)
  then have "keeps_sidecar ck1 (fe_bytes fe1) rs"
    using w rs(2,3) by (simp add: keeps_sidecar_def expect_prev_def sha_ref_def)
  with fe0 res w r rs that [of fe0 rs ck1 fe1 good] show thesis by simp
qed

lemma openCheckpointer_inv:
  assumes "openCheckpointer jcs oenv env f path cfg entry = (Some fe, Inr ck)" "oc_stat oenv" "no_LF_jcs jcs"
  shows "\<exists>rs. ck_inv jcs (ck, f, fe_bytes fe) (fst (full_lines [] f)) rs"
proof -
  obtain fe1 rs ck1 good where o: "resume_record jcs env ck1 fe1 good = (fe, Inr ck)" "keeps_sidecar ck1 (fe_bytes fe1) rs"
    "first_read jcs env f
       (fresh_checkpointer cfg (filepath_Base path) (if last_or_nil rs = [] then [] else sha_ref (last_or_nil rs)) (length (lines_text rs)) (oc_now oenv)) = Inr (ck1, good)"
    by (rule openCheckpointer_cases [OF assms(1,2)])
  obtain gc gh gs where g: "good = (gc, gh, gs)" by (cases good)
  have inv1: "ck_inv jcs (ck1, f, fe_bytes fe1) (fst (full_lines [] f)) rs"
    using first_read_follows [OF o(3) [unfolded g]] o(2) stream_lines [of f] by (simp add: ck_inv_def)
  show ?thesis
  proof (cases "0 < ck_count ck1 \<and> ck_head ck1 = [] \<and> 0 < gc")
    case False
    then have "ck = ck1 \<and> fe = fe1" using o(1) g by (auto simp: resume_record_def)
    with inv1 show ?thesis by blast
  next
    case True
    obtain ck2 side2 err where w: "writeRecord jcs env ck1 (fe_bytes fe1) checkpointKindResume gc gh (sha256 gs) = (ck2, side2, err)"
      by (metis surj_pair)
    have "err = None" "ck = ck2" "fe_bytes fe = side2"
      using o(1) g True w by (auto simp: resume_record_def split: option.splits)
    with ck_inv_write [OF inv1 assms(3) _ w] show ?thesis by auto
  qed
qed

lemma ck_life_inv:
  assumes "ck_life jcs (ck, f, side)" "no_LF_jcs jcs"
  shows "\<exists>ls rs. ck_inv jcs (ck, f, side) ls rs"
  using assms(1)
proof (induction "(ck, f, side)" arbitrary: ck f side rule: ck_life.induct)
  case opened
  with assms(2) openCheckpointer_inv show ?case by blast
next
  case (grown ck f side g)
  then obtain ls rs where "ck_inv jcs (ck, f, side) ls rs" by blast
  then have "ck_inv jcs (ck, f @ g, side) ls rs" by (rule ck_inv_grow)
  then show ?case by blast
next
  case (appended ck f side env ck' side' err)
  then obtain ls rs where inv: "ck_inv jcs (ck, f, side) ls rs" by blast
  from appended(5,3) show ?case
  proof (cases rule: afterAppend_cases)
    case (1 n ck1)
    with ck_inv_advance [OF inv 1(1)] ck_inv_pending show ?thesis by blast
  next
    case (2 n ck1)
    with ck_inv_write [OF _ assms(2) _ 2(3)] ck_inv_advance [OF inv 2(1)] ck_inv_pending appended(4) show ?thesis by blast
  qed
next
  case (closed ck f side env ck' side' err)
  then obtain ls rs where inv: "ck_inv jcs (ck, f, side) ls rs" by blast
  from closed(5,3) show ?case
  proof (cases rule: closeLocked_cases)
    case (1 n)
    with ck_inv_advance [OF inv 1(1)] show ?thesis by blast
  next
    case (2 n ck1)
    with ck_inv_write [OF ck_inv_advance [OF inv 2(1)] assms(2) _ 2(4)] closed(4) show ?thesis by blast
  qed
qed

definition sample_open :: ck_open where
  "sample_open = \<lparr>oc_open = \<lparr>oe_openable = True, oe_owner = Some True, oe_race = None, oe_creatable = True, oe_chmod = True,
     oe_mask = (\<lambda>m. m)\<rparr>, oc_tail_open = True, oc_tail_stat = True, oc_tail_read = None, oc_stat = True, oc_truncate = True, oc_now = 0\<rparr>"

text \<open>Opened on an empty stream and a missing sidecar.\<close>

lemma sample_opened:
  "openCheckpointer jcs sample_open steady_env [] ''s'' sample_cfg None = (Some \<lparr>fe_bytes = [], fe_mode = 416\<rparr>, Inr sample_ck)"
  by (simp add: openCheckpointer_def sample_open_def openAppend_def sidecarTail_def read_section_def newLineScanner_def
      cut_sidecar_def first_read_def steady_env_def ls_settle_def resume_record_def filepath_Base_def sample_ck_def
      fresh_checkpointer_def Let_def)

lemma sample_life: "ck_life jcs (sample_ck, [], [])"
proof -
  have "ck_life jcs (sample_ck, [], fe_bytes \<lparr>fe_bytes = [], fe_mode = 416\<rparr>)"
    by (rule ck_life.opened [OF sample_opened]) (simp add: sample_open_def)
  then show ?thesis by simp
qed

end
