(* ===== verification/Jcs.thy ===== *)
theory Jcs
  imports Json_Struct
begin

text \<open>
  What the module relies on of \<^verbatim>\<open>jcs.Transform\<close> (RFC 8785, github.com/gowebpki/jcs), for
  the flat objects of strings and numbers it canonicalises: the output is a JSON object with the
  same members, canonical itself, on one line, and it depends on the members' values only. The laws
  are a hypothesis about the argument \<open>jcs\<close>; \<open>value_jcs\<close> is a function that has them.
\<close>

section \<open>Strings with nothing lone in them\<close>

text \<open>No escape of a surrogate.\<close>

fun clean_raw :: "string \<Rightarrow> bool" where
  "clean_raw (c # d # s) =
     (if c = CHR 0x5C then (case getu4 (c # d # s) of Some r \<Rightarrow> \<not> is_surrogate r | None \<Rightarrow> True) \<and> clean_raw s
      else clean_raw (d # s))"
| "clean_raw _ = True"

lemma clean_plain: "c \<noteq> CHR 0x5C \<Longrightarrow> clean_raw (c # t) = clean_raw t"
  by (cases t) simp_all

lemma clean_simple: "e \<noteq> CHR ''u'' \<Longrightarrow> clean_raw (CHR 0x5C # e # t) = clean_raw t"
  by (simp add: getu4_none)

declare clean_raw.simps(1) [simp del]

lemma hex_not_escape: "is_hex h \<Longrightarrow> h \<noteq> CHR 0x5C"
  by (auto simp: hex_defs)

lemma clean_u4:
  assumes "is_hex h1" "is_hex h2" "is_hex h3" "is_hex h4" "getu4 (CHR 0x5C # CHR ''u'' # h1 # h2 # h3 # h4 # t) = Some r"
  shows "clean_raw (CHR 0x5C # CHR ''u'' # h1 # h2 # h3 # h4 # t) = (\<not> is_surrogate r \<and> clean_raw t)"
  using assms hex_not_escape by (simp add: clean_plain clean_raw.simps(1) [of "CHR 0x5C" "CHR ''u''"])

lemma clean_conts: "CHR 0x5C \<notin> set p \<Longrightarrow> clean_raw (p @ t) = clean_raw t"
  by (induction p) (auto simp: clean_plain)

lemma is_hex_digits: "is_hex (CHR ''0'')" "is_hex (CHR ''2'')" "is_hex (CHR ''8'')" "is_hex (CHR ''9'')" "is_hex (CHR ''f'')" "is_hex (CHR ''d'')"
  by (simp_all add: hex_defs)

lemma getu4_low: "h1 = CHR ''0'' \<or> h1 = CHR ''2'' \<Longrightarrow> getu4 (CHR 0x5C # CHR ''u'' # h1 # t) = Some r \<Longrightarrow> \<not> is_surrogate r"
proof -
  have v: "hex_value c = Some x \<Longrightarrow> x < 16" for c x by (auto simp: hex_value_def Let_def split: if_splits)
  assume "h1 = CHR ''0'' \<or> h1 = CHR ''2''" "getu4 (CHR 0x5C # CHR ''u'' # h1 # t) = Some r"
  then obtain h2 h3 h4 u a b c d where "t = h2 # h3 # h4 # u" "hex_value h1 = Some a" "a \<le> 2" "hex_value h2 = Some b" "hex_value h3 = Some c"
      "hex_value h4 = Some d" "r = ((a * 16 + b) * 16 + c) * 16 + d"
    by (fastforce simp: getu4_def hex_value_def split: list.splits option.splits)
  with v [of h2 b] v [of h3 c] v [of h4 d] show ?thesis by (simp add: is_surrogate_def)
qed

lemma clean_low:
  assumes "is_hex h2" "is_hex h3" "is_hex h4" "h1 = CHR ''0'' \<or> h1 = CHR ''2''"
  shows "clean_raw (CHR 0x5C # CHR ''u'' # h1 # h2 # h3 # h4 # t) = clean_raw t"
proof -
  have h: "is_hex h1" using assms(4) is_hex_digits by auto
  obtain r where r: "getu4 (CHR 0x5C # CHR ''u'' # h1 # h2 # h3 # h4 # t) = Some r"
    using getu4_hexes [OF h assms(1-3)] by blast
  from clean_u4 [OF h assms(1-3) r] getu4_low [OF assms(4) r] show ?thesis by simp
qed

lemma clean_u00: "clean_raw (u00 c @ t) = clean_raw t"
  unfolding u00_def append.simps
  by (rule clean_low) (simp_all add: is_hex_hexDigit is_hex_digits)

lemma clean_2028: "clean_raw (esc_2028 s @ t) = clean_raw t"
  unfolding esc_2028_def append.simps
  by (rule clean_low) (simp_all add: is_hex_digits)

lemma clean_ufffd: "clean_raw ((CHR 0x5C # ''ufffd'') @ t) = clean_raw t"
proof -
  have "getu4 (CHR 0x5C # CHR ''u'' # CHR ''f'' # CHR ''f'' # CHR ''f'' # CHR ''d'' # t) = Some 65533"
    by (simp add: getu4_def hex_value_def)
  from clean_u4 [OF is_hex_digits(5) is_hex_digits(5) is_hex_digits(5) is_hex_digits(6) this]
  show ?thesis by (simp add: is_surrogate_def)
qed

lemma clean_esc_ascii: "clean_raw (esc_ascii c @ t) = clean_raw t"
  by (auto simp: esc_ascii_def clean_u00 clean_plain clean_simple)

lemma high_no_escape: "list_all (\<lambda>c. 128 \<le> (of_char c :: nat)) p \<Longrightarrow> CHR 0x5C \<notin> set p"
  by (auto simp: list_all_iff)

lemma clean_enc_str: "clean_raw (enc_str s)"
proof (induction s rule: enc_str_induct)
  case (ascii c cs)
  then show ?case by (simp add: enc_str_ascii clean_esc_ascii)
next
  case (bad c cs)
  from enc_str_bad [OF bad(1,2)] clean_ufffd [of "enc_str cs"] bad(3) show ?case by simp
next
  case (sep s)
  then show ?case by (simp add: enc_str_sep clean_2028)
next
  case (rune c cs)
  from enc_str_rune [OF rune(1-3)] clean_conts [OF high_no_escape [OF utf8_rune_high [OF rune(1,2)]]] rune(4)
  show ?case by simp
qed simp

lemma clean_html_raw: "raw_ok s \<Longrightarrow> clean_raw s \<Longrightarrow> clean_raw (html_raw s)"
proof (induction s rule: measure_induct_rule [of length])
  case (less s)
  show ?case
  proof (cases s)
    case (Cons c cs)
    show ?thesis
    proof (cases "c = CHR 0x5C")
      case True
      then have "raw_ok (CHR 0x5C # cs)" using less.prems Cons by simp
      then show ?thesis
      proof (cases cs rule: raw_ok_escape)
        case (1 e u)
        then have e: "e \<noteq> CHR ''u''" "\<not> html_special e" "(of_char e :: nat) < 128"
          by (auto simp: simple_escape_def html_special_def)
        then have "clean_raw u" using less.prems(2) Cons True 1 clean_simple by simp
        with less.IH [of u] 1 e Cons True show ?thesis
          by (simp add: html_raw_low html_special_def clean_simple)
      next
        case (2 h1 h2 h3 h4 u)
        obtain r where r: "\<And>t. getu4 (CHR 0x5C # CHR ''u'' # h1 # h2 # h3 # h4 # t) = Some r"
          using getu4_hexes [OF 2(2-5)] by blast
        note cl = clean_u4 [OF 2(2-5) r]
        have "\<not> is_surrogate r \<and> clean_raw u" using less.prems(2) cl [of u] Cons True 2(1) by simp
        with less.IH [of u] 2 Cons True cl [of "html_raw u"] html_raw_hexes [OF 2(2-5)] show ?thesis by simp
      qed
    next
      case False
      then have cs: "raw_ok cs" "clean_raw cs" using less.prems Cons raw_ok_plain [of c cs] by (simp_all add: clean_plain)
      show ?thesis
      proof (cases "is_sep_2028 s")
        case True
        then obtain x t where x: "s = CHR 0xE2 # CHR 0x80 # x # t" "x = CHR 0xA8 \<or> x = CHR 0xA9" using is_sep_2028D by blast
        then have "lex_piece [CHR 0xE2, CHR 0x80, x]" by (intro lex_piece_high) auto
        then have "raw_ok t" using raw_ok_piece [of "[CHR 0xE2, CHR 0x80, x]" t] less.prems(1) x by simp
        moreover have "CHR 0x5C \<notin> set [CHR 0xE2, CHR 0x80, x]" using x(2) by auto
        from clean_conts [OF this, of t] less.prems(2) x(1) have "clean_raw t" by simp
        ultimately show ?thesis using less.IH [of t] x True by (simp add: html_raw_sep clean_2028)
      next
        case False
        with \<open>c \<noteq> CHR 0x5C\<close> cs less.IH [of cs] Cons show ?thesis
          by (cases "html_special c") (simp_all add: html_raw_special html_raw_plain clean_u00 clean_plain)
      qed
    qed
  qed simp
qed

lemma raw_ok_cons: "c \<noteq> CHR 0x22 \<Longrightarrow> c \<noteq> CHR 0x5C \<Longrightarrow> 32 \<le> (of_char c :: nat) \<Longrightarrow> raw_ok (c # t) = raw_ok t"
  using raw_ok_piece [OF lex_piece_plain, of c t] by simp

lemma raw_ok_ctl: "raw_ok (c # cs) \<Longrightarrow> c \<noteq> CHR 0x5C \<Longrightarrow> 32 \<le> (of_char c :: nat)"
  by (auto simp: raw_ok_def split: if_splits)

lemma raw_ok_html: "raw_ok s \<Longrightarrow> raw_ok (html_raw s)"
proof (induction s rule: measure_induct_rule [of length])
  case (less s)
  show ?case
  proof (cases s)
    case (Cons c cs)
    show ?thesis
    proof (cases "c = CHR 0x5C")
      case True
      then have "raw_ok (CHR 0x5C # cs)" using less.prems Cons by simp
      then show ?thesis
      proof (cases cs rule: raw_ok_escape)
        case (1 e u)
        then have e: "e \<noteq> CHR ''u''" "\<not> html_special e" "(of_char e :: nat) < 128"
          by (auto simp: simple_escape_def html_special_def)
        with less.IH [of u] 1 Cons True raw_ok_piece [OF lex_piece_escape [OF 1(2)], of "html_raw u"] show ?thesis
          by (simp add: html_raw_low html_special_def)
      next
        case (2 h1 h2 h3 h4 u)
        with less.IH [of u] Cons True html_raw_hexes [OF 2(2-5)] raw_ok_piece [OF lex_piece_u4 [OF 2(2-5)], of "html_raw u"]
        show ?thesis by simp
      qed
    next
      case False
      then have c: "raw_ok cs" "c \<noteq> CHR 0x22" "32 \<le> (of_char c :: nat)"
        using less.prems Cons raw_ok_plain [of c cs] raw_ok_ctl [of c cs] by simp_all
      show ?thesis
      proof (cases "is_sep_2028 s")
        case True
        then obtain x t where x: "s = CHR 0xE2 # CHR 0x80 # x # t" "x = CHR 0xA8 \<or> x = CHR 0xA9" using is_sep_2028D by blast
        then have "lex_piece [CHR 0xE2, CHR 0x80, x]" by (intro lex_piece_high) auto
        then have "raw_ok t" using raw_ok_piece [of "[CHR 0xE2, CHR 0x80, x]" t] less.prems(1) x by simp
        with less.IH [of t] x True raw_ok_piece [OF lex_piece_2028] show ?thesis by (simp add: html_raw_sep)
      next
        case f: False
        with False c less.IH [of cs] Cons raw_ok_piece [OF lex_piece_u00] show ?thesis
          by (cases "html_special c") (simp_all add: html_raw_special html_raw_plain raw_ok_cons)
      qed
    qed
  qed (use less.prems in simp)
qed

section \<open>Valid text\<close>

lemma valid_utf8_rune: "0 < utf8_len s \<Longrightarrow> valid_utf8 s = valid_utf8 (drop (utf8_len s) s)"
  by (subst valid_utf8.simps) (auto simp: utf8_len_def)

lemma utf8_len_append: "0 < utf8_len s \<Longrightarrow> utf8_len (s @ t) = utf8_len s"
  using utf8_len_prefix [of s "drop (utf8_len s) s @ t"] by (metis append_assoc append_take_drop_id)

lemma valid_append: "valid_utf8 p \<Longrightarrow> valid_utf8 (p @ t) = valid_utf8 t"
proof (induction p rule: valid_utf8.induct)
  case (1 p)
  show ?case
  proof (cases "p = []")
    case False
    with "1.prems" have k: "utf8_len p \<noteq> 0" "valid_utf8 (drop (utf8_len p) p)"
      by (auto simp: valid_utf8.simps [of p] split: if_splits)
    with 1(1) [OF False k(1,2)] utf8_len_append [of p t] utf8_len_le [of p] show ?thesis
      by (simp add: valid_utf8_rune [of "p @ t"])
  qed simp
qed

lemma valid_take_rune: "0 < utf8_len s \<Longrightarrow> valid_utf8 (take (utf8_len s) s)"
  using utf8_len_prefix [of s "[]"] utf8_len_le [of s] valid_utf8_rune [of "take (utf8_len s) s"] by simp

lemma hexDigit_ascii: "n < 16 \<Longrightarrow> (of_char (hexDigit n) :: nat) < 128"
  by (simp add: of_char_hexDigit)

lemma ascii_u00: "(of_char c :: nat) < 128 \<Longrightarrow> ascii (u00 c)"
  by (simp add: u00_def ascii_def hexDigit_ascii)

lemma ascii_esc: "(of_char c :: nat) < 128 \<Longrightarrow> ascii (esc_ascii c)"
  by (simp add: esc_ascii_def ascii_u00) (simp add: ascii_def)

lemma ascii_2028: "ascii (esc_2028 s)"
  by (simp add: esc_2028_def ascii_def)

lemma ascii_ufffd: "ascii (CHR 0x5C # ''ufffd'')"
  by (simp add: ascii_def)

lemma valid_enc_str: "valid_utf8 (enc_str s)"
proof (induction s rule: enc_str_induct)
  case (ascii c cs)
  then show ?case by (simp only: enc_str_ascii valid_append [OF ascii_valid [OF ascii_esc]])
next
  case (bad c cs)
  from enc_str_bad [OF bad(1,2)] valid_append [OF ascii_valid [OF ascii_ufffd], of "enc_str cs"] bad(3) show ?case by simp
next
  case (sep s)
  then show ?case by (simp only: enc_str_sep valid_append [OF ascii_valid [OF ascii_2028]])
next
  case (rune c cs)
  from enc_str_rune [OF rune(1-3)] valid_append [OF valid_take_rune [OF rune(2)]] rune(4) show ?case by simp
qed simp

lemma valid_html_raw: "valid_utf8 s \<Longrightarrow> valid_utf8 (html_raw s)"
proof (induction s rule: enc_str_induct)
  case (ascii c cs)
  then have "valid_utf8 cs" "ascii [c]" using valid_utf8_rune [of "c # cs"] by (simp_all add: utf8_len_ascii ascii_def)
  with ascii show ?case
    using valid_append [OF ascii_valid [OF ascii_u00], of c] valid_append [OF ascii_valid, of "[c]"]
    by (cases "html_special c") (simp_all add: html_raw_special html_raw_low)
next
  case (bad c cs)
  then show ?case by (simp add: valid_utf8.simps [of "c # cs"])
next
  case (sep s)
  then have "valid_utf8 (drop 3 s)" using valid_utf8_rune [of s] by (simp add: utf8_len_sep)
  with sep show ?case by (simp only: html_raw_sep valid_append [OF ascii_valid [OF ascii_2028]])
next
  case (rune c cs)
  obtain p where p: "take (utf8_len (c # cs)) (c # cs) = c # p" "c # cs = (c # p) @ drop (utf8_len (c # cs)) (c # cs)"
      "list_all (\<lambda>c. 128 \<le> (of_char c :: nat) \<and> (of_char c :: nat) < 192) p"
    by (rule rune_conts [OF rune(1,2)])
  define t where "t = drop (utf8_len (c # cs)) (c # cs)"
  have "html_raw (c # (p @ t)) = c # html_raw (p @ t)"
    using rune(1,3) p(2) by (intro html_raw_plain) (auto simp: not_special_high t_def)
  then have "html_raw (c # cs) = (c # p) @ html_raw t" using p(2,3) by (simp add: html_raw_conts t_def)
  moreover have "valid_utf8 t" using rune(5) valid_utf8_rune [OF rune(2)] by (simp add: t_def)
  ultimately show ?case
    using rune(4) valid_append [OF valid_take_rune [OF rune(2)]] p(1) by (simp add: t_def)
qed simp

section \<open>Flat objects and their values\<close>

definition str_ok :: "string \<Rightarrow> bool" where
  "str_ok raw \<longleftrightarrow> raw_ok raw \<and> clean_raw raw \<and> valid_utf8 raw \<and> valid_utf8 (dec_str raw)"

text \<open>A number literal in the range of a double and not a negative zero.\<close>

fun flat_value :: "cst \<Rightarrow> bool" where
  "flat_value (CStr raw) = str_ok raw"
| "flat_value (CNum t) = (case float_canon t of Some u \<Rightarrow> float_canon u = Some u \<and> u \<noteq> ''-0'' | None \<Rightarrow> False)"
| "flat_value _ = False"

fun plain_value :: "cst \<Rightarrow> gval" where
  "plain_value (CStr raw) = GStr (dec_str raw)"
| "plain_value (CNum t) = GNum (case float_canon t of Some u \<Rightarrow> u | None \<Rightarrow> [])"
| "plain_value _ = GNull"

definition flat_obj :: "(string \<times> cst) list \<Rightarrow> bool" where
  "flat_obj ms \<longleftrightarrow> list_all (\<lambda>(k, c). str_ok k \<and> flat_value c) ms \<and> distinct (map (\<lambda>(k, c). dec_str k) ms)"

definition canonical_num :: "cst \<Rightarrow> bool" where
  "canonical_num c = (case c of CNum t \<Rightarrow> float_canon t = Some t | _ \<Rightarrow> True)"

definition obj_value :: "(string \<times> cst) list \<Rightarrow> (string \<times> gval) list" where
  "obj_value ms = m_collect [] (map (\<lambda>(k, c). (dec_str k, plain_value c)) ms)"

text \<open>Strings and numbers, as the laws speak of them.\<close>

definition jcs_laws :: "(bytes \<Rightarrow> bytes option) \<Rightarrow> bool" where
  "jcs_laws jcs \<longleftrightarrow>
     (\<forall>x d. jcs x = Some d \<longrightarrow> jcs d = Some d \<and> d \<noteq> [] \<and> LF \<notin> set d) \<and>
     (\<forall>ms. flat_obj ms \<longrightarrow> (\<exists>d ms'. jcs (print_json (CObj ms)) = Some d \<and> parse_json d = Some (CObj ms') \<and>
        flat_obj ms' \<and> list_all (\<lambda>(k, c). canonical_num c) ms' \<and> obj_value ms' = obj_value ms)) \<and>
     (\<forall>ms ms'. flat_obj ms \<and> flat_obj ms' \<and> obj_value ms = obj_value ms' \<longrightarrow>
        jcs (print_json (CObj ms)) = jcs (print_json (CObj ms')))"

lemma jcs_laws_idem: "jcs_laws jcs \<Longrightarrow> jcs x = Some d \<Longrightarrow> jcs d = Some d \<and> d \<noteq> [] \<and> LF \<notin> set d"
  unfolding jcs_laws_def by blast

lemma jcs_laws_value: "jcs_laws jcs \<Longrightarrow> flat_obj ms \<Longrightarrow> \<exists>d ms'. jcs (print_json (CObj ms)) = Some d \<and>
   parse_json d = Some (CObj ms') \<and> flat_obj ms' \<and> list_all (\<lambda>(k, c). canonical_num c) ms' \<and> obj_value ms' = obj_value ms"
  unfolding jcs_laws_def by blast

lemma jcs_laws_same: "jcs_laws jcs \<Longrightarrow> flat_obj ms \<Longrightarrow> flat_obj ms' \<Longrightarrow> obj_value ms = obj_value ms' \<Longrightarrow>
   jcs (print_json (CObj ms)) = jcs (print_json (CObj ms'))"
  unfolding jcs_laws_def by blast

lemma flat_dec: "flat_value c \<Longrightarrow> dec_any c = Some (plain_value c)"
  by (cases c) (auto split: option.splits)

lemma dec_members_flat:
  "list_all (\<lambda>(k, c). flat_value c) ms \<Longrightarrow> dec_members m ms = Some (m_collect m (map (\<lambda>(k, c). (dec_str k, plain_value c)) ms))"
  by (induction ms arbitrary: m) (auto simp: flat_dec)

lemma flat_obj_dec: "flat_obj ms \<Longrightarrow> dec_members [] ms = Some (obj_value ms)"
  unfolding obj_value_def by (rule dec_members_flat) (auto simp: flat_obj_def list_all_iff)

lemma flat_wf: "flat_value c \<Longrightarrow> wf_cst c \<and> cdepth c = 0"
  by (cases c) (auto simp: str_ok_def float_canon_number split: option.splits)

lemma flat_obj_wf:
  assumes "flat_obj ms"
  shows "wf_cst (CObj ms) \<and> cdepth (CObj ms) \<le> 1"
proof -
  have "list_all (\<lambda>(k, c). str_ok k \<and> flat_value c) ms" using assms by (simp add: flat_obj_def)
  then have "list_all (\<lambda>(k, v). raw_ok k \<and> wf_cst v) ms \<and> foldr (\<lambda>(k, v) d. max (cdepth v) d) ms 0 = 0"
    by (induction ms) (auto simp: flat_wf str_ok_def)
  then show ?thesis by simp
qed

lemma flat_obj_parse: "flat_obj ms \<Longrightarrow> parse_json (print_json (CObj ms)) = Some (CObj ms)"
  using flat_obj_wf [of ms] by (intro parse_print) (auto simp: maxNestingDepth_def)

lemma m_collect_lookup: "distinct (map fst kvs) \<Longrightarrow> map_of (m_collect m kvs) = map_of m ++ map_of kvs"
proof (induction kvs arbitrary: m)
  case (Cons x kvs)
  obtain k v where x: "x = (k, v)" by (cases x)
  with Cons.prems have "map_of kvs k = None" by (auto simp: map_of_eq_None_iff)
  then have "map_of (m_put m k v) ++ map_of kvs = map_of m ++ map_of (x # kvs)"
    unfolding m_put_lookup x by (auto simp: fun_eq_iff map_add_def split: option.splits)
  moreover have "map_of (m_collect m (x # kvs)) = map_of (m_put m k v) ++ map_of kvs"
    using Cons.IH [of "m_put m k v"] Cons.prems unfolding x by (simp only: m_collect_simps list.map distinct.simps)
  ultimately show ?case by (rule trans [rotated])
qed simp

lemma obj_value_map:
  "distinct (map (\<lambda>(k, c). dec_str k) ms) \<Longrightarrow> map_of (obj_value ms) = map_of (map (\<lambda>(k, c). (dec_str k, plain_value c)) ms)"
  unfolding obj_value_def by (subst m_collect_lookup) (simp_all add: comp_def case_prod_unfold)

lemma set_m_put_subset: "set (m_put m k v) \<subseteq> insert (k, v) (set m)"
  by (induction m k v rule: m_put.induct) auto

lemma set_m_collect: "set (m_collect m kvs) \<subseteq> set m \<union> set kvs"
  by (induction kvs arbitrary: m) (use set_m_put_subset in fastforce)+

lemma wf_obj_value: "wf_map (obj_value ms)"
  by (simp add: obj_value_def wf_m_collect)

lemma obj_value_flat:
  assumes "flat_obj ms" "(k, v) \<in> set (obj_value ms)"
  shows "valid_utf8 k \<and> (case v of GStr s \<Rightarrow> valid_utf8 s
    | GNum t \<Rightarrow> float_canon t = Some t \<and> t \<noteq> ''-0'' | _ \<Rightarrow> False)"
proof -
  obtain raw c where c: "(raw, c) \<in> set ms" "k = dec_str raw" "v = plain_value c"
    using assms(2) set_m_collect [of "[]" "map (\<lambda>(k, c). (dec_str k, plain_value c)) ms"] by (auto simp: obj_value_def)
  with assms(1) have "str_ok raw" "flat_value c" by (auto simp: flat_obj_def list_all_iff)
  with c show ?thesis by (cases c) (auto simp: str_ok_def split: option.splits)
qed

section \<open>A function with the laws\<close>

definition value_jcs :: "bytes \<Rightarrow> bytes option" where
  "value_jcs b =
     (case parse_json b of
        Some (CObj ms) \<Rightarrow>
          (case dec_members [] ms of
             Some v \<Rightarrow>
               (case enc_members v of
                  Some m \<Rightarrow> if wf_gval (GObj v) \<and> text_gval (GObj v) \<and> cdepth (CObj m) \<le> maxNestingDepth
                    then Some (print_json (CObj m)) else None
                | None \<Rightarrow> None)
           | None \<Rightarrow> None)
      | _ \<Rightarrow> None)"

lemma value_jcs_eq:
  assumes "parse_json b = Some (CObj ms)" "dec_members [] ms = Some v" "enc_members v = Some m" "wf_gval (GObj v)" "text_gval (GObj v)"
    "cdepth (CObj m) \<le> maxNestingDepth"
  shows "value_jcs b = Some (print_json (CObj m)) \<and> parse_json (print_json (CObj m)) = Some (CObj m) \<and> dec_members [] m = Some v"
proof -
  have "list_all (\<lambda>(k, v). raw_ok k \<and> wf_cst v) m" using enc_wf(3) [OF _ assms(3)] assms(4) by simp
  then have "parse_json (print_json (CObj m)) = Some (CObj m)" using assms(6) by (intro parse_print) simp
  moreover have "dec_members [] m = Some (m_collect [] v)"
    using enc_dec_id(3) [OF _ _ assms(3), of "[]"] assms(4,5) by simp
  ultimately show ?thesis using assms m_collect_id [of v] by (simp add: value_jcs_def)
qed

lemma value_jcsE:
  assumes "value_jcs b = Some d"
  obtains ms v m where "parse_json b = Some (CObj ms)" "dec_members [] ms = Some v" "enc_members v = Some m" "wf_gval (GObj v)"
    "text_gval (GObj v)" "cdepth (CObj m) \<le> maxNestingDepth" "d = print_json (CObj m)"
  using assms by (auto simp: value_jcs_def split: option.splits cst.splits if_splits)

lemma value_jcs_idem:
  assumes "value_jcs b = Some d"
  shows "value_jcs d = Some d \<and> d \<noteq> [] \<and> LF \<notin> set d"
proof -
  obtain ms v m where v: "parse_json b = Some (CObj ms)" "dec_members [] ms = Some v" "enc_members v = Some m" "wf_gval (GObj v)"
    "text_gval (GObj v)" "cdepth (CObj m) \<le> maxNestingDepth" "d = print_json (CObj m)"
    by (rule value_jcsE [OF assms])
  note e = value_jcs_eq [OF v(1-6)]
  have "value_jcs d = Some d" using value_jcs_eq [of d m v m] e v(3-7) by simp
  moreover have "wf_cst (CObj m)" using enc_wf(3) [OF _ v(3)] v(4) by simp
  then have "printable d" using v(7) print_printable by blast
  then have "LF \<notin> set d" by (auto simp: printable_def list_all_iff)
  moreover have "d \<noteq> []" using v(7) by (simp add: print_json_def)
  ultimately show ?thesis by blast
qed

definition enc_plain_value :: "gval \<Rightarrow> cst" where
  "enc_plain_value v = (case v of GStr s \<Rightarrow> CStr (enc_str s) | GNum t \<Rightarrow> CNum t | _ \<Rightarrow> CNull)"

lemma str_ok_enc: "valid_utf8 s \<Longrightarrow> str_ok (enc_str s)"
  by (simp add: str_ok_def clean_enc_str valid_enc_str dec_enc_valid)

lemma enc_members_flat:
  "list_all (\<lambda>(k, v). case v of GStr _ \<Rightarrow> True | GNum _ \<Rightarrow> True | _ \<Rightarrow> False) kvs \<Longrightarrow>
     enc_members kvs = Some (map (\<lambda>(k, v). (enc_str k, enc_plain_value v)) kvs)"
  by (induction kvs) (auto simp: enc_plain_value_def split: gval.splits)

lemma value_jcs_flat:
  assumes "flat_obj ms"
  shows "\<exists>d ms'. value_jcs (print_json (CObj ms)) = Some d \<and> parse_json d = Some (CObj ms') \<and>
    flat_obj ms' \<and> list_all (\<lambda>(k, c). canonical_num c) ms' \<and> obj_value ms' = obj_value ms"
proof -
  define v where "v = obj_value ms"
  define m where "m = map (\<lambda>(k, v). (enc_str k, enc_plain_value v)) v"
  have kv: "valid_utf8 k \<and> (case x of GStr s \<Rightarrow> valid_utf8 s | GNum t \<Rightarrow> float_canon t = Some t \<and> t \<noteq> ''-0'' | _ \<Rightarrow> False)"
    if "(k, x) \<in> set v" for k x
    using obj_value_flat [OF assms] that by (simp add: v_def)
  have enc: "enc_members v = Some m"
    unfolding m_def by (rule enc_members_flat) (use kv in \<open>fastforce simp: list_all_iff split: gval.splits\<close>)
  have "wf_gval x \<and> text_gval x \<and> valid_utf8 k" if "(k, x) \<in> set v" for k x
    using kv [OF that] by (cases x) auto
  then have wf: "wf_gval (GObj v)" "text_gval (GObj v)"
    using wf_obj_value [of ms] by (auto simp: list_all_iff v_def)
  have "str_ok (enc_str k) \<and> flat_value (enc_plain_value x) \<and> canonical_num (enc_plain_value x)" if "(k, x) \<in> set v" for k x
    using kv [OF that] by (cases x) (auto simp: str_ok_enc enc_plain_value_def canonical_num_def)
  then have fl: "list_all (\<lambda>(k, c). str_ok k \<and> flat_value c \<and> canonical_num c) m"
    by (auto simp: list_all_iff m_def)
  have "map (\<lambda>(k, c). dec_str k) m = map fst v"
    using kv by (auto simp: m_def dec_enc_valid)
  then have fm: "flat_obj m"
    using fl wf_obj_value [of ms] by (auto simp: flat_obj_def list_all_iff wf_map_def m_keys_def v_def)
  have d: "cdepth (CObj m) \<le> maxNestingDepth" using flat_obj_wf [OF fm] by (simp add: maxNestingDepth_def)
  note e = value_jcs_eq [OF flat_obj_parse [OF assms] flat_obj_dec [OF assms, folded v_def] enc wf d]
  have "obj_value m = v" using e flat_obj_dec [OF fm] by simp
  with e fm fl show ?thesis by (auto simp: v_def list_all_iff)
qed

theorem value_jcs_laws: "jcs_laws value_jcs"
proof -
  have "value_jcs (print_json (CObj ms)) = value_jcs (print_json (CObj ms'))"
    if "flat_obj ms" "flat_obj ms'" "obj_value ms = obj_value ms'" for ms ms'
    using that by (simp add: value_jcs_def flat_obj_parse flat_obj_dec)
  with value_jcs_idem value_jcs_flat show ?thesis unfolding jcs_laws_def by blast
qed

section \<open>Removing a member before or after canonicalising\<close>

lemma m_put_map: "map (\<lambda>(k, c). (k, f c)) (m_put m k v) = m_put (map (\<lambda>(k, c). (k, f c)) m) k (f v)"
  by (induction m k v rule: m_put.induct) auto

lemma m_collect_map: "map (\<lambda>(k, c). (k, f c)) (m_collect m kvs) = m_collect (map (\<lambda>(k, c). (k, f c)) m) (map (\<lambda>(k, c). (k, f c)) kvs)"
  by (induction kvs arbitrary: m) (auto simp: m_put_map)

lemma m_delete_map: "map (\<lambda>(k, c). (k, f c)) (m_delete m k) = m_delete (map (\<lambda>(k, c). (k, f c)) m) k"
  by (induction m) (auto simp: m_delete_def)

lemma m_delete_put: "wf_map m \<Longrightarrow> k \<notin> set (m_keys m) \<Longrightarrow> m_delete (m_put m k v) k = m"
proof (induction m k v rule: m_put.induct)
  case (2 j w m k v)
  moreover have "filter (\<lambda>(j, w). j \<noteq> k) m = m" if "k \<notin> set (m_keys m)" for m :: "(string \<times> 'a) list"
    using that by (induction m) (auto simp: m_keys_def)
  ultimately show ?case by (auto simp: m_delete_def wf_map_Cons)
qed (simp add: m_delete_def)

lemma plain_value_html: "flat_value c \<Longrightarrow> plain_value (html_cst c) = plain_value c \<and> flat_value (html_cst c)"
  by (cases c) (auto simp: str_ok_def dec_html_raw raw_ok_html clean_html_raw valid_html_raw)

lemma flat_raw_members: "flat_obj ms \<Longrightarrow> (k, c) \<in> set (raw_members ms) \<Longrightarrow> flat_value c \<and> valid_utf8 k"
  using set_m_collect [of "[]" "map (\<lambda>(raw, c). (dec_str raw, c)) ms"]
  by (auto simp: raw_members_def flat_obj_def list_all_iff str_ok_def)

lemma raw_members_value: "map (\<lambda>(k, c). (k, plain_value c)) (raw_members ms) = obj_value ms"
proof -
  have "(\<lambda>x. case case x of (raw, c) \<Rightarrow> (dec_str raw, c) of (k, c) \<Rightarrow> (k, plain_value c)) = (\<lambda>(k, c). (dec_str k, plain_value c))"
    by auto
  then show ?thesis by (simp add: raw_members_def obj_value_def m_collect_map comp_def)
qed

text \<open>The members of a wf map, each under a quoted key.\<close>

lemma quoted_flat:
  assumes "wf_map M" "\<And>k c. (k, c) \<in> set M \<Longrightarrow> flat_value (g c) \<and> valid_utf8 k"
  shows "flat_obj (map (\<lambda>(k, c). (enc_str k, g c)) M) \<and>
    obj_value (map (\<lambda>(k, c). (enc_str k, g c)) M) = map (\<lambda>(k, c). (k, plain_value (g c))) M"
proof -
  have k: "map (\<lambda>(k, c). dec_str k) (map (\<lambda>(k, c). (enc_str k, g c)) M) = map fst M"
    using assms(2) by (auto simp: dec_enc_valid)
  have "map (\<lambda>(k, c). (dec_str k, plain_value c)) (map (\<lambda>(k, c). (enc_str k, g c)) M) = map (\<lambda>(k, c). (k, plain_value (g c))) M"
    using assms(2) by (auto simp: dec_enc_valid)
  moreover have "wf_map (map (\<lambda>(k, c). (k, plain_value (g c))) M)"
    using assms(1) by (simp add: wf_map_def m_keys_def comp_def case_prod_unfold)
  ultimately have "obj_value (map (\<lambda>(k, c). (enc_str k, g c)) M) = map (\<lambda>(k, c). (k, plain_value (g c))) M"
    by (simp only: obj_value_def m_collect_id)
  moreover have "flat_obj (map (\<lambda>(k, c). (enc_str k, g c)) M)"
    unfolding flat_obj_def k using assms by (fastforce simp: list_all_iff str_ok_enc wf_map_def m_keys_def)
  ultimately show ?thesis by blast
qed

text \<open>
  A canonical object printed again without one of its members canonicalises to what the object
  without that member does.
\<close>

lemma jcs_without_member:
  assumes "jcs_laws jcs" "flat_obj ms'" "obj_value ms' = map (\<lambda>(k, c). (k, plain_value c)) (m_put M sig x)"
    and "wf_map M" "sig \<notin> set (m_keys M)" "\<And>k c. (k, c) \<in> set M \<Longrightarrow> flat_value c \<and> valid_utf8 k"
  shows "jcs (print_members (m_delete (raw_members ms') sig)) = jcs (print_json (CObj (map (\<lambda>(k, c). (enc_str k, c)) M)))"
proof -
  define D where "D = m_delete (raw_members ms') sig"
  have D: "wf_map D" unfolding D_def by (rule wf_m_delete) (simp add: raw_members_def wf_m_collect)
  have Dk: "flat_value (html_cst c) \<and> valid_utf8 k" if "(k, c) \<in> set D" for k c
    using that flat_raw_members [OF assms(2)] plain_value_html by (auto simp: D_def m_delete_def)
  have "map (\<lambda>(k, c). (k, plain_value (html_cst c))) D = map (\<lambda>(k, c). (k, plain_value c)) D"
    using flat_raw_members [OF assms(2)] plain_value_html by (auto simp: D_def m_delete_def)
  also have "\<dots> = m_delete (obj_value ms') sig" by (simp add: D_def m_delete_map raw_members_value)
  also have "\<dots> = map (\<lambda>(k, c). (k, plain_value c)) M"
    by (simp only: assms(3) m_delete_map [symmetric] m_delete_put [OF assms(4,5)])
  finally have val: "map (\<lambda>(k, c). (k, plain_value (html_cst c))) D = map (\<lambda>(k, c). (k, plain_value c)) M" .
  note q1 = quoted_flat [OF D, of html_cst, OF Dk]
  note q2 = quoted_flat [OF assms(4), of "\<lambda>c. c", OF assms(6)]
  have "print_members D = print_json (CObj (map (\<lambda>(k, c). (enc_str k, html_cst c)) D))" by (simp add: print_members_def)
  with jcs_laws_same [OF assms(1)] q1 q2 val show ?thesis by (simp add: D_def)
qed

end
