(* ===== verification/Checkpoint_Kept.thy ===== *)
theory Checkpoint_Kept
  imports Checkpoint_Track
begin

text \<open>
  What \<^verbatim>\<open>VerifyCheckpoints\<close> has in hand when it judges a record: the sidecar's complete
  lines, and for every counted line of the stream the digest of the bytes through it and the chain
  hash of the line. Then how one record's members decode.
\<close>

section \<open>The two reads\<close>

text \<open>A line longer than the cap is passed on without its bytes.\<close>

definition record_line :: "nat \<Rightarrow> bytes \<Rightarrow> ckRecordLine" where
  "record_line cap l = (if length l > cap then \<lparr>rl_raw = [], rl_long = True\<rparr> else \<lparr>rl_raw = l, rl_long = False\<rparr>)"

lemma side_emit_line: "side_emit l b n s out = (out @ [\<lparr>rl_raw = l, rl_long = b\<rparr>], None)"
  by (simp add: side_emit_def)

lemma emit_all_side:
  "emit_all cap False side_emit s ls out = (s', out', None) \<Longrightarrow> out' = out @ map (record_line cap) ls"
proof (induction ls arbitrary: s out)
  case (Cons l ls)
  define s1 where "s1 = s\<lparr>ls_sum := ls_sum s @ l @ [LF], ls_pos := ls_pos s + length l + 1, ls_off := ls_pos s + length l + 1,
            ls_lines := ls_lines s + 1\<rparr>"
  have "side_emit (if length l > cap then [] else l) (length l > cap) (ls_pos s + length l + 1) s1 out = (out @ [record_line cap l], None)"
    by (simp add: side_emit_def record_line_def)
  then have "emit_all cap False side_emit s1 ls (out @ [record_line cap l]) = (s', out', None)"
    using Cons.prems by (simp add: s1_def)
  from Cons.IH [OF this] show ?case by simp
qed simp

lemma at_line_new: "at_line (newLineScanner h n st k cap keep)"
  by (simp add: at_line_def newLineScanner_def)

lemma new_fields [simp]: "ls_maxLen (newLineScanner h n st k cap keep) = cap" "ls_keep (newLineScanner h n st k cap keep) = keep"
  "ls_sum (newLineScanner h n st k cap keep) = h" "ls_pos (newLineScanner h n st k cap keep) = n"
  "ls_lines (newLineScanner h n st k cap keep) = k"
  by (simp_all add: newLineScanner_def)

lemma run_emit_end:
  assumes "at_line s" "full_lines [] (concat ps) = (ls, r)" "ls_run emit s ps rerr w = (s', w', None)"
  obtains s1 where "emit_all (ls_maxLen s) (ls_keep s) emit s ls w = (s1, w', None)" "rerr = None"
  using ls_feed_lines [OF assms(1,2), of emit w] assms(3)
  by (auto simp: ls_run_feed split: prod.splits option.splits)

lemma readSidecar_lines:
  assumes "readSidecar (qs, None) = Inr recs"
  shows "recs = map (record_line checkpointRecordCap) (fst (full_lines [] (concat qs)))"
proof -
  obtain ls r where ls: "full_lines [] (concat qs) = (ls, r)" by fastforce
  obtain s' where run: "ls_run side_emit (newLineScanner [] 0 None 0 checkpointRecordCap False) qs None [] = (s', recs, None)"
    using assms by (auto simp: readSidecar_def split: prod.splits option.splits)
  obtain s1 where "emit_all checkpointRecordCap False side_emit (newLineScanner [] 0 None 0 checkpointRecordCap False) ls [] = (s1, recs, None)"
    using run_emit_end [OF at_line_new ls run] by auto
  from emit_all_side [OF this] ls show ?thesis by simp
qed

definition head_opt :: "(bytes \<Rightarrow> bytes option) \<Rightarrow> bytes \<Rightarrow> string option" where
  "head_opt jcs l =
     (if wellFormedLine l then (case ChainHashRaw jcs (TrimSpace l) of Inr h \<Rightarrow> Some h | Inl _ \<Rightarrow> None) else None)"

lemma emit_all_stream:
  "emit_all resumeWindow False (stream_emit jcs needed) s ls (n, P, H) = (s', w', None) \<Longrightarrow>
     fst w' = n + length ls \<and>
     (\<forall>k. 1 \<le> k \<and> k \<le> length ls \<and> int (n + k) \<in> set needed \<longrightarrow>
        fst (snd w') (int (n + k)) = Some (sha256 (ls_sum s @ lines_text (take k ls))) \<and>
        snd (snd w') (int (n + k)) = (case head_opt jcs (ls ! (k - 1)) of Some h \<Rightarrow> Some h | None \<Rightarrow> H (int (n + k)))) \<and>
     (\<forall>i. i \<le> int n \<longrightarrow> fst (snd w') i = P i \<and> snd (snd w') i = H i)"
proof (induction ls arbitrary: s n P H)
  case (Cons l ls)
  define s1 where "s1 = s\<lparr>ls_sum := ls_sum s @ l @ [LF], ls_pos := ls_pos s + length l + 1, ls_off := ls_pos s + length l + 1,
            ls_lines := ls_lines s + 1\<rparr>"
  obtain m P1 H1 r1 where e: "stream_emit jcs needed (if length l > resumeWindow then [] else l) (length l > resumeWindow) (ls_off s1) s1 (n, P, H) =
      ((m, P1, H1), r1)" by (metis surj_pair)
  with Cons.prems have r: "r1 = None" "emit_all resumeWindow False (stream_emit jcs needed) s1 ls (m, P1, H1) = (s', w', None)"
    by (auto simp: Let_def s1_def split: option.splits)
  have m: "m = n + 1" "\<And>i. i \<noteq> int (n + 1) \<Longrightarrow> P1 i = P i \<and> H1 i = H i"
    "int (n + 1) \<in> set needed \<Longrightarrow> P1 (int (n + 1)) = Some (sha256 (ls_sum s @ l @ [LF])) \<and>
       H1 (int (n + 1)) = (case head_opt jcs l of Some h \<Rightarrow> Some h | None \<Rightarrow> H (int (n + 1)))"
    using e r(1) long_malformed [of l]
    by (auto simp: stream_emit_def Let_def head_opt_def s1_def split: if_splits sum.splits)
  note IH = Cons.IH [OF r(2)]
  have "fst (snd w') (int (n + k)) = Some (sha256 (ls_sum s @ lines_text (take k (l # ls)))) \<and>
      snd (snd w') (int (n + k)) = (case head_opt jcs ((l # ls) ! (k - 1)) of Some h \<Rightarrow> Some h | None \<Rightarrow> H (int (n + k)))"
    if k: "1 \<le> k" "k \<le> length (l # ls)" "int (n + k) \<in> set needed" for k
  proof (cases "k = 1")
    case True
    show ?thesis using IH m k(3) unfolding True by simp
  next
    case False
    then obtain j where j: "k = Suc j" "1 \<le> j" using k(1) by (cases k) auto
    then have nk: "n + k = m + j" "int (m + j) \<noteq> int (n + 1)" using m(1) by auto
    have "j \<le> length ls" using j k(2) by simp
    with IH j(2) k(3) have "fst (snd w') (int (m + j)) = Some (sha256 (ls_sum s1 @ lines_text (take j ls)))"
      "snd (snd w') (int (m + j)) = (case head_opt jcs (ls ! (j - 1)) of Some h \<Rightarrow> Some h | None \<Rightarrow> H1 (int (m + j)))"
      unfolding nk by blast+
    moreover have "(l # ls) ! (k - 1) = ls ! (j - 1)" using j by (cases j) simp_all
    ultimately show ?thesis using m(2) [OF nk(2)] unfolding nk(1) by (simp add: s1_def j(1) split: option.split)
  qed
  moreover have "fst w' = n + length (l # ls)" using IH m(1) by simp
  moreover have "\<forall>i. i \<le> int n \<longrightarrow> fst (snd w') i = P i \<and> snd (snd w') i = H i" using IH m(1,2) by auto
  ultimately show ?case by blast
qed auto

text \<open>The kept values at a counted line.\<close>

definition kept_ok :: "(bytes \<Rightarrow> bytes option) \<Rightarrow> bytes list \<Rightarrow> int list \<Rightarrow> kept \<Rightarrow> bool" where
  "kept_ok jcs ls needed w \<longleftrightarrow> fst w = length ls \<and>
     (\<forall>k. 1 \<le> k \<and> k \<le> length ls \<and> int k \<in> set needed \<longrightarrow>
        fst (snd w) (int k) = Some (sha256 (lines_text (take k ls))) \<and> snd (snd w) (int k) = head_opt jcs (ls ! (k - 1)))"

lemma stream_kept:
  assumes "ls_run (stream_emit jcs needed) (newLineScanner [] 0 None 0 resumeWindow False) ps None (0, Map.empty, Map.empty) = (s', w, None)"
  shows "kept_ok jcs (fst (full_lines [] (concat ps))) needed w"
proof -
  obtain ls r where ls: "full_lines [] (concat ps) = (ls, r)" by fastforce
  obtain s1 where "emit_all resumeWindow False (stream_emit jcs needed) (newLineScanner [] 0 None 0 resumeWindow False) ls
      (0, Map.empty, Map.empty) = (s1, w, None)"
    using run_emit_end [OF at_line_new ls assms] by auto
  from emit_all_stream [OF this] ls show ?thesis by (auto simp: kept_ok_def split: option.splits)
qed

lemma VerifyCheckpoints_kept:
  assumes "VerifyCheckpoints jcs (ps, None) (qs, None) name keys = Inr rep"
  obtains recs w where "recs = map (record_line checkpointRecordCap) (fst (full_lines [] (concat qs)))" "recs \<noteq> []"
    "kept_ok jcs (fst (full_lines [] (concat ps))) (needed_counts recs) w"
    "cp_Records rep = check_records jcs w name keys 1 [] recs" "cp_StreamLines rep = fst w"
proof -
  obtain recs where recs: "readSidecar (qs, None) = Inr recs" "recs \<noteq> []"
    using assms by (auto simp: VerifyCheckpoints_def split: sum.splits if_splits)
  obtain s' w where run: "ls_run (stream_emit jcs (needed_counts recs)) (newLineScanner [] 0 None 0 resumeWindow False) ps None
      (0, Map.empty, Map.empty) = (s', w, None)"
    and rep: "rep = \<lparr>cp_StreamLines = fst w, cp_Records = check_records jcs w name keys 1 [] recs\<rparr>"
    using assms recs by (auto simp: VerifyCheckpoints_def split: sum.splits if_splits prod.splits option.splits)
  from that [OF readSidecar_lines [OF recs(1)] recs(2) stream_kept [OF run]] rep show thesis by simp
qed

section \<open>The verdict of the record at a position\<close>

definition prev_raw :: "bytes \<Rightarrow> ckRecordLine list \<Rightarrow> nat \<Rightarrow> bytes" where
  "prev_raw p recs j = (if j = 0 then p else rl_raw (recs ! (j - 1)))"

lemma check_records_nth:
  "j < length recs \<Longrightarrow> check_records jcs (n, P, H) name keys i p recs ! j =
     (let v = checkRecord jcs (recs ! j) n H P (expect_prev (prev_raw p recs j)) name keys; pk = peekKindCount (rl_raw (recs ! j))
      in \<lparr>cx_Index = i + j, cx_Kind = fst pk, cx_Count = snd pk, cx_Status = status_of v, cx_Refusal = fst v, cx_Truncated = fst (snd v)\<rparr>)"
proof (induction recs arbitrary: i p j)
  case (Cons r recs)
  show ?case
  proof (cases j)
    case (Suc k)
    with Cons.IH [of k "i + 1" "rl_raw r"] Cons.prems show ?thesis
      by (cases k) (simp_all add: prev_raw_def Let_def)
  qed (simp add: prev_raw_def Let_def)
qed simp

lemma length_check_records [simp]: "length (check_records jcs w name keys i p recs) = length recs"
  by (induction recs arbitrary: i p) (auto simp: Let_def split: prod.split)

section \<open>How a record's members decode\<close>

definition lk :: "(string \<times> cst) list \<Rightarrow> string \<Rightarrow> cst option" where
  "lk ms n = map_of (map (\<lambda>(k, c). (dec_str k, c)) ms) n"

definition int_names :: "string list" where "int_names = [''v'', ''count'']"

definition fits :: "string \<Rightarrow> cst \<Rightarrow> bool" where
  "fits n c = (if n \<in> set int_names then set_ptr_int c \<noteq> None else set_ptr_string c \<noteq> None)"

fun pick :: "(cst \<Rightarrow> 'a option) \<Rightarrow> cst option \<Rightarrow> 'a \<Rightarrow> 'a" where
  "pick f None old = old"
| "pick f (Some c) old = the (f c)"

definition got_int :: "(string \<times> cst) list \<Rightarrow> string \<Rightarrow> int option \<Rightarrow> int option" where
  "got_int ms n old = pick set_ptr_int (lk ms n) old"

definition got_str :: "(string \<times> cst) list \<Rightarrow> string \<Rightarrow> string option \<Rightarrow> string option" where
  "got_str ms n old = pick set_ptr_string (lk ms n) old"

definition got_members :: "(string \<times> cst) list \<Rightarrow> ck_members \<Rightarrow> ck_members" where
  "got_members ms w = \<lparr>w_V = got_int ms ''v'' (w_V w), w_Kind = got_str ms ''kind'' (w_Kind w),
     w_Stream = got_str ms ''stream'' (w_Stream w), w_Count = got_int ms ''count'' (w_Count w),
     w_Head = got_str ms ''head'' (w_Head w), w_Prefix = got_str ms ''prefix'' (w_Prefix w),
     w_At = got_str ms ''at'' (w_At w), w_Prev = got_str ms ''prev'' (w_Prev w), w_Alg = got_str ms ''alg'' (w_Alg w),
     w_Kid = got_str ms ''kid'' (w_Kid w), w_Sig = got_str ms ''sig'' (w_Sig w),
     w_Unsigned = got_str ms ''unsigned_reason'' (w_Unsigned w)\<rparr>"

lemma lk_Cons: "lk ((raw, c) # ms) n = (if n = dec_str raw then Some c else lk ms n)"
  by (simp add: lk_def)

lemma lk_Nil [simp]: "lk [] n = None"
  by (simp add: lk_def)

lemma member_field: "n \<in> set member_names \<Longrightarrow> dec_str raw = n \<Longrightarrow> field_for member_names (dec_str raw) = Some n"
  by (simp add: field_for_def)

lemma got_step:
  assumes "n \<in> set member_names" "dec_str raw = n" "fits n c" "lk ms n = None"
  shows "\<exists>w'. set_member n c w = Some w' \<and> got_members ms w' = got_members ((raw, c) # ms) w"
proof -
  have int: "set_ptr_int c = Some (the (set_ptr_int c))" if "n \<in> set int_names"
    using assms(3) that by (simp add: fits_def)
  have str: "set_ptr_string c = Some (the (set_ptr_string c))" if "n \<notin> set int_names"
    using assms(3) that by (auto simp: fits_def)
  note d = set_member_def got_members_def got_int_def got_str_def lk_Cons assms(2) int_names_def
  from assms(1) consider "n = ''v''" | "n = ''kind''" | "n = ''stream''" | "n = ''count''" | "n = ''head''" | "n = ''prefix''" | "n = ''at''"
    | "n = ''prev''" | "n = ''alg''" | "n = ''kid''" | "n = ''sig''" | "n = ''unsigned_reason''"
    unfolding member_names_def by force
  then show ?thesis
  proof cases
    case 1
    then obtain x where "set_ptr_int c = Some x" using int by (simp add: int_names_def)
    with 1 assms(4) show ?thesis by (simp add: d)
  next
    case 2
    then obtain x where "set_ptr_string c = Some x" using str by (simp add: int_names_def)
    with 2 assms(4) show ?thesis by (simp add: d)
  next
    case 3
    then obtain x where "set_ptr_string c = Some x" using str by (simp add: int_names_def)
    with 3 assms(4) show ?thesis by (simp add: d)
  next
    case 4
    then obtain x where "set_ptr_int c = Some x" using int by (simp add: int_names_def)
    with 4 assms(4) show ?thesis by (simp add: d)
  next
    case 5
    then obtain x where "set_ptr_string c = Some x" using str by (simp add: int_names_def)
    with 5 assms(4) show ?thesis by (simp add: d)
  next
    case 6
    then obtain x where "set_ptr_string c = Some x" using str by (simp add: int_names_def)
    with 6 assms(4) show ?thesis by (simp add: d)
  next
    case 7
    then obtain x where "set_ptr_string c = Some x" using str by (simp add: int_names_def)
    with 7 assms(4) show ?thesis by (simp add: d)
  next
    case 8
    then obtain x where "set_ptr_string c = Some x" using str by (simp add: int_names_def)
    with 8 assms(4) show ?thesis by (simp add: d)
  next
    case 9
    then obtain x where "set_ptr_string c = Some x" using str by (simp add: int_names_def)
    with 9 assms(4) show ?thesis by (simp add: d)
  next
    case 10
    then obtain x where "set_ptr_string c = Some x" using str by (simp add: int_names_def)
    with 10 assms(4) show ?thesis by (simp add: d)
  next
    case 11
    then obtain x where "set_ptr_string c = Some x" using str by (simp add: int_names_def)
    with 11 assms(4) show ?thesis by (simp add: d)
  next
    case 12
    then obtain x where "set_ptr_string c = Some x" using str by (simp add: int_names_def)
    with 12 assms(4) show ?thesis by (simp add: d)
  qed
qed

lemma dec_struct_got:
  "distinct (map (\<lambda>(k, c). dec_str k) ms) \<Longrightarrow> \<forall>(k, c) \<in> set ms. dec_str k \<in> set member_names \<and> fits (dec_str k) c \<Longrightarrow>
     dec_struct member_names set_member ms w = (got_members ms w, True)"
proof (induction ms arbitrary: w)
  case Nil
  then show ?case by (simp add: got_members_def got_int_def got_str_def)
next
  case (Cons x ms)
  obtain raw c where x: "x = (raw, c)" by (cases x)
  with Cons.prems have p: "dec_str raw \<in> set member_names" "fits (dec_str raw) c" "dec_str raw \<notin> set (map (\<lambda>(k, c). dec_str k) ms)" by auto
  then have "lk ms (dec_str raw) = None" by (auto simp: lk_def map_of_eq_None_iff)
  from got_step [OF p(1) refl p(2) this, of w] obtain w' where w': "set_member (dec_str raw) c w = Some w'"
    "got_members ms w' = got_members ((raw, c) # ms) w" by blast
  with Cons.IH [of w'] Cons.prems x member_field [OF p(1) refl] show ?case by simp
qed

end
