(* ===== verification/Checkpoint_Sound.thy ===== *)
theory Checkpoint_Sound
  imports Checkpoint_Kept
begin

text \<open>
  What a verdict means: a record reported valid is canonical, names this stream, counts a line the
  stream has, carries that line's chain hash and the digest of every byte through it, follows the
  record before it, and is signed by the key its kid names.
\<close>

section \<open>The count in the report is the count that was checked\<close>

lemma find_fold:
  "distinct (map fold_name names) \<Longrightarrow> find (\<lambda>n. fold_name n = x) names = Some n \<longleftrightarrow> n \<in> set names \<and> fold_name n = x"
  by (induction names) auto

lemma field_for_fold:
  assumes "distinct (map fold_name names)"
  shows "field_for names key = Some n \<longleftrightarrow> n \<in> set names \<and> fold_name n = fold_name key"
proof (cases "key \<in> set names")
  case True
  with assms have "n \<in> set names \<and> fold_name n = fold_name key \<longleftrightarrow> n = key"
    by (auto simp: distinct_map inj_on_def)
  with True show ?thesis by (auto simp: field_for_def)
qed (simp add: field_for_def find_fold [OF assms])

lemma member_folds: "distinct (map fold_name member_names)" "distinct (map fold_name [''kind'', ''count''])"
  by code_simp+

lemma option_filter:
  assumes "\<And>n. x = Some n \<longleftrightarrow> P n \<and> y = Some n"
  shows "x = (case y of Some n \<Rightarrow> if P n then Some n else None | None \<Rightarrow> None)"
proof (cases x)
  case None
  with assms show ?thesis by (cases y) auto
next
  case (Some n)
  with assms [of n] show ?thesis by simp
qed

lemma peek_field:
  "field_for [''kind'', ''count''] key =
     (case field_for member_names key of Some n \<Rightarrow> if n = ''kind'' \<or> n = ''count'' then Some n else None | None \<Rightarrow> None)"
proof (rule option_filter)
  fix n
  have "n = ''kind'' \<or> n = ''count'' \<Longrightarrow> n \<in> set member_names" by (auto simp: member_names_def)
  then show "field_for [''kind'', ''count''] key = Some n \<longleftrightarrow> (n = ''kind'' \<or> n = ''count'') \<and> field_for member_names key = Some n"
    unfolding field_for_fold [OF member_folds(1)] field_for_fold [OF member_folds(2)] by auto
qed

definition peeks :: "ck_members \<Rightarrow> string \<times> int \<Rightarrow> bool" where
  "peeks w p \<longleftrightarrow> (\<forall>k. w_Kind w = Some k \<longrightarrow> fst p = k) \<and> (\<forall>n. w_Count w = Some n \<longrightarrow> snd p = n)"

lemma set_member_other:
  "set_member n c w = Some w' \<Longrightarrow> n \<noteq> ''kind'' \<Longrightarrow> n \<noteq> ''count'' \<Longrightarrow> w_Kind w' = w_Kind w \<and> w_Count w' = w_Count w"
  by (auto simp: set_member_def split: if_splits)

lemma set_member_kind: "set_member ''kind'' c w = map_option (\<lambda>x. w\<lparr>w_Kind := x\<rparr>) (set_ptr_string c)"
  by (simp add: set_member_def)

lemma set_member_count: "set_member ''count'' c w = map_option (\<lambda>x. w\<lparr>w_Count := x\<rparr>) (set_ptr_int c)"
  by (simp add: set_member_def)

lemma peeks_kind: "peeks w p \<Longrightarrow> set_member ''kind'' c w = Some w' \<Longrightarrow> \<exists>p'. set_peek ''kind'' c p = Some p' \<and> peeks w' p'"
  by (cases p) (auto simp: set_member_kind set_peek_def set_ptr_string_def set_string_def peeks_def split: cst.splits)

lemma peeks_count: "peeks w p \<Longrightarrow> set_member ''count'' c w = Some w' \<Longrightarrow> \<exists>p'. set_peek ''count'' c p = Some p' \<and> peeks w' p'"
  by (cases p) (auto simp: set_member_count set_peek_def set_ptr_int_def set_int_def peeks_def split: cst.splits)

lemma dec_struct_peeks:
  "dec_struct member_names set_member ms w = (w', True) \<Longrightarrow> peeks w p \<Longrightarrow>
     peeks w' (fst (dec_struct [''kind'', ''count''] set_peek ms p))"
proof (induction ms arbitrary: w p)
  case (Cons x ms)
  obtain raw c where x: "x = (raw, c)" by (cases x)
  show ?case
  proof (cases "field_for member_names (dec_str raw)")
    case None
    with Cons x show ?thesis by (simp add: peek_field)
  next
    case (Some n)
    obtain w1 where w1: "set_member n c w = Some w1" "dec_struct member_names set_member ms w1 = (w', True)"
      using Cons.prems(1) x Some by (auto split: option.splits)
    show ?thesis
    proof (cases "n = ''kind'' \<or> n = ''count''")
      case True
      then obtain p' where "set_peek n c p = Some p'" "peeks w1 p'"
        using peeks_kind peeks_count Cons.prems(2) w1(1) by blast
      with Cons.IH [OF w1(2)] x Some True show ?thesis by (auto simp: peek_field)
    next
      case False
      then have "peeks w1 p" using set_member_other [OF w1(1)] Cons.prems(2) by (simp add: peeks_def)
      with Cons.IH [OF w1(2)] x Some False show ?thesis by (simp add: peek_field)
    qed
  qed
qed simp

lemma peekKindCount_members:
  assumes "json_struct member_names set_member raw no_members = Some w"
  shows "peeks w (peekKindCount raw)"
proof -
  have p: "peeks no_members ([], 0)" by (simp add: peeks_def no_members_def)
  with assms show ?thesis
    using dec_struct_peeks [of _ no_members w "([], 0)"]
    by (auto simp: json_struct_defs peekKindCount_def split: option.splits cst.splits prod.splits if_splits)
qed

section \<open>What a valid record says\<close>

lemma status_valid: "status_of v = CheckpointValid \<longleftrightarrow> fst v = None \<and> snd (snd v)"
  by (cases v) (auto simp: status_of_def split: option.splits bool.splits)

lemma checkRecord_valid:
  assumes "status_of (checkRecord jcs r lines H P prev name keys) = CheckpointValid"
  obtains m w where "\<not> rl_long r" "json_raw_map (rl_raw r) = Some m" "jcs (rl_raw r) = Some (rl_raw r)"
    "json_struct member_names set_member (rl_raw r) no_members = Some w" "record_shape w = Some True"
    "check_members w lines H P prev name = None" "check_signature jcs m w keys = None"
  using assms
  by (auto simp: checkRecord_def status_valid split: if_splits option.splits refusal.splits)

lemma check_members_ok:
  assumes "check_members w lines H P prev name = None" "record_shape w = Some b"
  obtains n h pre where "w_Count w = Some n" "1 \<le> n" "n \<le> int lines" "w_Stream w = Some name" "w_Head w = Some h" "H n = Some h"
    "w_Prefix w = Some pre" "pre = ''sha256:'' @ hex_EncodeToString (case P n of Some b \<Rightarrow> b | None \<Rightarrow> [])" "w_Prev w = Some prev"
  using assms by (auto simp: check_members_def record_shape_def Let_def split: if_splits)

lemma check_signature_ok:
  assumes "check_signature jcs m w keys = None" "record_shape w = Some True"
  obtains kid s raw pub input where "w_Kid w = Some kid" "w_Sig w = Some s" "unb64 s = Some raw" "length raw = 64" "keys kid = Some pub"
    "jcs (print_members (m_delete m ''sig'')) = Some input"
    "ecdsa_Verify pub (sha256 input) (be_int (take 32 raw)) (be_int (drop 32 raw))"
proof -
  obtain kid s where ks: "w_Kid w = Some kid" "w_Sig w = Some s"
    using assms(2) by (auto simp: record_shape_def Let_def split: if_splits)
  then show thesis
    using assms(1) that by (auto simp: check_signature_def split: if_splits option.splits)
qed

text \<open>
  The specification (agent-passport 6.5.1): record \<open>raw\<close>, after a record \<open>prev\<close>, attests the first
  \<open>n\<close> lines of the stream.
\<close>

definition attests :: "(bytes \<Rightarrow> bytes option) \<Rightarrow> bytes list \<Rightarrow> string \<Rightarrow> (string \<Rightarrow> ec_key option) \<Rightarrow> string \<Rightarrow> bytes \<Rightarrow> int \<Rightarrow> bool" where
  "attests jcs ls name keys prev raw n \<longleftrightarrow>
     1 \<le> n \<and> n \<le> int (length ls) \<and> length raw \<le> checkpointRecordCap \<and> jcs raw = Some raw \<and>
     wellFormedLine (ls ! (nat n - 1)) \<and>
     (\<exists>m w kid sig raw' pub input.
        json_raw_map raw = Some m \<and> json_struct member_names set_member raw no_members = Some w \<and> record_shape w = Some True \<and>
        w_V w = Some 1 \<and> the (w_Kind w) \<in> {''checkpoint'', ''close'', ''resume''} \<and> w_Stream w = Some name \<and> w_Count w = Some n \<and>
        ChainHashRaw jcs (TrimSpace (ls ! (nat n - 1))) = Inr (the (w_Head w)) \<and>
        w_Prefix w = Some (sha_ref (lines_text (take (nat n) ls))) \<and> w_Prev w = Some prev \<and>
        checkpointAtRE (the (w_At w)) \<and> w_Alg w = Some ''ES256'' \<and> w_Kid w = Some kid \<and> w_Sig w = Some sig \<and>
        unb64 sig = Some raw' \<and> length raw' = 64 \<and> keys kid = Some pub \<and>
        jcs (print_members (m_delete m ''sig'')) = Some input \<and>
        ecdsa_Verify pub (sha256 input) (be_int (take 32 raw')) (be_int (drop 32 raw')))"

lemma shape_members:
  assumes "record_shape w = Some b"
  obtains v kind name n h pre t prev where "w_V w = Some v" "w_Kind w = Some kind" "w_Stream w = Some name" "w_Count w = Some n"
    "w_Head w = Some h" "w_Prefix w = Some pre" "w_At w = Some t" "w_Prev w = Some prev"
  using assms that by (auto simp: record_shape_def Let_def split: if_splits)

lemma signed_members:
  assumes "record_shape w = Some True"
  obtains alg kid sig where "w_Alg w = Some alg" "w_Kid w = Some kid" "w_Sig w = Some sig"
  using assms that by (auto simp: record_shape_def Let_def split: if_splits)

lemma hashRE_hex: "length (b :: bytes) = 32 \<Longrightarrow> checkpointHashRE (''sha256:'' @ hex_EncodeToString b)"
  by (simp add: checkpointHashRE_def hex_lower)

lemma ChainHashRaw_form: "ChainHashRaw jcs l = Inr h \<Longrightarrow> checkpointHashRE h"
proof -
  assume "ChainHashRaw jcs l = Inr h"
  then obtain c where "h = digest c" by (auto simp: ChainHashRaw_def split: sum.splits)
  then show ?thesis using hashRE_hex [of "sha256 c"] by (simp add: digest_def ChainHashPrefix_def length_sha256)
qed

lemma kinds: "checkpointKindCheckpoint = ''checkpoint''" "checkpointKindClose = ''close''" "checkpointKindResume = ''resume''"
  "checkpointVersion = 1" "checkpointAlg = ''ES256''"
  by (simp_all add: checkpointKindCheckpoint_def checkpointKindClose_def checkpointKindResume_def checkpointVersion_def checkpointAlg_def)

text \<open>The checks on the members, when the kept values are those of the stream.\<close>

lemma check_members_iff:
  assumes "record_shape w = Some b" "w_Count w = Some n"
    and "1 \<le> n \<and> n \<le> int (length ls) \<Longrightarrow> P n = Some (sha256 (lines_text (take (nat n) ls))) \<and> H n = head_opt jcs (ls ! (nat n - 1))"
  shows "check_members w (length ls) H P prev name = None \<longleftrightarrow>
    1 \<le> n \<and> n \<le> int (length ls) \<and> wellFormedLine (ls ! (nat n - 1)) \<and> w_V w = Some 1 \<and>
    the (w_Kind w) \<in> {''checkpoint'', ''close'', ''resume''} \<and> w_Stream w = Some name \<and>
    ChainHashRaw jcs (TrimSpace (ls ! (nat n - 1))) = Inr (the (w_Head w)) \<and>
    w_Prefix w = Some (sha_ref (lines_text (take (nat n) ls))) \<and> w_Prev w = Some prev \<and> checkpointAtRE (the (w_At w))"
proof (cases "1 \<le> n \<and> n \<le> int (length ls)")
  case False
  then show ?thesis by (auto simp: check_members_def Let_def assms(2))
next
  case True
  obtain v kind nm n' h pre t pr where w: "w_V w = Some v" "w_Kind w = Some kind" "w_Stream w = Some nm" "w_Count w = Some n'"
    "w_Head w = Some h" "w_Prefix w = Some pre" "w_At w = Some t" "w_Prev w = Some pr"
    by (rule shape_members [OF assms(1)])
  have n': "n' = n" using w(4) assms(2) by simp
  define l where "l = ls ! (nat n - 1)"
  note PH = assms(3) [OF True, folded l_def]
  have head: "checkpointHashRE h \<and> H n \<noteq> None \<and> H n = Some h \<longleftrightarrow> wellFormedLine l \<and> ChainHashRaw jcs (TrimSpace l) = Inr h"
    using ChainHashRaw_form [of jcs "TrimSpace l" h] PH by (auto simp: head_opt_def split: sum.splits)
  have pre: "checkpointHashRE pre \<and> pre = ''sha256:'' @ hex_EncodeToString (sha256 (lines_text (take (nat n) ls))) \<longleftrightarrow>
      pre = sha_ref (lines_text (take (nat n) ls))"
    using hashRE_hex [of "sha256 (lines_text (take (nat n) ls))"] by (auto simp: sha_ref_def length_sha256)
  have "check_members w (length ls) H P prev name = None \<longleftrightarrow>
      v = checkpointVersion \<and> (kind = checkpointKindCheckpoint \<or> kind = checkpointKindClose \<or> kind = checkpointKindResume) \<and> nm = name \<and>
      (checkpointHashRE h \<and> H n \<noteq> None \<and> H n = Some h) \<and>
      (checkpointHashRE pre \<and> pre = ''sha256:'' @ hex_EncodeToString (sha256 (lines_text (take (nat n) ls)))) \<and>
      pr = prev \<and> checkpointAtRE t"
    using True PH unfolding check_members_def Let_def w n' option.sel
    by (simp split: if_split del: append.simps)
  then show ?thesis using True unfolding head pre kinds w n' option.sel l_def by auto
qed

lemma check_signature_iff:
  assumes "record_shape w = Some True"
  shows "check_signature jcs m w keys = None \<longleftrightarrow>
    (\<exists>kid sig raw' pub input. w_Alg w = Some ''ES256'' \<and> w_Kid w = Some kid \<and> w_Sig w = Some sig \<and>
        unb64 sig = Some raw' \<and> length raw' = 64 \<and> keys kid = Some pub \<and>
        jcs (print_members (m_delete m ''sig'')) = Some input \<and>
        ecdsa_Verify pub (sha256 input) (be_int (take 32 raw')) (be_int (drop 32 raw')))"
proof -
  obtain alg kid sig where w: "w_Alg w = Some alg" "w_Kid w = Some kid" "w_Sig w = Some sig"
    by (rule signed_members [OF assms])
  show ?thesis unfolding check_signature_def w option.sel kinds
    by (auto split: option.splits)
qed

text \<open>
  C14. A checkpoint is reported valid exactly when it attests its lines. For every record of a
  sidecar, the verdict is valid if and only if the record is canonical and within the cap, its
  members are those of a signed v1 record naming this stream, its count is a line the stream has,
  its head is that line's chain hash, its prefix the SHA-256 of every byte through that line, its
  prev the hash of the record before it, and the key its kid names, one the verifier holds,
  verifies its 64-byte signature over the canonical form of its other members. An unsigned record
  is never valid.
\<close>

theorem checkpoint_valid_iff:
  assumes "VerifyCheckpoints jcs (ps, None) (qs, None) name keys = Inr rep" "j < length (cp_Records rep)"
    and "ls = fst (full_lines [] (concat ps))" "rs = fst (full_lines [] (concat qs))" "x = cp_Records rep ! j"
  shows "j < length rs \<and> cx_Index x = j + 1 \<and>
    (cx_Status x = CheckpointValid) =
      attests jcs ls name keys (expect_prev (prev_raw [] (map (record_line checkpointRecordCap) rs) j)) (rs ! j) (cx_Count x)"
proof -
  obtain recs k where v: "recs = map (record_line checkpointRecordCap) rs" "kept_ok jcs ls (needed_counts recs) k"
    "cp_Records rep = check_records jcs k name keys 1 [] recs"
    using VerifyCheckpoints_kept [OF assms(1)] assms(3,4) by metis
  obtain l P H where k: "k = (l, P, H)" by (cases k)
  have l: "l = length ls" using v(2) k by (simp add: kept_ok_def)
  have j: "j < length recs" using assms(2) v(3) by simp
  define prev where "prev = expect_prev (prev_raw [] recs j)"
  define r where "r = recs ! j"
  have x: "cx_Status x = status_of (checkRecord jcs r l H P prev name keys)" "cx_Count x = snd (peekKindCount (rl_raw r))" "cx_Index x = j + 1"
    using v(3) k check_records_nth [OF j, of jcs l P H name keys 1 "[]"] assms(5) by (simp_all add: Let_def r_def prev_def)
  have rj: "r = record_line checkpointRecordCap (rs ! j)" "j < length rs" using j v(1) by (simp_all add: r_def)
  have kept: "P n = Some (sha256 (lines_text (take (nat n) ls))) \<and> H n = head_opt jcs (ls ! (nat n - 1))"
    if "n = cx_Count x" "1 \<le> n \<and> n \<le> int (length ls)" for n
  proof -
    have "int (nat n) = n" using that(2) by simp
    moreover have "n \<in> set (needed_counts recs)"
      unfolding needed_counts_def set_filter set_map
      using that x(2) nth_mem [OF j] by (auto simp: r_def)
    moreover have "1 \<le> nat n" "nat n \<le> length ls" using that(2) by linarith+
    ultimately show ?thesis
      using v(2) unfolding k kept_ok_def by (metis fst_conv snd_conv)
  qed
  have "(cx_Status x = CheckpointValid) = attests jcs ls name keys prev (rs ! j) (cx_Count x)"
  proof
    assume "cx_Status x = CheckpointValid"
    then obtain m w where w: "\<not> rl_long r" "json_raw_map (rl_raw r) = Some m" "jcs (rl_raw r) = Some (rl_raw r)"
      "json_struct member_names set_member (rl_raw r) no_members = Some w" "record_shape w = Some True"
      "check_members w l H P prev name = None" "check_signature jcs m w keys = None"
      using checkRecord_valid x(1) by metis
    have raw: "rl_raw r = rs ! j" "length (rs ! j) \<le> checkpointRecordCap"
      using w(1) rj(1) by (auto simp: record_line_def split: if_splits)
    obtain n where n: "w_Count w = Some n" using shape_members [OF w(5)] by metis
    have c: "cx_Count x = n" using peekKindCount_members [OF w(4)] n x(2) by (simp add: peeks_def)
    note cm = check_members_iff [where jcs = jcs and H = H and P = P, OF w(5) n kept [OF c [symmetric]], of prev name]
    from cm w(6) check_signature_iff [OF w(5), of jcs m keys] w(7) w(2-5) raw n
    show "attests jcs ls name keys prev (rs ! j) (cx_Count x)"
      unfolding attests_def c l by auto
  next
    assume a: "attests jcs ls name keys prev (rs ! j) (cx_Count x)"
    then have r: "r = \<lparr>rl_raw = rs ! j, rl_long = False\<rparr>" using rj(1) by (simp add: attests_def record_line_def)
    obtain m w where w: "json_raw_map (rs ! j) = Some m" "json_struct member_names set_member (rs ! j) no_members = Some w"
      "record_shape w = Some True" "w_Count w = Some (cx_Count x)"
      "check_signature jcs m w keys = None" "check_members w (length ls) H P prev name = None" "jcs (rs ! j) = Some (rs ! j)"
    proof -
      from a obtain m w where w: "json_raw_map (rs ! j) = Some m" "json_struct member_names set_member (rs ! j) no_members = Some w"
        "record_shape w = Some True" "w_Count w = Some (cx_Count x)"
        unfolding attests_def by blast
      from a w have "check_signature jcs m w keys = None"
        unfolding attests_def check_signature_iff [OF w(3)] by auto
      moreover note cm = check_members_iff [where jcs = jcs and H = H and P = P, OF w(3,4) kept [OF refl], of prev name]
      from a w have "check_members w (length ls) H P prev name = None"
        unfolding attests_def by (intro cm [THEN iffD2]) auto
      moreover have "jcs (rs ! j) = Some (rs ! j)" using a by (simp add: attests_def)
      ultimately show thesis using that w by blast
    qed
    then show "cx_Status x = CheckpointValid"
      unfolding x(1) status_valid checkRecord_def r l by simp
  qed
  then show ?thesis using rj(2) x(3) v(1) by (simp add: prev_def)
qed

text \<open>
  One record cannot attest two different streams: the bytes it covers have the same SHA-256.
\<close>

lemma attests_binds:
  assumes "attests jcs ls name keys prev raw n" "attests jcs ls' name' keys' prev' raw n'"
  shows "name = name' \<and> n = n' \<and> prev = prev' \<and> sha256 (lines_text (take (nat n) ls)) = sha256 (lines_text (take (nat n') ls'))"
proof -
  obtain w where w: "json_struct member_names set_member raw no_members = Some w" "w_Stream w = Some name" "w_Count w = Some n"
    "w_Prefix w = Some (sha_ref (lines_text (take (nat n) ls)))" "w_Prev w = Some prev"
    using assms(1) by (auto simp: attests_def)
  obtain w' where w': "json_struct member_names set_member raw no_members = Some w'" "w_Stream w' = Some name'" "w_Count w' = Some n'"
    "w_Prefix w' = Some (sha_ref (lines_text (take (nat n') ls')))" "w_Prev w' = Some prev'"
    using assms(2) by (auto simp: attests_def)
  have "w = w'" using w(1) w'(1) by simp
  with w w' show ?thesis by (auto simp: sha_ref_def hex_inj)
qed

theorem checkpoint_valid_iff_witness:
  "\<exists>rep. VerifyCheckpoints no_jcs ([], None) ([''{}'' @ [LF]], None) ''s'' (\<lambda>_. None) = Inr rep \<and>
     cx_Index (cp_Records rep ! 0) = 1 \<and>
     (cx_Status (cp_Records rep ! 0) = CheckpointValid) =
       attests no_jcs [] ''s'' (\<lambda>_. None) checkpointGenesis ''{}'' (cx_Count (cp_Records rep ! 0))"
proof -
  have cap: "\<not> length ''{}'' > checkpointRecordCap" by (simp add: checkpointRecordCap_def)
  have side: "full_lines [] (''{}'' @ [LF]) = ([''{}''], [])" by simp
  define recs where "recs = [\<lparr>rl_raw = ''{}'', rl_long = False\<rparr>]"
  have read: "readSidecar ([''{}'' @ [LF]], None) = Inr recs"
    using cap unfolding readSidecar_def fst_conv snd_conv ls_run_feed concat.simps append_Nil2 ls_feed_lines [OF at_line_new side]
    by (simp add: side_emit_line recs_def Let_def)
  define rep where "rep = \<lparr>cp_StreamLines = 0, cp_Records = check_records no_jcs (0, Map.empty, Map.empty) ''s'' (\<lambda>_. None) 1 [] recs\<rparr>"
  have rep: "VerifyCheckpoints no_jcs ([], None) ([''{}'' @ [LF]], None) ''s'' (\<lambda>_. None) = Inr rep"
    unfolding VerifyCheckpoints_def read by (simp add: recs_def rep_def)
  have len: "0 < length (cp_Records rep)" by (simp add: rep_def recs_def Let_def)
  show ?thesis
    using checkpoint_valid_iff [OF rep len refl refl refl] rep side by (auto simp: prev_raw_def expect_prev_def)
qed

end
