(* ===== verification/Checkpoint_Written.thy ===== *)
theory Checkpoint_Written
  imports Checkpoint_Sound Jcs Chain_Verify
begin

text \<open>
  The text of a record: the time stamp the encoder formats is one the verifier reads, the members it
  puts are the members the verifier finds, and the canonical bytes survive both readings.
\<close>

section \<open>Numbers and times as text\<close>

lemma dec_digits_rec: "dec_digits n = (if n < 10 then [digit_char n] else dec_digits (n div 10) @ [digit_char (n mod 10)])"
  by (rule dec_digits.simps)

lemma digit_char_val: "d < 10 \<Longrightarrow> (of_char (digit_char d) :: nat) = 48 + d"
  by (simp add: digit_char_def char_small)

lemma is_digit_char: "d < 10 \<Longrightarrow> is_digit (digit_char d)"
  by (simp add: is_digit_def digit_char_val)

lemma dec_digits_all: "dec_digits n \<noteq> [] \<and> list_all is_digit (dec_digits n)"
proof (induction n rule: dec_digits.induct)
  case (1 n)
  then show ?case by (subst (1 2) dec_digits_rec) (auto simp: is_digit_char)
qed

lemma digits_value_snoc: "digits_value (ds @ [c]) = 10 * digits_value ds + (of_char c - 48)"
  by (simp add: digits_value_def)

lemma digits_value_dec: "digits_value (dec_digits n) = n"
proof (induction n rule: dec_digits.induct)
  case (1 n)
  show ?case
  proof (cases "n < 10")
    case True
    then show ?thesis by (subst dec_digits_rec) (simp add: digits_value_def digit_char_val)
  next
    case False
    with 1 have "digits_value (dec_digits n) = 10 * (n div 10) + n mod 10"
      by (subst dec_digits_rec) (simp add: digits_value_snoc digit_char_val)
    then show ?thesis by simp
  qed
qed

lemma digit_not_minus: "is_digit c \<Longrightarrow> c \<noteq> CHR ''-''"
  by (auto simp: is_digit_def)

lemma json_int64_text: "0 \<le> n \<Longrightarrow> is_int64 n \<Longrightarrow> json_int64 (int_text n) = Some n"
proof -
  assume n: "0 \<le> n" "is_int64 n"
  have d: "dec_digits (nat n) \<noteq> []" "list_all is_digit (dec_digits (nat n))" using dec_digits_all by auto
  then have "hd (dec_digits (nat n)) \<noteq> CHR ''-''"
    using digit_not_minus by (cases "dec_digits (nat n)") auto
  with n d show ?thesis by (simp add: json_int64_def int_text_def digits_value_dec)
qed

lemma dec_digits_length: "n < 10 ^ Suc k \<Longrightarrow> length (dec_digits n) \<le> Suc k"
proof (induction k arbitrary: n)
  case 0
  then show ?case by (subst dec_digits_rec) simp
next
  case (Suc k)
  show ?case
  proof (cases "n < 10")
    case True
    then show ?thesis by (subst dec_digits_rec) simp
  next
    case False
    have "n div 10 < 10 ^ Suc k" using Suc.prems by (simp add: less_mult_imp_div_less)
    from Suc.IH [OF this] False show ?thesis by (subst dec_digits_rec) simp
  qed
qed

lemma is_digit_zero: "is_digit (CHR ''0'')"
  by (simp add: is_digit_def)

lemma pad_int_digits:
  assumes "0 \<le> n" "n < 10 ^ Suc k"
  shows "length (pad_int (Suc k) n) = Suc k \<and> list_all is_digit (pad_int (Suc k) n)"
proof -
  have "nat \<bar>n\<bar> < 10 ^ Suc k" using assms by (simp add: nat_less_iff)
  then have "length (dec_digits (nat \<bar>n\<bar>)) \<le> Suc k" by (rule dec_digits_length)
  moreover have "list_all is_digit (replicate m (CHR ''0''))" for m by (induction m) (simp_all add: is_digit_zero)
  ultimately show ?thesis using assms(1) dec_digits_all [of "nat \<bar>n\<bar>"] by (simp add: pad_int_def Let_def)
qed

lemma find_month_bounds:
  "0 \<le> d \<Longrightarrow> d < 400 \<Longrightarrow> \<forall>l \<in> set ls. 0 \<le> l \<and> l < 32 \<Longrightarrow>
     m \<le> fst (find_month m ls d) \<and> fst (find_month m ls d) \<le> m + int (length ls) \<and> 1 \<le> snd (find_month m ls d) \<and>
     (snd (find_month m ls d) \<le> 31 \<or> sum_list ls \<le> d \<and> snd (find_month m ls d) \<le> d - sum_list ls + 1)"
proof (induction m ls d rule: find_month.induct)
  case (2 m l ls d)
  show ?case
  proof (cases "d < l")
    case False
    then have "m + 1 \<le> fst (find_month (m + 1) ls (d - l)) \<and> fst (find_month (m + 1) ls (d - l)) \<le> m + 1 + int (length ls) \<and>
        1 \<le> snd (find_month (m + 1) ls (d - l)) \<and>
        (snd (find_month (m + 1) ls (d - l)) \<le> 31 \<or> sum_list ls \<le> d - l \<and> snd (find_month (m + 1) ls (d - l)) \<le> d - l - sum_list ls + 1)"
      using 2 by auto
    with False show ?thesis by auto
  qed (use 2 in auto)
qed simp

lemma year_day_bounds: "0 \<le> snd (year_day days) \<and> snd (year_day days) \<le> 365"
proof -
  define d0 where "d0 = (days + 719162) mod 146097"
  define n where "n = d0 div 36524"
  define d1 where "d1 = d0 - 36524 * (n - n div 4)"
  define d2 where "d2 = d1 mod 1461"
  define k where "k = d2 div 365"
  have "0 \<le> d2" "d2 \<le> 1460" by (simp_all add: d2_def)
  then have "0 \<le> k" "k \<le> 4" "365 * k \<le> d2" "d2 \<le> 365 * k + 364" by (simp_all add: k_def)
  moreover have "k div 4 = (if k = 4 then 1 else 0)" using \<open>0 \<le> k\<close> \<open>k \<le> 4\<close> by auto
  ultimately have "0 \<le> d2 - 365 * (k - k div 4)" "d2 - 365 * (k - k div 4) \<le> 365"
    using \<open>d2 \<le> 1460\<close> by (cases "k = 4"; simp)+
  moreover have "snd (year_day days) = d2 - 365 * (k - k div 4)"
    unfolding year_day_def Let_def k_def d2_def d1_def n_def d0_def by simp
  ultimately show ?thesis by simp
qed

lemma format_at_RE:
  assumes "0 \<le> fst (civil (t div Second div 86400))" "fst (civil (t div Second div 86400)) \<le> 9999"
  shows "checkpointAtRE (format_at t)"
proof -
  obtain y m d where c: "civil (t div Second div 86400) = (y, m, d)" by (cases "civil (t div Second div 86400)")
  define yd where "yd = snd (year_day (t div Second div 86400))"
  define months :: "int list" where "months = [31, if leap_year y then 29 else 28, 31, 30, 31, 30, 31, 31, 30, 31, 30, 31]"
  have md: "(m, d) = find_month 1 months yd" using c by (auto simp: civil_def yd_def months_def split: prod.splits)
  have yd: "0 \<le> yd" "yd \<le> 365" using year_day_bounds by (simp_all add: yd_def)
  have "\<forall>l \<in> set months. 0 \<le> l \<and> l < 32" "length months = 12" "365 \<le> sum_list months" by (simp_all add: months_def)
  moreover have "fst (find_month 1 months yd) = m" "snd (find_month 1 months yd) = d" by (simp_all add: md [symmetric])
  moreover have "0 \<le> yd" "yd < 400" using yd by simp_all
  ultimately have "1 \<le> m \<and> m \<le> 1 + int 12 \<and> 1 \<le> d \<and> (d \<le> 31 \<or> sum_list months \<le> yd \<and> d \<le> yd - sum_list months + 1)"
    using find_month_bounds [of yd months 1] by metis
  then have m: "0 \<le> m" "m < 100" "0 \<le> d" "d < 100" using yd \<open>365 \<le> sum_list months\<close> by linarith+
  define s where "s = t div Second mod 86400"
  define ms where "ms = t mod Second div 1000000"
  have s: "0 \<le> s" "s < 86400" by (simp_all add: s_def)
  have ms: "0 \<le> ms" "ms < 1000"
    using pos_mod_bound [of Second t] pos_mod_sign [of Second t] by (simp_all add: ms_def Second_def)
  have p: "length (pad_int 4 y) = 4 \<and> list_all is_digit (pad_int 4 y)"
    using pad_int_digits [of y 3] assms c by (simp add: eval_nat_numeral)
  have two: "length (pad_int 2 n) = 2 \<and> list_all is_digit (pad_int 2 n)" if "0 \<le> n" "n < 100" for n
    using pad_int_digits [of n 1] that by (simp add: eval_nat_numeral)
  have three: "length (pad_int 3 ms) = 3 \<and> list_all is_digit (pad_int 3 ms)"
    using pad_int_digits [of ms 2] ms by (simp add: eval_nat_numeral)
  have hms: "0 \<le> s div 3600" "s div 3600 < 100" "0 \<le> s mod 3600 div 60" "s mod 3600 div 60 < 100" "0 \<le> s mod 60" "s mod 60 < 100"
    using s by (simp_all add: div_int_pos_iff)
  have split: "length xs = 2 \<and> list_all is_digit xs \<Longrightarrow> \<exists>a b. xs = [a, b] \<and> is_digit a \<and> is_digit b" for xs
    by (auto simp: length_Suc_conv eval_nat_numeral)
  obtain a1 a2 a3 a4 where y4: "pad_int 4 y = [a1, a2, a3, a4]" "is_digit a1" "is_digit a2" "is_digit a3" "is_digit a4"
    using p by (auto simp: length_Suc_conv eval_nat_numeral)
  obtain b1 b2 b3 where m3: "pad_int 3 ms = [b1, b2, b3]" "is_digit b1" "is_digit b2" "is_digit b3"
    using three by (auto simp: length_Suc_conv eval_nat_numeral)
  note t2 = split [OF two [OF m(1,2)]] split [OF two [OF m(3,4)]] split [OF two [OF hms(1,2)]] split [OF two [OF hms(3,4)]]
    split [OF two [OF hms(5,6)]]
  show ?thesis
    using t2 y4 m3
    by (auto simp: format_at_def c Let_def s_def [symmetric] ms_def [symmetric] checkpointAtRE_def at_shape_def)
qed

section \<open>A canonical object decodes to its members\<close>

definition num_ok :: "int \<Rightarrow> bool" where
  "num_ok n \<longleftrightarrow> 0 \<le> n \<and> is_int64 n \<and> float_canon (int_text n) = Some (int_text n)"

text \<open>The values of a record's members: two integers, the rest strings.\<close>

definition member_ok :: "string \<times> cst \<Rightarrow> bool" where
  "member_ok kc = (case kc of (k, c) \<Rightarrow> k \<in> set member_names \<and> valid_utf8 k \<and>
     (if k \<in> set int_names then \<exists>i. c = jint i \<and> num_ok i else \<exists>s. c = jstr s \<and> valid_utf8 s))"

fun str_of :: "cst option \<Rightarrow> string option" where
  "str_of (Some (CStr raw)) = Some (dec_str raw)"
| "str_of _ = None"

fun int_of :: "cst option \<Rightarrow> int option" where
  "int_of (Some (CNum t)) = json_int64 t"
| "int_of _ = None"

definition members_of :: "(string \<times> cst) list \<Rightarrow> ck_members" where
  "members_of M = \<lparr>w_V = int_of (map_of M ''v''), w_Kind = str_of (map_of M ''kind''),
     w_Stream = str_of (map_of M ''stream''), w_Count = int_of (map_of M ''count''), w_Head = str_of (map_of M ''head''),
     w_Prefix = str_of (map_of M ''prefix''), w_At = str_of (map_of M ''at''), w_Prev = str_of (map_of M ''prev''),
     w_Alg = str_of (map_of M ''alg''), w_Kid = str_of (map_of M ''kid''), w_Sig = str_of (map_of M ''sig''),
     w_Unsigned = str_of (map_of M ''unsigned_reason'')\<rparr>"

lemma int_text_not_minus: "0 \<le> n \<Longrightarrow> int_text n \<noteq> ''-0''"
proof
  assume "0 \<le> n" "int_text n = ''-0''"
  then have "list_all is_digit ''-0''" using dec_digits_all [of "nat n"] by (simp add: int_text_def)
  then show False by (simp add: is_digit_def)
qed

lemma flat_jint: "num_ok n \<Longrightarrow> flat_value (jint n)"
  using int_text_not_minus [of n] by (simp add: num_ok_def jint_def)

lemma flat_jstr: "valid_utf8 s \<Longrightarrow> flat_value (jstr s)"
  by (simp add: jstr_def str_ok_enc)

lemma member_ok_flat: "member_ok (k, c) \<Longrightarrow> flat_value c \<and> valid_utf8 k"
  by (auto simp: member_ok_def flat_jint flat_jstr split: if_splits)

lemma str_of_jstr: "valid_utf8 s \<Longrightarrow> str_of (Some (jstr s)) = Some s"
  by (simp add: jstr_def dec_enc_valid)

lemma int_of_jint: "num_ok n \<Longrightarrow> int_of (Some (jint n)) = Some n"
  by (simp add: jint_def json_int64_text num_ok_def)

lemma plain_string: "flat_value c \<Longrightarrow> plain_value c = GStr s \<Longrightarrow> set_ptr_string c = Some (Some s)"
  by (cases c) (auto simp: set_ptr_string_def split: option.splits)

lemma plain_number: "flat_value c \<Longrightarrow> canonical_num c \<Longrightarrow> plain_value c = GNum t \<Longrightarrow> c = CNum t"
  by (cases c) (auto simp: canonical_num_def split: option.splits)

text \<open>A member of the canonical object against the member it stands for.\<close>

lemma lk_member:
  assumes "flat_obj ms" "list_all (\<lambda>(k, c). canonical_num c) ms" "obj_value ms = map (\<lambda>(k, c). (k, plain_value c)) M" "list_all member_ok M"
  shows "(n \<notin> set int_names \<longrightarrow> (case lk ms n of None \<Rightarrow> None | Some c \<Rightarrow> the (set_ptr_string c)) = str_of (map_of M n)) \<and>
    (n \<in> set int_names \<longrightarrow> (case lk ms n of None \<Rightarrow> None | Some c \<Rightarrow> the (set_ptr_int c)) = int_of (map_of M n)) \<and>
    (\<forall>c. lk ms n = Some c \<longrightarrow> n \<in> set member_names \<and> fits n c)"
proof -
  have map_snd: "map_of (map (\<lambda>(k, c). (k, g c)) xs) n = map_option g (map_of xs n)" for g :: "cst \<Rightarrow> gval" and xs
    by (induction xs) auto
  have "map_of (obj_value ms) n = map_of (map (\<lambda>(k, c). (dec_str k, plain_value c)) ms) n"
    using obj_value_map assms(1) by (simp add: flat_obj_def)
  also have "map (\<lambda>(k, c). (dec_str k, plain_value c)) ms = map (\<lambda>(k, c). (k, plain_value c)) (map (\<lambda>(k, c). (dec_str k, c)) ms)" by auto
  also have "map_of \<dots> n = map_option plain_value (lk ms n)" unfolding lk_def by (rule map_snd)
  finally have eq: "map_option plain_value (lk ms n) = map_option plain_value (map_of M n)"
    using assms(3) map_snd [of plain_value M] by simp
  show ?thesis
  proof (cases "map_of M n")
    case None
    with eq show ?thesis by simp
  next
    case (Some x)
    with eq obtain c where c: "lk ms n = Some c" "plain_value c = plain_value x" by (cases "lk ms n") auto
    have "(n, x) \<in> set M" using Some by (rule map_of_SomeD)
    then have ok: "member_ok (n, x)" using assms(4) by (auto simp: list_all_iff)
    have "\<exists>raw. (raw, c) \<in> set ms" using map_of_SomeD [OF c(1) [unfolded lk_def]] by auto
    then have fc: "flat_value c" "canonical_num c" using assms(1,2) by (auto simp: flat_obj_def list_all_iff)
    show ?thesis
    proof (cases "n \<in> set int_names")
      case True
      with ok obtain i where i: "x = jint i" "num_ok i" by (auto simp: member_ok_def)
      then have "plain_value c = GNum (int_text i)" using c(2) by (simp add: jint_def num_ok_def)
      with plain_number [OF fc] have "c = CNum (int_text i)" by blast
      with True c(1) Some i ok show ?thesis
        by (simp add: member_ok_def fits_def set_ptr_int_def jint_def json_int64_text num_ok_def)
    next
      case False
      with ok obtain s where s: "x = jstr s" "valid_utf8 s" by (auto simp: member_ok_def)
      then have "plain_value c = GStr s" using c(2) by (simp add: jstr_def dec_enc_valid)
      with plain_string [OF fc(1)] have "set_ptr_string c = Some (Some s)" by blast
      with False c(1) Some s ok show ?thesis by (simp add: member_ok_def fits_def str_of_jstr)
    qed
  qed
qed

lemma canonical_members:
  assumes "jcs_laws jcs" "wf_map M" "list_all member_ok M" "jcs (marshal_body M) = Some d"
  obtains ms where "parse_json d = Some (CObj ms)" "flat_obj ms" "obj_value ms = map (\<lambda>(k, c). (k, plain_value c)) M"
    "json_raw_map d = Some (raw_members ms)" "jcs d = Some d" "json_struct member_names set_member d no_members = Some (members_of M)"
proof -
  have fl: "(k, c) \<in> set M \<Longrightarrow> flat_value c \<and> valid_utf8 k" for k c
    using assms(3) member_ok_flat by (auto simp: list_all_iff)
  note q = quoted_flat [OF assms(2), of "\<lambda>c. c", OF fl]
  obtain d' ms where d': "jcs (marshal_body M) = Some d'" "parse_json d' = Some (CObj ms)" "flat_obj ms"
    "list_all (\<lambda>(k, c). canonical_num c) ms" "obj_value ms = map (\<lambda>(k, c). (k, plain_value c)) M"
    using jcs_laws_value [OF assms(1) q [THEN conjunct1]] q by (auto simp: marshal_body_def)
  then have d: "d' = d" using assms(4) by simp
  note lkm = lk_member [OF d'(3-5) assms(3)]
  have dist: "distinct (map (\<lambda>(k, c). dec_str k) ms)" using d'(3) by (simp add: flat_obj_def)
  have fit: "\<forall>(k, c) \<in> set ms. dec_str k \<in> set member_names \<and> fits (dec_str k) c"
  proof (rule ballI, clarify)
    fix k c assume kc: "(k, c) \<in> set ms"
    have "distinct (map fst (map (\<lambda>(k, c). (dec_str k, c)) ms))" using dist by (simp add: comp_def case_prod_unfold)
    moreover have "(dec_str k, c) \<in> set (map (\<lambda>(k, c). (dec_str k, c)) ms)" using kc by force
    ultimately have "lk ms (dec_str k) = Some c" unfolding lk_def by (rule map_of_is_SomeI)
    then show "dec_str k \<in> set member_names \<and> fits (dec_str k) c" using lkm by blast
  qed
  have pick: "pick f x None = (case x of None \<Rightarrow> None | Some c \<Rightarrow> the (f c))" for f :: "cst \<Rightarrow> 'a option option" and x
    by (cases x) simp_all
  have "got_members ms no_members = members_of M"
    using lkm [of "''v''"] lkm [of "''kind''"] lkm [of "''stream''"] lkm [of "''count''"] lkm [of "''head''"] lkm [of "''prefix''"]
      lkm [of "''at''"] lkm [of "''prev''"] lkm [of "''alg''"] lkm [of "''kid''"] lkm [of "''sig''"] lkm [of "''unsigned_reason''"]
    by (simp add: got_members_def members_of_def no_members_def got_str_def got_int_def pick int_names_def)
  then have "json_struct member_names set_member d no_members = Some (members_of M)"
    using dec_struct_got [OF dist fit, of no_members] d'(2) d by (simp add: json_struct_defs)
  moreover have "jcs d = Some d" using jcs_laws_idem [OF assms(1,4)] by blast
  ultimately show thesis using that [of ms] d' d by (simp add: json_raw_map_def)
qed

section \<open>What a written record decodes to\<close>

definition fields_ok :: "checkpointFields \<Rightarrow> bool" where
  "fields_ok f \<longleftrightarrow> valid_utf8 (cf_Kind f) \<and> valid_utf8 (cf_Stream f) \<and> valid_utf8 (cf_Head f) \<and> valid_utf8 (cf_Prefix f) \<and>
     valid_utf8 (cf_At f) \<and> valid_utf8 (cf_Prev f) \<and> num_ok (cf_Count f)"

definition base_body :: "checkpointFields \<Rightarrow> string \<Rightarrow> (string \<times> cst) list" where
  "base_body f kid = m_put (m_put (body f) ''alg'' (jstr checkpointAlg)) ''kid'' (jstr kid)"

definition unsigned_body :: "checkpointFields \<Rightarrow> string \<Rightarrow> (string \<times> cst) list" where
  "unsigned_body f kid = m_put (m_delete (m_delete (base_body f kid) ''alg'') ''kid'') ''unsigned_reason'' (jstr checkpointKeyExpired)"

definition signed_body :: "checkpointFields \<Rightarrow> string \<Rightarrow> bytes \<Rightarrow> (string \<times> cst) list" where
  "signed_body f kid raw = m_put (base_body f kid) ''sig'' (jstr (b64 raw))"

definition field_members :: "checkpointFields \<Rightarrow> (string \<times> cst) list" where
  "field_members f = [(''v'', jint checkpointVersion), (''kind'', jstr (cf_Kind f)), (''stream'', jstr (cf_Stream f)),
     (''count'', jint (cf_Count f)), (''head'', jstr (cf_Head f)), (''prefix'', jstr (cf_Prefix f)),
     (''at'', jstr (cf_At f)), (''prev'', jstr (cf_Prev f))]"

lemma body_collect: "body f = m_collect [] (field_members f)"
  by (simp add: body_def field_members_def)

text \<open>The version, as a double.\<close>

lemma one_number: "is_number ''1''" by code_simp

lemma one_parts: "literal_parts ''1'' = (False, 1, 0)" by (simp add: literal_parts_def is_digit_def digits_value_def)

lemma bit_len_one: "bit_len 1 = 1" by (simp add: bit_len.simps)

lemma round_one: "f64_round (Suc 0) (Suc 0) = Some (4503599627370496, -52)" 
  using bit_len_one by (simp add: f64_round_def Let_def scale_down_def round_half_even_def)

lemma bit_len_52: "bit_len 4503599627370496 = 53" by (simp add: bit_len.simps)

lemma bit_len_two: "bit_len 2 = 2" by (simp add: bit_len.simps)

lemma dec_point_six: "dec_point 6 n d k = dec_point (Suc (Suc (Suc (Suc (Suc (Suc 0)))))) n d k" by (simp add: eval_nat_numeral)

lemma dec_point_one: "dec_point 6 4503599627370496 4503599627370496 (log10_below 4503599627370496 4503599627370496) = 1"
  by (simp add: log10_below_def bit_len_52 scale_down_def dec_point_six)

lemma shortest_17: "shortest 17 p v k = shortest (Suc 16) p v k" proof - have "17 = Suc 16" by simp then show ?thesis by (simp only:) qed

lemma strip_one: "strip_zeros 20 1 e = (1,e)" proof - have "20 = Suc 19" by simp then show ?thesis by (simp only: strip_zeros.simps) simp qed

lemma round_two: "f64_round 2 (Suc 0) \<noteq> Some (4503599627370496, -52)" 
  using bit_len_one by (simp add: f64_round_def Let_def scale_down_def round_half_even_def bit_len_two)

lemma shortest_one: "shortest 17 1 (4503599627370496, -52) 1 = (1, 0)"
  unfolding shortest_17 shortest.simps by (simp add: f64_fraction_def scale_down_def reads_as_def round_two round_one Let_def round_half_even_def)

lemma digits_one: "dec_digits (Suc 0) = ''1''" by code_simp

lemma one_digits: "f64_digits (4503599627370496, -52) = (''1'', 1)"
  using dec_point_one shortest_one strip_one digits_one by (simp add: f64_digits_def f64_fraction_def scale_down_def)

lemma float_one: "float_canon ''1'' = Some ''1''" by (simp add: float_canon_def one_number f64_parse_def one_parts scale_down_def round_one f64_text_def one_digits)

lemma num_ok_1: "num_ok 1"
proof -
  have "int_text 1 = ''1''" by code_simp
  then show ?thesis by (simp add: num_ok_def int64_defs float_one)
qed

lemma valid_ascii_lits: "valid_utf8 ''ES256''" "valid_utf8 ''key_expired''"
  by (rule ascii_valid; simp add: ascii_def)+

lemma name_valid: "k \<in> set member_names \<Longrightarrow> valid_utf8 k"
proof -
  have "list_all ascii member_names" by code_simp
  then show "k \<in> set member_names \<Longrightarrow> valid_utf8 k" by (auto simp: list_all_iff intro: ascii_valid)
qed

lemma member_okI: "k \<in> set member_names \<and> k \<notin> set int_names \<Longrightarrow> valid_utf8 s \<Longrightarrow> member_ok (k, jstr s)"
  by (auto simp: member_ok_def name_valid)

lemma member_ok_int: "k \<in> set member_names \<and> k \<in> set int_names \<Longrightarrow> num_ok n \<Longrightarrow> member_ok (k, jint n)"
  by (auto simp: member_ok_def name_valid)

lemma string_names: "''alg'' \<in> set member_names \<and> ''alg'' \<notin> set int_names" "''kid'' \<in> set member_names \<and> ''kid'' \<notin> set int_names"
  "''sig'' \<in> set member_names \<and> ''sig'' \<notin> set int_names" "''unsigned_reason'' \<in> set member_names \<and> ''unsigned_reason'' \<notin> set int_names"
  "''kind'' \<in> set member_names \<and> ''kind'' \<notin> set int_names" "''stream'' \<in> set member_names \<and> ''stream'' \<notin> set int_names"
  "''head'' \<in> set member_names \<and> ''head'' \<notin> set int_names" "''prefix'' \<in> set member_names \<and> ''prefix'' \<notin> set int_names"
  "''at'' \<in> set member_names \<and> ''at'' \<notin> set int_names" "''prev'' \<in> set member_names \<and> ''prev'' \<notin> set int_names"
  by (simp_all add: member_names_def int_names_def)

lemma number_names: "''v'' \<in> set member_names \<and> ''v'' \<in> set int_names" "''count'' \<in> set member_names \<and> ''count'' \<in> set int_names"
  by (simp_all add: member_names_def int_names_def)

lemma field_members_ok: "fields_ok f \<Longrightarrow> list_all member_ok (field_members f)"
  unfolding field_members_def fields_ok_def checkpointVersion_def list.pred_inject
  by (intro conjI member_okI member_ok_int string_names number_names num_ok_1 TrueI) simp_all

lemma list_all_m_put: "list_all P m \<Longrightarrow> P (k, v) \<Longrightarrow> list_all P (m_put m k v)"
  using set_m_put_subset [of m k v] by (auto simp: list_all_iff)

lemma list_all_m_delete: "list_all P m \<Longrightarrow> list_all P (m_delete m k)"
  by (auto simp: list_all_iff m_delete_def)

lemma list_all_m_collect: "list_all P kvs \<Longrightarrow> list_all P m \<Longrightarrow> list_all P (m_collect m kvs)"
  using set_m_collect [of m kvs] by (auto simp: list_all_iff)

lemma b64_ascii: "ascii (b64 xs)"
proof -
  have "(of_char (b64_char n) :: nat) < 128" if "n < 64" for n
    using that of_char_b64_char [of n] by (auto split: if_splits)
  with sextets_bound [of xs] show ?thesis by (auto simp: b64_def ascii_def list_all_iff)
qed

lemma bodies_ok:
  assumes "fields_ok f" "valid_utf8 kid"
  shows "wf_map (base_body f kid) \<and> list_all member_ok (base_body f kid)"
    "wf_map (unsigned_body f kid) \<and> list_all member_ok (unsigned_body f kid)"
    "wf_map (signed_body f kid raw) \<and> list_all member_ok (signed_body f kid raw)"
proof -
  have "wf_map (body f)" "list_all member_ok (body f)"
    using field_members_ok [OF assms(1)] by (simp_all add: body_collect wf_m_collect list_all_m_collect)
  then show b: "wf_map (base_body f kid) \<and> list_all member_ok (base_body f kid)"
    using assms(2) member_okI string_names valid_ascii_lits
    by (simp add: base_body_def wf_m_put list_all_m_put checkpointAlg_def)
  then show "wf_map (unsigned_body f kid) \<and> list_all member_ok (unsigned_body f kid)"
    using member_okI string_names valid_ascii_lits
    by (simp add: unsigned_body_def wf_m_put wf_m_delete list_all_m_put list_all_m_delete checkpointKeyExpired_def)
  from b show "wf_map (signed_body f kid raw) \<and> list_all member_ok (signed_body f kid raw)"
    using member_okI string_names ascii_valid [OF b64_ascii]
    by (simp add: signed_body_def wf_m_put list_all_m_put)
qed

lemma body_lookup: "map_of (body f) = map_of (field_members f)"
  unfolding body_collect by (subst m_collect_lookup) (simp_all add: field_members_def)

definition common_members :: "checkpointFields \<Rightarrow> ck_members" where
  "common_members f = no_members\<lparr>w_V := Some 1, w_Kind := Some (cf_Kind f), w_Stream := Some (cf_Stream f),
     w_Count := Some (cf_Count f), w_Head := Some (cf_Head f), w_Prefix := Some (cf_Prefix f), w_At := Some (cf_At f),
     w_Prev := Some (cf_Prev f)\<rparr>"

lemma members_of_bodies:
  assumes "fields_ok f" "valid_utf8 kid"
  shows "members_of (unsigned_body f kid) = (common_members f)\<lparr>w_Unsigned := Some checkpointKeyExpired\<rparr>"
    "members_of (signed_body f kid raw) =
       (common_members f)\<lparr>w_Alg := Some checkpointAlg, w_Kid := Some kid, w_Sig := Some (b64 raw)\<rparr>"
  using assms num_ok_1 ascii_valid [OF b64_ascii, of raw] valid_ascii_lits
  by (simp_all add: members_of_def unsigned_body_def signed_body_def base_body_def m_put_lookup m_delete_lookup body_lookup
      field_members_def common_members_def no_members_def str_of_jstr int_of_jint fields_ok_def checkpointVersion_def
      checkpointAlg_def checkpointKeyExpired_def)

lemma encode_unfold:
  "encodeCheckpoint jcs f s =
     (case jcs (marshal_body (base_body f (sg_KeyID s))) of
        None \<Rightarrow> Inl CkCanonical
      | Some input \<Rightarrow>
          (case sg_Sign s input of
             KeyExpired \<Rightarrow> (case jcs (marshal_body (unsigned_body f (sg_KeyID s))) of None \<Rightarrow> Inl CkCanonical | Some r \<Rightarrow> Inr (None, r))
           | SignError \<Rightarrow> Inl CkSign
           | Signed raw \<Rightarrow>
               if length raw \<noteq> 64 then Inl (CkSigSize (length raw))
               else (case jcs (marshal_body (signed_body f (sg_KeyID s) raw)) of None \<Rightarrow> Inl CkCanonical | Some r \<Rightarrow> Inr (Some input, r))))"
  by (simp add: encodeCheckpoint_def Let_def canonicalJSON_def base_body_def unsigned_body_def signed_body_def
      split: option.split sign_answer.split)

text \<open>
  The two kinds of record. \<open>w\<close> is what the verifier's struct holds, \<open>m\<close> its map of members.
\<close>

lemma encode_decodes:
  assumes "jcs_laws jcs" "fields_ok f" "valid_utf8 (sg_KeyID s)" "encodeCheckpoint jcs f s = Inr (i, r)"
  obtains m input where "i = None" "jcs (marshal_body (base_body f (sg_KeyID s))) = Some input" "sg_Sign s input = KeyExpired"
    "json_raw_map r = Some m" "jcs r = Some r"
    "json_struct member_names set_member r no_members = Some ((common_members f)\<lparr>w_Unsigned := Some checkpointKeyExpired\<rparr>)"
  | m input raw where "i = Some input" "jcs (marshal_body (base_body f (sg_KeyID s))) = Some input" "sg_Sign s input = Signed raw" "length raw = 64"
    "json_raw_map r = Some m" "jcs r = Some r" "jcs (print_members (m_delete m ''sig'')) = Some input"
    "json_struct member_names set_member r no_members =
       Some ((common_members f)\<lparr>w_Alg := Some checkpointAlg, w_Kid := Some (sg_KeyID s), w_Sig := Some (b64 raw)\<rparr>)"
proof -
  define kid where "kid = sg_KeyID s"
  note ok = bodies_ok [OF assms(2,3), folded kid_def]
  note mem = members_of_bodies [OF assms(2,3), folded kid_def]
  obtain input where input: "jcs (marshal_body (base_body f kid)) = Some input"
    using assms(4) by (auto simp: encode_unfold kid_def split: option.splits)
  show thesis
  proof (cases "sg_Sign s input")
    case KeyExpired
    then have r: "i = None" "jcs (marshal_body (unsigned_body f kid)) = Some r"
      using assms(4) input by (auto simp: encode_unfold kid_def split: option.splits)
    from ok(2) obtain ms where "json_raw_map r = Some (raw_members ms)" "jcs r = Some r"
      "json_struct member_names set_member r no_members = Some (members_of (unsigned_body f kid))"
      using canonical_members [OF assms(1) _ _ r(2)] by blast
    then show thesis using that(1) r(1) input KeyExpired mem(1) by (simp add: kid_def)
  next
    case (Signed raw)
    then have r: "i = Some input" "length raw = 64" "jcs (marshal_body (signed_body f kid raw)) = Some r"
      using assms(4) input by (auto simp: encode_unfold kid_def split: option.splits if_splits)
    from ok(3) obtain ms where ms: "flat_obj ms" "obj_value ms = map (\<lambda>(k, c). (k, plain_value c)) (signed_body f kid raw)"
      "json_raw_map r = Some (raw_members ms)" "jcs r = Some r"
      "json_struct member_names set_member r no_members = Some (members_of (signed_body f kid raw))"
      using canonical_members [OF assms(1) _ _ r(3)] by blast
    have nosig: "''sig'' \<notin> set (m_keys (base_body f kid))"
    proof
      assume "''sig'' \<in> set (m_keys (base_body f kid))"
      then have "map_of (base_body f kid) ''sig'' \<noteq> None" by (auto simp: m_keys_def map_of_eq_None_iff)
      then show False by (simp add: base_body_def m_put_lookup body_lookup field_members_def)
    qed
    have fl: "\<And>k c. (k, c) \<in> set (base_body f kid) \<Longrightarrow> flat_value c \<and> valid_utf8 k"
      using ok(1) member_ok_flat by (auto simp: list_all_iff)
    have "jcs (print_members (m_delete (raw_members ms) ''sig'')) = Some input"
      using jcs_without_member [OF assms(1) ms(1) ms(2) [unfolded signed_body_def] _ nosig fl] ok(1) input
      by (simp add: marshal_body_def)
    with that(2) r(1,2) input Signed ms mem(2) show thesis by (simp add: kid_def)
  next
    case SignError
    with assms(4) input show thesis by (simp add: encode_unfold kid_def)
  qed
qed

end
