(* ===== verification/Checkpoint_Accepted.thy ===== *)
theory Checkpoint_Accepted
  imports Checkpoint_Written Checkpoint_Honest Tamper
begin

text \<open>
  What the checkpointer writes is what the verifier accepts: the record of a checkpointer that
  followed its stream is refused for no reason but its key or its signature, against the stream it
  was written for and every later state of it.
\<close>

section \<open>The record of an append\<close>

lemma at_ascii: "checkpointAtRE s \<Longrightarrow> ascii s"
proof -
  assume s: "checkpointAtRE s"
  have lit: "list_all (\<lambda>c. (of_char c :: nat) < 128) at_shape" by (simp add: at_shape_def)
  have dig: "is_digit c \<Longrightarrow> (of_char c :: nat) < 128" for c by (simp add: is_digit_def)
  from s have "list_all2 (\<lambda>p c. if p = CHR ''d'' then is_digit c else c = p) at_shape s" by (simp add: checkpointAtRE_def)
  then have "list_all2 (\<lambda>p c. (of_char p :: nat) < 128 \<longrightarrow> (of_char c :: nat) < 128) at_shape s"
    by (rule list_all2_mono) (use dig in \<open>auto split: if_splits\<close>)
  with lit show ?thesis
    unfolding ascii_def list_all_length list_all2_conv_all_nth by auto
qed

lemma hex_ref_ascii: "ascii (''sha256:'' @ hex_EncodeToString b)"
  using ascii_hex [of b] by (auto simp: ascii_def)

lemma expect_prev_ascii: "ascii (expect_prev b)"
proof -
  have "ascii checkpointGenesis" by (simp add: ascii_def checkpointGenesis_def list_all_iff)
  then show ?thesis using hex_ref_ascii by (auto simp: expect_prev_def sha_ref_def)
qed

lemma line_head_opt: "line_head jcs l \<noteq> [] \<Longrightarrow> head_opt jcs l = Some (line_head jcs l) \<and> ascii (line_head jcs l)"
  by (auto simp: line_head_def head_opt_def ChainHashRaw_def digest_ascii split: if_splits sum.splits)

text \<open>The verdict on a record of a known shape whose members all agree with the stream.\<close>

lemma verdict_of_written:
  assumes "json_raw_map r = Some m" "jcs r = Some r" "json_struct member_names set_member r no_members = Some w"
    and "record_shape w = Some b" "check_members w (length ls) H P prev name = None"
  shows "checkRecord jcs \<lparr>rl_raw = r, rl_long = False\<rparr> (length ls) H P prev name keys =
    (if b then (case check_signature jcs m w keys of Some e \<Rightarrow> (Some e, False, False) | None \<Rightarrow> (None, False, True))
     else if the (w_Unsigned w) \<noteq> checkpointKeyExpired then (Some (RReason (the (w_Unsigned w))), False, False) else (None, False, False))"
  using assms by (simp add: checkRecord_def)

text \<open>Finding the record again in a longer stream and a longer sidecar.\<close>

lemma lines_of_longer:
  assumes "no_LF ls" "take (length (lines_text ls)) f = lines_text ls"
  shows "\<exists>ks. fst (full_lines [] (f @ g)) = ls @ ks"
proof -
  have "length (lines_text ls) = min (length f) (length (lines_text ls))" using arg_cong [OF assms(2), of length] by simp
  then have "length (lines_text ls) \<le> length f" by linarith
  then have longer: "take (length (lines_text ls)) (f @ g) = lines_text ls" using assms(2) by simp
  obtain ks r where ks: "full_lines [] (f @ g) = (ks, r)" by fastforce
  from full_lines_split [OF assms(1) longer ks] ks show ?thesis by auto
qed

lemma lines_of_records: "no_LF rs \<Longrightarrow> \<exists>ks. fst (full_lines [] (lines_text rs @ t)) = rs @ ks"
  by (rule lines_of_longer) simp_all

lemma lines_of_records_exact: "no_LF rs \<Longrightarrow> fst (full_lines [] (lines_text rs)) = rs"
  using full_lines_lines_text [of rs "[]"] by (simp add: no_LF_def)

definition written_fields :: "string \<Rightarrow> checkpointer \<Rightarrow> checkpointer \<Rightarrow> ck_env \<Rightarrow> checkpointFields" where
  "written_fields kind ck ck' env = \<lparr>cf_Kind = kind, cf_Stream = ck_stream ck, cf_Count = int (ck_count ck'), cf_Head = ck_head ck',
     cf_Prefix = sha_ref (ck_sum ck'), cf_At = format_at (ce_at env), cf_Prev = ck_prev ck\<rparr>"

definition accepted :: "CheckpointResult \<Rightarrow> signer \<Rightarrow> bytes \<Rightarrow> (string \<Rightarrow> ec_key option) \<Rightarrow> bool" where
  "accepted x s input keys =
     (case sg_Sign s input of
        KeyExpired \<Rightarrow> cx_Status x = CheckpointUnsigned
      | SignError \<Rightarrow> False
      | Signed raw \<Rightarrow>
          (case keys (sg_KeyID s) of
             None \<Rightarrow> cx_Refusal x = Some (RUnknownKey (sg_KeyID s))
           | Some pub \<Rightarrow>
               if ecdsa_Verify pub (sha256 input) (be_int (take 32 raw)) (be_int (drop 32 raw)) then cx_Status x = CheckpointValid
               else cx_Refusal x = Some RSignature))"

lemma record_accepted:
  assumes "jcs_laws jcs" "fields_ok fs" "valid_utf8 (sg_KeyID s)" "encodeCheckpoint jcs fs s = Inr (i, r)"
    and "cf_Kind fs \<in> {''checkpoint'', ''close'', ''resume''}" "cf_Count fs = int n" "1 \<le> n" "n \<le> length ls"
    and "head_opt jcs (ls ! (n - 1)) = Some (cf_Head fs)" "cf_Prefix fs = sha_ref (lines_text (take n ls))" "checkpointAtRE (cf_At fs)"
    and "VerifyCheckpoints jcs (ps, None) (qs, None) (cf_Stream fs) keys = Inr rep"
    and "ls = fst (full_lines [] (concat ps))" "rs = fst (full_lines [] (concat qs))" "j < length rs" "rs ! j = r"
    and "length r \<le> checkpointRecordCap" "expect_prev (prev_raw [] (map (record_line checkpointRecordCap) rs) j) = cf_Prev fs"
  shows "j < length (cp_Records rep) \<and> cx_Count (cp_Records rep ! j) = int n \<and>
    (\<exists>input. jcs (marshal_body (base_body fs (sg_KeyID s))) = Some input \<and> accepted (cp_Records rep ! j) s input keys)"
proof -
  obtain recs k where v: "recs = map (record_line checkpointRecordCap) rs" "kept_ok jcs ls (needed_counts recs) k"
    "cp_Records rep = check_records jcs k (cf_Stream fs) keys 1 [] recs"
    using VerifyCheckpoints_kept [OF assms(12)] assms(13,14) by metis
  obtain l P H where k: "k = (l, P, H)" by (cases k)
  have l: "l = length ls" using v(2) k by (simp add: kept_ok_def)
  have j: "j < length recs" using assms(15) v(1) by simp
  have rj: "recs ! j = \<lparr>rl_raw = r, rl_long = False\<rparr>" using v(1) assms(15-17) by (simp add: record_line_def)
  define x where "x = cp_Records rep ! j"
  have x: "x = (let v = checkRecord jcs \<lparr>rl_raw = r, rl_long = False\<rparr> (length ls) H P (cf_Prev fs) (cf_Stream fs) keys; pk = peekKindCount r
      in \<lparr>cx_Index = 1 + j, cx_Kind = fst pk, cx_Count = snd pk, cx_Status = status_of v, cx_Refusal = fst v, cx_Truncated = fst (snd v)\<rparr>)"
    using check_records_nth [OF j, of jcs l P H "cf_Stream fs" keys 1 "[]"] v(1,3) k l rj assms(18) by (simp add: x_def)
  have count: "cx_Count x = int n" if "json_struct member_names set_member r no_members = Some w" "w_Count w = Some (int n)" for w
    using peekKindCount_members [OF that(1)] that(2) x by (simp add: peeks_def Let_def)
  have check: "check_members w (length ls) H P (cf_Prev fs) (cf_Stream fs) = None"
    if w: "json_struct member_names set_member r no_members = Some w" "record_shape w = Some b"
      "w_V w = Some 1" "w_Kind w = Some (cf_Kind fs)" "w_Stream w = Some (cf_Stream fs)" "w_Count w = Some (int n)"
      "w_Head w = Some (cf_Head fs)" "w_Prefix w = Some (cf_Prefix fs)" "w_At w = Some (cf_At fs)" "w_Prev w = Some (cf_Prev fs)" for w b
  proof -
    have "snd (peekKindCount r) = int n" using peekKindCount_members [OF w(1)] w(6) by (simp add: peeks_def)
    then have "int n \<in> set (needed_counts recs)"
      unfolding needed_counts_def set_filter set_map using nth_mem [OF j] rj assms(7) by force
    then have PH: "P (int n) = Some (sha256 (lines_text (take (nat (int n)) ls))) \<and> H (int n) = head_opt jcs (ls ! (nat (int n) - 1))"
      using v(2) assms(7,8) unfolding k kept_ok_def by simp
    have hd: "wellFormedLine (ls ! (n - 1))" "ChainHashRaw jcs (TrimSpace (ls ! (n - 1))) = Inr (cf_Head fs)"
      using assms(9) by (auto simp: head_opt_def split: if_splits sum.splits)
    show ?thesis
      unfolding check_members_iff [where jcs = jcs and H = H and P = P and ls = ls, OF w(2,6) PH]
      using assms(5,7,8,10,11) hd w by simp
  qed
  have acc: "cx_Count x = int n \<and> (\<exists>input. jcs (marshal_body (base_body fs (sg_KeyID s))) = Some input \<and> accepted x s input keys)"
  proof (rule encode_decodes [OF assms(1-4)], goal_cases)
    case (1 m input)
    define w where "w = (common_members fs)\<lparr>w_Unsigned := Some checkpointKeyExpired\<rparr>"
    have sh: "record_shape w = Some False" by (simp add: record_shape_def w_def common_members_def no_members_def)
    have js: "json_struct member_names set_member r no_members = Some w" using 1(6) by (simp add: w_def)
    have "check_members w (length ls) H P (cf_Prev fs) (cf_Stream fs) = None"
      by (rule check [OF js sh]) (simp_all add: w_def common_members_def assms(6))
    from verdict_of_written [where ls = ls and jcs = jcs, OF 1(4,5) js sh this]
    have "cx_Status x = CheckpointUnsigned" by (simp add: x Let_def status_of_def w_def)
    moreover have "cx_Count x = int n" by (rule count [OF js]) (simp add: w_def common_members_def assms(6))
    ultimately show ?case using 1(2,3) by (simp add: accepted_def)
  next
    case (2 m input raw)
    define w where "w = (common_members fs)\<lparr>w_Alg := Some checkpointAlg, w_Kid := Some (sg_KeyID s), w_Sig := Some (b64 raw)\<rparr>"
    have sh: "record_shape w = Some True" by (simp add: record_shape_def w_def common_members_def no_members_def)
    have js: "json_struct member_names set_member r no_members = Some w" using 2(8) by (simp add: w_def)
    have "check_members w (length ls) H P (cf_Prev fs) (cf_Stream fs) = None"
      by (rule check [OF js sh]) (simp_all add: w_def common_members_def assms(6))
    note vd = verdict_of_written [where ls = ls and jcs = jcs, OF 2(5,6) js sh this]
    have sg: "check_signature jcs m w keys =
        (case keys (sg_KeyID s) of None \<Rightarrow> Some (RUnknownKey (sg_KeyID s))
         | Some pub \<Rightarrow> if ecdsa_Verify pub (sha256 input) (be_int (take 32 raw)) (be_int (drop 32 raw)) then None else Some RSignature)"
      using 2(4,7) by (simp add: check_signature_def w_def split: option.split)
    have "cx_Count x = int n" by (rule count [OF js]) (simp add: w_def common_members_def assms(6))
    moreover have "accepted x s input keys"
      using 2(3) by (auto simp: accepted_def x vd Let_def status_of_def sg split: option.splits)
    ultimately show ?case using 2(2) by blast
  qed
  then show ?thesis using j v(3) by (simp add: x_def)
qed

section \<open>A record as it is written\<close>

lemma jcs_no_LF: "jcs_laws jcs \<Longrightarrow> no_LF_jcs jcs"
  using jcs_laws_idem by (auto simp: no_LF_jcs_def)

definition writes_record :: "(bytes \<Rightarrow> bytes option) \<Rightarrow> string \<Rightarrow> ck_env \<Rightarrow> checkpointer \<Rightarrow> bytes \<Rightarrow> bytes \<Rightarrow>
    checkpointer \<times> bytes \<Rightarrow> bool" where
  "writes_record jcs kind env ck side f res \<longleftrightarrow> side \<noteq> snd res \<and>
     (kind = checkpointKindCheckpoint \<and> afterAppend jcs env ck side f = (fst res, snd res, None) \<or>
      kind = checkpointKindClose \<and> closeLocked jcs env ck side f = (fst res, snd res, None))"

lemma writes_recordE:
  assumes "writes_record jcs kind env ck side f (ck', side')"
  obtains n ck1 where "advance jcs env ck f = (ck1, Inr n)" "ck_head ck1 \<noteq> []" "kind \<in> {''checkpoint'', ''close'', ''resume''}"
    "\<exists>p. writeRecord jcs env (ck1\<lparr>ck_pending := p\<rparr>) side kind (ck_count ck1) (ck_head ck1) (sha256 (ck_sum ck1)) = (ck', side', None)"
proof -
  obtain ck1 r where a: "advance jcs env ck f = (ck1, r)" by (cases "advance jcs env ck f")
  obtain n where r: "r = Inr n" using assms a
    by (cases r) (auto simp: writes_record_def afterAppend_def closeLocked_def)
  have self: "ck1 = ck1\<lparr>ck_pending := ck_pending ck1\<rparr>" by simp
  show thesis
  proof (cases "kind = checkpointKindCheckpoint")
    case True
    with assms a r that [of ck1 n] show thesis
      by (auto simp: writes_record_def afterAppend_def closeLocked_def Let_def checkpointKindCheckpoint_def checkpointKindClose_def split: if_splits)
  next
    case False
    then have k: "kind = checkpointKindClose" "closeLocked jcs env ck side f = (ck', side', None)" "side \<noteq> side'"
      using assms by (auto simp: writes_record_def)
    then have h: "ck_head ck1 \<noteq> []"
      and w: "writeRecord jcs env ck1 side kind (ck_count ck1) (ck_head ck1) (sha256 (ck_sum ck1)) = (ck', side', None)"
      using a r by (auto simp: closeLocked_def split: if_splits)
    from w have "\<exists>p. writeRecord jcs env (ck1\<lparr>ck_pending := p\<rparr>) side kind (ck_count ck1) (ck_head ck1) (sha256 (ck_sum ck1)) = (ck', side', None)"
      using self by metis
    with a r h k(1) that show thesis by (simp add: checkpointKindClose_def)
  qed
qed

lemma written_record:
  assumes "jcs_laws jcs" "ck_life jcs (ck, f, side)" "writes_record jcs kind env ck side f (ck', side')"
  obtains rs r i where "side = lines_text rs" "no_LF (rs @ [r])" "side' = lines_text (rs @ [r])"
    "ck_prev ck = expect_prev (last_or_nil rs)" "kind \<in> {''checkpoint'', ''close'', ''resume''}"
    "encodeCheckpoint jcs (written_fields kind ck ck' env) (ce_signer env) = Inr (i, r)"
    "ck_count ck' = length (fst (full_lines [] f))" "ck_sum ck' = lines_text (fst (full_lines [] f))"
    "ck_head ck' = last_head jcs (fst (full_lines [] f))" "ck_head ck' \<noteq> []"
proof -
  obtain n ck1 p where a: "advance jcs env ck f = (ck1, Inr n)" "ck_head ck1 \<noteq> []" "kind \<in> {''checkpoint'', ''close'', ''resume''}"
    and w: "writeRecord jcs env (ck1\<lparr>ck_pending := p\<rparr>) side kind (ck_count ck1) (ck_head ck1) (sha256 (ck_sum ck1)) = (ck', side', None)"
    using writes_recordE [OF assms(3)] by metis
  obtain ks rs where inv: "ck_inv jcs (ck, f, side) ks rs" using ck_life_inv [OF assms(2) jcs_no_LF [OF assms(1)]] by blast
  have ks: "follows_stream jcs ck ks" "no_LF ks" "take (length (lines_text ks)) f = lines_text ks" "keeps_sidecar ck side rs"
    using inv by (simp_all add: ck_inv_def)
  from advance_follows [OF ks(1,2) disjI2 [OF ks(3)] a(1)]
  have f1: "follows_stream jcs ck1 (fst (full_lines [] f))" "ck_prev ck1 = ck_prev ck" "ck_size ck1 = ck_size ck" "ck_stream ck1 = ck_stream ck"
    by simp_all
  have k1: "keeps_sidecar (ck1\<lparr>ck_pending := p\<rparr>) side rs" using ks(4) f1 by (simp add: keeps_sidecar_def)
  from writeRecord_sidecar [OF k1 jcs_no_LF [OF assms(1)] _ w]
  obtain r i where r: "keeps_sidecar ck' side' (rs @ [r])"
    "encodeCheckpoint jcs \<lparr>cf_Kind = kind, cf_Stream = ck_stream ck1, cf_Count = int (ck_count ck1), cf_Head = ck_head ck1,
        cf_Prefix = ''sha256:'' @ hex_EncodeToString (sha256 (ck_sum ck1)), cf_At = format_at (ce_at env), cf_Prev = ck_prev ck1\<rparr>
        (ce_signer env) = Inr (i, r)"
    "ck' = ck1\<lparr>ck_pending := p, ck_size := ck_size ck1 + length r + 1, ck_prev := sha_ref r, ck_lastAt := ce_done env, ck_pending := 0\<rparr>"
    by auto
  have enc: "encodeCheckpoint jcs (written_fields kind ck ck' env) (ce_signer env) = Inr (i, r)"
    using r(2,3) f1 by (simp add: written_fields_def sha_ref_def)
  have sd: "side = lines_text rs" "ck_prev ck = expect_prev (last_or_nil rs)" using ks(4) by (simp_all add: keeps_sidecar_def)
  have sd': "no_LF (rs @ [r])" "side' = lines_text (rs @ [r])" using r(1) by (simp_all only: keeps_sidecar_def)
  have c: "ck_count ck' = ck_count ck1" "ck_sum ck' = ck_sum ck1" "ck_head ck' = ck_head ck1" using r(3) by simp_all
  have l: "ck_count ck1 = length (fst (full_lines [] f))" "ck_sum ck1 = lines_text (fst (full_lines [] f))"
    "ck_head ck1 = last_head jcs (fst (full_lines [] f))"
    using f1(1) by (simp_all only: follows_stream_def)
  show thesis
    by (rule that [OF sd(1) sd' sd(2) a(3) enc]) (use c l a(2) in simp_all)
qed

lemma VerifyCheckpoints_index:
  assumes "VerifyCheckpoints jcs (ps, None) (qs, None) name keys = Inr rep" "j < length (cp_Records rep)"
  shows "cx_Index (cp_Records rep ! j) = j + 1"
proof -
  obtain recs w where w: "cp_Records rep = check_records jcs w name keys 1 [] recs"
    using VerifyCheckpoints_kept [OF assms(1)] by metis
  then show ?thesis using assms(2) by (cases w) (simp add: check_records_nth Let_def)
qed

text \<open>
  C15. What the checkpointer writes is what the verifier accepts. Take any state of a checkpointer's
  life and the record an append or the close then writes. Verified against the stream it was
  written for, however much is appended to the stream and the sidecar later, the record stands
  next in the sidecar, counts the stream's lines, and passes every check of its members, its chain
  and its stream; only the key can speak against it: the verdict is unsigned when the signer's key
  had expired, refused when the key is unknown or the signature is not the signer's, valid otherwise.
\<close>

theorem written_checkpoint_verifies:
  assumes "jcs_laws jcs" "ck_life jcs (ck, f, side)" "writes_record jcs kind env ck side f (ck', side')"
    and "valid_utf8 (ck_stream ck)" "valid_utf8 (sg_KeyID (ce_signer env))" "num_ok (int (ck_count ck'))"
    and "0 \<le> fst (civil (ce_at env div Second div 86400))" "fst (civil (ce_at env div Second div 86400)) \<le> 9999"
    and "\<forall>r \<in> set (fst (full_lines [] side')). length r \<le> checkpointRecordCap"
    and "VerifyCheckpoints jcs (ps, None) (qs, None) (ck_stream ck) keys = Inr rep" "concat ps = f @ g" "concat qs = side' @ t"
  shows "\<exists>x input. x = cp_Records rep ! length (fst (full_lines [] side)) \<and>
    cx_Index x = length (fst (full_lines [] side)) + 1 \<and> cx_Count x = int (length (fst (full_lines [] f))) \<and>
    jcs (marshal_body (base_body (written_fields kind ck ck' env) (sg_KeyID (ce_signer env)))) = Some input \<and>
    accepted x (ce_signer env) input keys"
proof -
  obtain rs r i where w: "side = lines_text rs" "no_LF (rs @ [r])" "side' = lines_text (rs @ [r])"
    "ck_prev ck = expect_prev (last_or_nil rs)" "kind \<in> {''checkpoint'', ''close'', ''resume''}"
    and enc: "encodeCheckpoint jcs (written_fields kind ck ck' env) (ce_signer env) = Inr (i, r)"
    and ck': "ck_count ck' = length (fst (full_lines [] f))" "ck_sum ck' = lines_text (fst (full_lines [] f))"
      "ck_head ck' = last_head jcs (fst (full_lines [] f))" "ck_head ck' \<noteq> []"
    using written_record [OF assms(1-3)] by metis
  define fs where "fs = written_fields kind ck ck' env"
  define ls where "ls = fst (full_lines [] f)"
  define n where "n = length ls"
  have ls: "ls \<noteq> []" "line_head jcs (last ls) = ck_head ck'" using ck'(3,4) by (auto simp: ls_def last_head_def split: if_splits)
  have hd: "head_opt jcs (last ls) = Some (ck_head ck') \<and> ascii (ck_head ck')"
    using line_head_opt [of jcs "last ls"] ls(2) ck'(4) by simp
  have n: "1 \<le> n" using ls(1) by (cases ls) (simp_all add: n_def)
  obtain ks where ks: "fst (full_lines [] (concat ps)) = ls @ ks"
    using lines_of_longer [OF stream_lines [of f]] assms(11) by (auto simp: ls_def)
  obtain rs' where rs': "fst (full_lines [] (concat qs)) = (rs @ [r]) @ rs'"
    using lines_of_records [OF w(2), of t] assms(12) w(3) by auto
  have side: "fst (full_lines [] side) = rs" "fst (full_lines [] side') = rs @ [r]"
    using lines_of_records_exact [of rs] lines_of_records_exact [OF w(2)] w(1-3) by (auto simp: no_LF_def)
  have cap: "length r \<le> checkpointRecordCap" "\<forall>q \<in> set rs. length q \<le> checkpointRecordCap"
    using assms(9) side(2) by simp_all
  have at: "checkpointAtRE (cf_At fs)" using format_at_RE [OF assms(7,8)] by (simp add: fs_def written_fields_def)
  have kd: "valid_utf8 kind" using w(5) by (auto intro!: ascii_valid simp: ascii_def)
  have fs: "fields_ok fs"
    using kd assms(4,6) w(4,5) hd at_ascii [OF at] hex_ref_ascii [of "sha256 (ck_sum ck')"] expect_prev_ascii [of "last_or_nil rs"]
    by (auto simp: fields_ok_def fs_def written_fields_def sha_ref_def ascii_valid)
  have pv: "expect_prev (prev_raw [] (map (record_line checkpointRecordCap) ((rs @ [r]) @ rs')) (length rs)) = cf_Prev fs"
  proof (cases rs rule: rev_cases)
    case (snoc qs0 q)
    then show ?thesis using cap(2) w(4)
      by (simp add: prev_raw_def record_line_def nth_append fs_def written_fields_def last_or_nil_def)
  qed (use w(4) in \<open>simp add: prev_raw_def fs_def written_fields_def last_or_nil_def\<close>)
  have "length rs < length (cp_Records rep) \<and> cx_Count (cp_Records rep ! length rs) = int n \<and>
    (\<exists>input. jcs (marshal_body (base_body fs (sg_KeyID (ce_signer env)))) = Some input \<and>
       accepted (cp_Records rep ! length rs) (ce_signer env) input keys)"
  proof (rule record_accepted [where ls = "ls @ ks" and rs = "(rs @ [r]) @ rs'" and ps = ps and qs = qs, OF assms(1) fs assms(5) enc [folded fs_def] _ _ n])
    show "head_opt jcs ((ls @ ks) ! (n - 1)) = Some (cf_Head fs)"
      using hd n ls(1) by (simp add: n_def nth_append last_conv_nth fs_def written_fields_def)
    show "cf_Prefix fs = sha_ref (lines_text (take n (ls @ ks)))"
      using ck'(2) by (simp add: fs_def written_fields_def n_def ls_def)
    show "VerifyCheckpoints jcs (ps, None) (qs, None) (cf_Stream fs) keys = Inr rep"
      using assms(10) by (simp add: fs_def written_fields_def)
  qed (use w(5) ck'(1) ks rs' cap at pv in \<open>simp_all add: fs_def written_fields_def n_def ls_def\<close>)
  then show ?thesis using side(1) fs_def n_def ls_def VerifyCheckpoints_index [OF assms(10)] by auto
qed

section \<open>A checkpointer's first record\<close>

text \<open>The values of a record are short, and so is what \<open>value_jcs\<close> prints of them.\<close>

definition short_value :: "string \<times> gval \<Rightarrow> bool" where
  "short_value kv = (length (fst kv) \<le> 80 \<and> (case snd kv of GStr s \<Rightarrow> length s \<le> 80 | GNum t \<Rightarrow> length t \<le> 80 | _ \<Rightarrow> True))"

lemma short_print:
  "list_all short_value kvs \<Longrightarrow> length (concat (map spell (toks_obj b (map (\<lambda>(k, v). (enc_str k, enc_plain_value v)) kvs)))) \<le> 1 + 1000 * length kvs"
proof (induction kvs arbitrary: b)
  case (Cons kv kvs)
  obtain k v where kv: "kv = (k, v)" by (cases kv)
  have short: "short_value (k, v)" using Cons.prems kv by simp
  have "length (enc_str k) \<le> 480" using length_enc_str [of k] short by (simp add: short_value_def)
  moreover have "length (concat (map spell (toks (enc_plain_value v)))) \<le> 482"
  proof (cases v)
    case (GStr s)
    then show ?thesis using length_enc_str [of s] short by (simp add: short_value_def enc_plain_value_def)
  qed (use short in \<open>simp_all add: short_value_def enc_plain_value_def\<close>)
  moreover have "length (concat (map spell (toks_obj False (map (\<lambda>(k, v). (enc_str k, enc_plain_value v)) kvs)))) \<le> 1 + 1000 * length kvs"
    using Cons by simp
  ultimately show ?case by (simp add: kv)
qed simp

lemma length_m_put: "length (m_put m k v) \<le> Suc (length m)"
  by (induction m k v rule: m_put.induct) auto

lemma length_m_delete: "length (m_delete m k) \<le> length m"
  by (simp add: m_delete_def)

lemma length_m_collect: "length (m_collect m kvs) \<le> length m + length kvs"
proof (induction kvs arbitrary: m)
  case (Cons kv kvs)
  obtain k v where kv: "kv = (k, v)" by (cases kv)
  have "length (m_collect (m_put m k v) kvs) \<le> length (m_put m k v) + length kvs" by (rule Cons.IH)
  with length_m_put [of m k v] show ?case by (simp add: kv)
qed simp

lemma value_jcs_prints:
  assumes "wf_map M" "list_all member_ok M" "value_jcs (marshal_body M) = Some d"
    and "list_all (\<lambda>(k, c). short_value (k, plain_value c)) M"
  shows "length d \<le> 2 + 1000 * length M"
proof -
  have fl: "(k, c) \<in> set M \<Longrightarrow> flat_value c \<and> valid_utf8 k" for k c
    using assms(2) member_ok_flat by (auto simp: list_all_iff)
  define ms where "ms = map (\<lambda>(k, c). (enc_str k, c)) M"
  define v where "v = map (\<lambda>(k, c). (k, plain_value c)) M"
  have q: "flat_obj ms" "obj_value ms = v" using quoted_flat [OF assms(1), of "\<lambda>c. c", OF fl] by (simp_all add: ms_def v_def)
  obtain ms' w m where w: "parse_json (print_json (CObj ms)) = Some (CObj ms')" "dec_members [] ms' = Some w" "enc_members w = Some m"
    "d = print_json (CObj m)"
    using value_jcsE [OF assms(3)] by (metis marshal_body_def ms_def)
  then have "w = v" using flat_obj_parse [OF q(1)] flat_obj_dec [OF q(1)] q(2) by simp
  moreover have "enc_members v = Some (map (\<lambda>(k, v). (enc_str k, enc_plain_value v)) v)"
  proof (rule enc_members_flat, unfold v_def list_all_iff, clarsimp)
    fix k c assume "(k, c) \<in> set M"
    with fl show "case plain_value c of GNum _ \<Rightarrow> True | GStr _ \<Rightarrow> True | _ \<Rightarrow> False" by (cases c) fastforce+
  qed
  ultimately have d: "d = print_json (CObj (map (\<lambda>(k, v). (enc_str k, enc_plain_value v)) v))" using w(3,4) by simp
  have "list_all short_value v" using assms(4) by (auto simp: v_def list_all_iff)
  from short_print [OF this, of True] show ?thesis by (simp add: d print_json_def v_def)
qed

lemma value_jcs_some: "wf_map M \<Longrightarrow> list_all member_ok M \<Longrightarrow> \<exists>d. value_jcs (marshal_body M) = Some d"
proof -
  assume M: "wf_map M" "list_all member_ok M"
  have fl: "(k, c) \<in> set M \<Longrightarrow> flat_value c \<and> valid_utf8 k" for k c
    using M(2) member_ok_flat by (auto simp: list_all_iff)
  show ?thesis
    using value_jcs_flat [OF quoted_flat [OF M(1), of "\<lambda>c. c", OF fl, THEN conjunct1]] by (auto simp: marshal_body_def)
qed

text \<open>A stream of one event line.\<close>

definition one_line :: bytes where "one_line = line_at ''t''"
definition one_head :: string where "one_head = (case ChainHashRaw value_jcs (TrimSpace one_line) of Inr h \<Rightarrow> h | Inl _ \<Rightarrow> [])"
definition first_record :: "checkpointer \<times> bytes \<times> ck_error option" where
  "first_record = afterAppend value_jcs steady_env sample_ck [] (one_line @ [LF])"

lemma one_line_hash: "ChainHashRaw value_jcs (TrimSpace one_line) = Inr one_head" "wellFormedLine one_line"
proof -
  have "isl (CanonicalizeRaw value_jcs (TrimSpace (line_at ''t''))) = False" by code_simp
  then show "ChainHashRaw value_jcs (TrimSpace one_line) = Inr one_head"
    by (cases "CanonicalizeRaw value_jcs (TrimSpace (line_at ''t''))") (auto simp: one_head_def ChainHashRaw_def one_line_def)
  show "wellFormedLine one_line"
    using line_at_event(1) line_at_shape(3) by (auto simp: wellFormedLine_def resumeWindow_def one_line_def)
qed

lemma one_line_lines: "full_lines [] (one_line @ [LF]) = ([one_line], [])" "length one_line < 100"
  using full_lines_lines_text [of "[one_line]" "[]"] line_at_shape by (simp_all add: lines_text_def one_line_def)

lemma one_head_form: "length one_head = 71" "one_head \<noteq> []" "ascii one_head"
proof -
  have "checkpointHashRE one_head" using ChainHashRaw_form [OF one_line_hash(1)] .
  then show l: "length one_head = 71" by (simp add: checkpointHashRE_def)
  then show "one_head \<noteq> []" by auto
  then show "ascii one_head" using line_head_opt [of value_jcs one_line] one_line_hash by (simp add: line_head_def)
qed

text \<open>The first read, whatever the hash had absorbed before it.\<close>

lemma advance_line:
  "advance value_jcs steady_env (sample_ck\<lparr>ck_sum := x\<rparr>) (one_line @ [LF]) =
     (sample_ck\<lparr>ck_sum := x @ one_line @ [LF], ck_last := Some (x @ one_line @ [LF]), ck_off := length one_line + 1, ck_count := 1,
        ck_head := one_head\<rparr>, Inr 1)"
proof -
  define s where "s = newLineScanner x 0 None 0 resumeWindow True"
  have short: "\<not> length one_line > resumeWindow" using one_line_lines(2) by (simp add: resumeWindow_def)
  have s: "at_line s" "ls_maxLen s = resumeWindow" "ls_keep s" by (simp_all add: s_def newLineScanner_def at_line_def)
  have "ls_run (advance_emit value_jcs) s [one_line @ [LF]] None (0, []) =
      (s\<lparr>ls_sum := x @ one_line @ [LF], ls_pos := length one_line + 1, ls_off := length one_line + 1, ls_lines := 1,
         ls_last := Some (x @ one_line @ [LF])\<rparr>, (1, one_head), None)"
    using short one_line_hash
    by (simp add: ls_run_feed ls_feed_lines [OF s(1) one_line_lines(1)] s(2,3) Let_def advance_emit_def ls_catch_def)
      (simp add: s_def newLineScanner_def)
  moreover have "read_chunks (one_line @ [LF]) = [one_line @ [LF]]" using one_line_lines(2) by (intro read_chunks_short) simp_all
  ultimately show ?thesis
    by (simp add: advance_def steady_env_def sample_ck_def fresh_checkpointer_def restart_shrunk_def read_section_def
        s_def [symmetric] Let_def)
       (simp add: ls_settle_def s_def newLineScanner_def)
qed

lemma advance_first:
  "advance value_jcs steady_env sample_ck (one_line @ [LF]) =
     (sample_ck\<lparr>ck_sum := one_line @ [LF], ck_last := Some (one_line @ [LF]), ck_off := length one_line + 1, ck_count := 1,
        ck_head := one_head\<rparr>, Inr 1)"
  using advance_line [of "[]"] by (simp add: sample_ck_def fresh_checkpointer_def)

lemma mute_record:
  assumes "fields_ok fs"
  obtains r where "value_jcs (marshal_body (unsigned_body fs ''k'')) = Some r" "encodeCheckpoint value_jcs fs mute_signer = Inr (None, r)"
proof -
  have kid: "valid_utf8 ''k''" by (simp add: ascii_valid ascii_def)
  obtain input r where r: "value_jcs (marshal_body (base_body fs ''k'')) = Some input" "value_jcs (marshal_body (unsigned_body fs ''k'')) = Some r"
    using value_jcs_some bodies_ok [OF assms kid] by metis
  have "encodeCheckpoint value_jcs fs mute_signer = Inr (None, r)" using r by (simp add: encode_unfold mute_signer_def)
  with that r(2) show thesis by blast
qed

text \<open>The fields of a record about that one line.\<close>

definition one_record :: "string \<Rightarrow> bytes \<Rightarrow> checkpointFields" where
  "one_record kind S = \<lparr>cf_Kind = kind, cf_Stream = ''s'', cf_Count = 1, cf_Head = one_head,
     cf_Prefix = sha_ref S, cf_At = format_at 0, cf_Prev = checkpointGenesis\<rparr>"

lemma epoch_at: "format_at 0 = ''1970-01-01T00:00:00.000Z''" by code_simp

lemma one_record_ok: "ascii kind \<Longrightarrow> fields_ok (one_record kind S)"
proof -
  assume k: "ascii kind"
  have "ascii checkpointGenesis" "ascii (format_at 0)" "ascii ''s''"
    using expect_prev_ascii [of "[]"] by (simp_all add: expect_prev_def epoch_at ascii_def)
  then show ?thesis
    using k one_head_form(3) hex_ref_ascii num_ok_1
    by (simp add: fields_ok_def one_record_def sha_ref_def ascii_valid)
qed

lemma first_record_written:
  "writes_record value_jcs ''checkpoint'' steady_env sample_ck [] (one_line @ [LF]) (fst first_record, fst (snd first_record))"
  "ck_count (fst first_record) = 1"
  "\<exists>r. fst (snd first_record) = r @ [LF] \<and> LF \<notin> set r \<and> length r \<le> checkpointRecordCap"
proof -
  define ck1 where "ck1 = sample_ck\<lparr>ck_sum := one_line @ [LF], ck_last := Some (one_line @ [LF]), ck_off := length one_line + 1, ck_count := 1,
        ck_head := one_head, ck_pending := 1\<rparr>"
  define fs where "fs = one_record ''checkpoint'' (one_line @ [LF])"
  have ok: "fields_ok fs" unfolding fs_def by (rule one_record_ok) (simp add: ascii_def)
  have kid: "valid_utf8 ''k''" by (simp add: ascii_valid ascii_def)
  note b = bodies_ok [OF ok kid]
  obtain r where r: "value_jcs (marshal_body (unsigned_body fs ''k'')) = Some r" "encodeCheckpoint value_jcs fs mute_signer = Inr (None, r)"
    by (rule mute_record [OF ok])
  have after: "first_record = writeRecord value_jcs steady_env ck1 [] checkpointKindCheckpoint 1 one_head (sha256 (one_line @ [LF]))"
    unfolding first_record_def afterAppend_def advance_first
    using one_head_form(2) by (simp add: ck1_def sample_ck_def fresh_checkpointer_def sample_cfg_def Let_def)
  have w: "first_record = (ck1\<lparr>ck_size := length (r @ [LF]), ck_prev := sha_ref r, ck_lastAt := 0, ck_pending := 0\<rparr>, r @ [LF], None)"
    using r(2) unfolding after
    by (simp add: writeRecord_def steady_env_def ck1_def sample_ck_def fresh_checkpointer_def fs_def one_record_def sha_ref_def
        checkpointKindCheckpoint_def Let_def)
  show "writes_record value_jcs ''checkpoint'' steady_env sample_ck [] (one_line @ [LF]) (fst first_record, fst (snd first_record))"
    using w by (auto simp: writes_record_def checkpointKindCheckpoint_def first_record_def)
  show "ck_count (fst first_record) = 1" by (simp add: w ck1_def)
  have vals: "plain_value (jstr s) = GStr s" if "valid_utf8 s" for s using that by (simp add: jstr_def dec_enc_valid)
  have nums: "plain_value (jint 1) = GNum ''1''"
  proof -
    have "int_text 1 = ''1''" by code_simp
    then show ?thesis by (simp add: jint_def float_one)
  qed
  have genesis: "length checkpointGenesis = 71" by (simp add: checkpointGenesis_def)
  have "list_all (\<lambda>(k, c). short_value (k, plain_value c)) (field_members fs)"
    using ok one_head_form(1) genesis
    by (simp add: field_members_def vals fields_ok_def nums checkpointVersion_def) (simp add: short_value_def fs_def one_record_def sha_ref_def epoch_at nums)
  then have "list_all (\<lambda>(k, c). short_value (k, plain_value c)) (unsigned_body fs ''k'')"
    unfolding unsigned_body_def base_body_def body_collect
    by (intro list_all_m_put list_all_m_delete list_all_m_collect)
      (simp_all add: vals kid valid_ascii_lits checkpointAlg_def checkpointKeyExpired_def short_value_def)
  moreover have "length (unsigned_body fs ''k'') \<le> 20"
  proof -
    have "length (body fs) \<le> 8" unfolding body_collect using length_m_collect [of "[]" "field_members fs"] by (simp add: field_members_def)
    then have "length (base_body fs ''k'') \<le> 10"
      unfolding base_body_def
      using length_m_put [of "body fs" "''alg''" "jstr checkpointAlg"] length_m_put [of "m_put (body fs) ''alg'' (jstr checkpointAlg)" "''kid''" "jstr ''k''"]
      by linarith
    then have "length (m_delete (m_delete (base_body fs ''k'') ''alg'') ''kid'') \<le> 10"
      using length_m_delete [of "base_body fs ''k''" "''alg''"] length_m_delete [of "m_delete (base_body fs ''k'') ''alg''" "''kid''"]
      by linarith
    then show ?thesis
      unfolding unsigned_body_def
      using length_m_put [of "m_delete (m_delete (base_body fs ''k'') ''alg'') ''kid''" "''unsigned_reason''" "jstr checkpointKeyExpired"]
      by linarith
  qed
  ultimately have "length r \<le> 2 + 1000 * 20" using value_jcs_prints [OF _ _ r(1)] b(2) by fastforce
  moreover have "LF \<notin> set r" using jcs_laws_idem [OF value_jcs_laws r(1)] by blast
  ultimately show "\<exists>r. fst (snd first_record) = r @ [LF] \<and> LF \<notin> set r \<and> length r \<le> checkpointRecordCap"
    by (auto simp: w checkpointRecordCap_def)
qed

theorem written_checkpoint_verifies_witness:
  "\<exists>rep. VerifyCheckpoints value_jcs ([one_line @ [LF]], None) ([fst (snd first_record)], None) ''s'' (\<lambda>_. None) = Inr rep \<and>
     cx_Count (cp_Records rep ! 0) = 1 \<and> cx_Status (cp_Records rep ! 0) = CheckpointUnsigned"
proof -
  obtain r where r: "fst (snd first_record) = r @ [LF]" "LF \<notin> set r" "length r \<le> checkpointRecordCap"
    using first_record_written(3) by blast
  have rl: "full_lines [] (r @ [LF]) = ([r], [])" using full_lines_lines_text [of "[r]" "[]"] r(2) by (simp add: lines_text_def)
  define recs where "recs = [\<lparr>rl_raw = r, rl_long = False\<rparr>]"
  have side: "readSidecar ([r @ [LF]], None) = Inr recs"
    using r(3) by (simp add: readSidecar_def ls_run_feed ls_feed_lines [OF at_line_new rl] side_emit_line recs_def Let_def)
  have short: "\<not> length one_line > resumeWindow" using one_line_lines(2) by (simp add: resumeWindow_def)
  have run: "snd (snd (ls_run (stream_emit value_jcs (needed_counts recs)) (newLineScanner [] 0 None 0 resumeWindow False) [one_line @ [LF]] None
      (0, Map.empty, Map.empty))) = None"
    using short one_line_hash
    by (simp add: ls_run_feed ls_feed_lines [OF at_line_new one_line_lines(1)] stream_emit_def Let_def)
  obtain rep where rep: "VerifyCheckpoints value_jcs ([one_line @ [LF]], None) ([r @ [LF]], None) ''s'' (\<lambda>_. None) = Inr rep"
    using run side by (auto simp: VerifyCheckpoints_def recs_def split: prod.splits option.splits)
  have life: "ck_life value_jcs (sample_ck, one_line @ [LF], [])"
    using ck_life.grown [OF sample_life, of value_jcs "one_line @ [LF]"] by simp
  have valid: "valid_utf8 (ck_stream sample_ck)" "valid_utf8 (sg_KeyID (ce_signer steady_env))"
    by (simp_all add: ascii_valid ascii_def sample_ck_def fresh_checkpointer_def steady_env_def mute_signer_def)
  have yr: "fst (civil (ce_at steady_env div Second div 86400)) = 1970" by code_simp
  have cap: "\<forall>q \<in> set (fst (full_lines [] (fst (snd first_record)))). length q \<le> checkpointRecordCap"
    using r rl by simp
  have expired: "accepted x mute_signer input keys = (cx_Status x = CheckpointUnsigned)" for x input and keys :: "string \<Rightarrow> ec_key option"
    by (simp add: accepted_def mute_signer_def)
  have "\<exists>x input. x = cp_Records rep ! length (fst (full_lines [] ([] :: bytes))) \<and>
    cx_Index x = length (fst (full_lines [] ([] :: bytes))) + 1 \<and> cx_Count x = int (length (fst (full_lines [] (one_line @ [LF])))) \<and>
    value_jcs (marshal_body (base_body (written_fields ''checkpoint'' sample_ck (fst first_record) steady_env) (sg_KeyID (ce_signer steady_env)))) =
       Some input \<and> accepted x (ce_signer steady_env) input (\<lambda>_. None)"
    by (rule written_checkpoint_verifies [OF value_jcs_laws life first_record_written(1) valid, where g = "[]" and t = "[]"
        and ps = "[one_line @ [LF]]" and qs = "[r @ [LF]]"])
      (use num_ok_1 yr cap rep r(1) first_record_written(2) in \<open>simp_all add: sample_ck_def fresh_checkpointer_def\<close>)
  with rep r(1) one_line_lines(1) show ?thesis by (auto simp: steady_env_def expired)
qed

end
