(* ===== verification/Checkpoint_Later.thy ===== *)
theory Checkpoint_Later
  imports Checkpoint_Accepted
begin

text \<open>
  What a checkpointer stands on and leaves behind from its opening on: the lines it has hashed and
  the records it has written, each naming its stream's lines and the record before it. And what one
  failed read of the stream does to every record after it.
\<close>

section \<open>From one state to a later one\<close>

text \<open>The steps of \<open>ck_life\<close>, from any state.\<close>

inductive ck_later :: "(bytes \<Rightarrow> bytes option) \<Rightarrow> ck_state \<Rightarrow> ck_state \<Rightarrow> bool" for jcs st0 where
  now: "ck_later jcs st0 st0"
| grown: "ck_later jcs st0 (ck, f, side) \<Longrightarrow> ck_later jcs st0 (ck, f @ g, side)"
| appended: "ck_later jcs st0 (ck, f, side) \<Longrightarrow> read_ok (advance jcs env ck f) \<Longrightarrow> cuts_torn env \<Longrightarrow>
     afterAppend jcs env ck side f = (ck', side', err) \<Longrightarrow> ck_later jcs st0 (ck', f, side')"
| closed: "ck_later jcs st0 (ck, f, side) \<Longrightarrow> read_ok (advance jcs env ck f) \<Longrightarrow> cuts_torn env \<Longrightarrow>
     closeLocked jcs env ck side f = (ck', side', err) \<Longrightarrow> ck_later jcs st0 (ck', f, side')"

lemma life_later:
  assumes "ck_later jcs st0 st" "ck_life jcs st0"
  shows "ck_life jcs st"
  using assms(1)
proof (induction rule: ck_later.induct)
  case now
  show ?case by (rule assms(2))
next
  case grown
  then show ?case using ck_life.grown by blast
next
  case appended
  then show ?case using ck_life.appended by blast
next
  case closed
  then show ?case using ck_life.closed by blast
qed

section \<open>The records it writes\<close>

text \<open>
  A record that speaks the truth about a stream that begins with \<open>ls\<close>: it counts \<open>n\<close> of its lines,
  hashes exactly these, names the chain hash of the last of them, and follows on \<open>prev\<close>.
\<close>

definition record_of :: "(bytes \<Rightarrow> bytes option) \<Rightarrow> string \<Rightarrow> bytes list \<Rightarrow> bytes \<Rightarrow> bytes \<Rightarrow> bool" where
  "record_of jcs name ls prev r \<longleftrightarrow>
     (\<exists>fs s i n. encodeCheckpoint jcs fs s = Inr (i, r) \<and> cf_Stream fs = name \<and> cf_Prev fs = expect_prev prev \<and>
        cf_Count fs = int n \<and> 1 \<le> n \<and> n \<le> length ls \<and> cf_Prefix fs = sha_ref (lines_text (take n ls)) \<and>
        wellFormedLine (ls ! (n - 1)) \<and> ChainHashRaw jcs (TrimSpace (ls ! (n - 1))) = Inr (cf_Head fs))"

fun records_chain :: "(bytes \<Rightarrow> bytes option) \<Rightarrow> string \<Rightarrow> bytes list \<Rightarrow> bytes \<Rightarrow> bytes list \<Rightarrow> bool" where
  "records_chain jcs name ls prev [] = True"
| "records_chain jcs name ls prev (r # rs) \<longleftrightarrow> record_of jcs name ls prev r \<and> records_chain jcs name ls r rs"

lemma record_of_longer: "record_of jcs name ls prev r \<Longrightarrow> record_of jcs name (ls @ ks) prev r"
  unfolding record_of_def by (elim exE conjE) (intro exI conjI, assumption+, auto simp: nth_append)

lemma chain_longer: "records_chain jcs name ls prev rs \<Longrightarrow> records_chain jcs name (ls @ ks) prev rs"
  by (induction rs arbitrary: prev) (simp_all add: record_of_longer)

lemma chain_snoc:
  "records_chain jcs name ls prev (rs @ [r]) \<longleftrightarrow>
     records_chain jcs name ls prev rs \<and> record_of jcs name ls (if rs = [] then prev else last rs) r"
  by (induction rs arbitrary: prev) auto

lemma head_of_event: "line_head jcs l \<noteq> [] \<Longrightarrow> wellFormedLine l \<and> ChainHashRaw jcs (TrimSpace l) = Inr (line_head jcs l)"
  by (auto simp: line_head_def split: if_splits sum.splits)

definition ck_kept :: "(bytes \<Rightarrow> bytes option) \<Rightarrow> string \<Rightarrow> bytes list \<Rightarrow> ck_state \<Rightarrow> bytes list \<Rightarrow> bytes list \<Rightarrow> bool" where
  "ck_kept jcs name olds st ls news \<longleftrightarrow>
     ck_inv jcs st ls (olds @ news) \<and> ck_stream (fst st) = name \<and> records_chain jcs name ls (last_or_nil olds) news"

lemma kept_write:
  assumes "ck_kept jcs name olds (ck, f, side) ls news" "no_LF_jcs jcs" "cuts_torn env \<or> err = None"
    and "writeRecord jcs env ck side kind n head (sha256 (lines_text (take n ls))) = (ck', side', err)"
    and "1 \<le> n" "n \<le> length ls" "wellFormedLine (ls ! (n - 1))" "ChainHashRaw jcs (TrimSpace (ls ! (n - 1))) = Inr head"
  shows "\<exists>news'. ck_kept jcs name olds (ck', f, side') ls news'"
proof -
  have inv: "ck_inv jcs (ck, f, side) ls (olds @ news)" "ck_stream ck = name" "records_chain jcs name ls (last_or_nil olds) news"
    using assms(1) by (simp_all add: ck_kept_def)
  have side: "keeps_sidecar ck side (olds @ news)" using inv(1) by (simp add: ck_inv_def)
  from writeRecord_sidecar [OF side assms(2,3,4)]
  consider "ck' = ck" "side' = side"
    | r i where "keeps_sidecar ck' side' ((olds @ news) @ [r])" "encodeCheckpoint jcs \<lparr>cf_Kind = kind, cf_Stream = ck_stream ck,
        cf_Count = int n, cf_Head = head, cf_Prefix = ''sha256:'' @ hex_EncodeToString (sha256 (lines_text (take n ls))),
        cf_At = format_at (ce_at env), cf_Prev = ck_prev ck\<rparr> (ce_signer env) = Inr (i, r)" by blast
  then show ?thesis
  proof cases
    case 1
    with assms(1) show ?thesis by blast
  next
    case 2
    have pv: "ck_prev ck = expect_prev (if news = [] then last_or_nil olds else last news)"
      using side by (simp add: keeps_sidecar_def last_or_nil_def)
    have "record_of jcs name ls (if news = [] then last_or_nil olds else last news) r"
      unfolding record_of_def
      by (intro exI conjI, rule 2(2)) (use assms(5-8) inv(2) pv in \<open>simp_all add: sha_ref_def\<close>)
    then have "records_chain jcs name ls (last_or_nil olds) (news @ [r])" using inv(3) by (simp add: chain_snoc)
    moreover have "ck_inv jcs (ck', f, side') ls (olds @ news @ [r])" "ck_stream ck' = name"
      using writeRecord_follows [OF assms(4)] inv(1,2) 2(1) by (simp_all add: ck_inv_def)
    ultimately show ?thesis unfolding ck_kept_def by auto
  qed
qed

lemma kept_write_head:
  assumes "ck_kept jcs name olds (ck, f, side) ls news" "no_LF_jcs jcs" "cuts_torn env" "ck_head ck \<noteq> []"
    and "writeRecord jcs env ck side kind (ck_count ck) (ck_head ck) (sha256 (ck_sum ck)) = (ck', side', err)"
  shows "\<exists>news'. ck_kept jcs name olds (ck', f, side') ls news'"
proof -
  have c: "ck_sum ck = lines_text ls" "ck_count ck = length ls" "ck_head ck = last_head jcs ls"
    using assms(1) by (auto simp: ck_kept_def ck_inv_def follows_stream_def)
  have ls: "ls \<noteq> []" using c(3) assms(4) by (auto simp: last_head_def)
  then have "line_head jcs (last ls) \<noteq> []" "1 \<le> length ls" using c(3) assms(4) by (simp_all add: last_head_def Suc_le_eq)
  with head_of_event [of jcs "last ls"] kept_write [OF assms(1,2) disjI1 [OF assms(3)], of kind "length ls" "ck_head ck" ck' side'] assms(5) c ls
  show ?thesis by (simp add: last_conv_nth last_head_def)
qed

lemma kept_advance:
  assumes "ck_kept jcs name olds (ck, f, side) ls news" "advance jcs env ck f = (ck', Inr n)"
  shows "ck_kept jcs name olds (ck', f, side) (fst (full_lines [] f)) news"
proof -
  have inv: "ck_inv jcs (ck, f, side) ls (olds @ news)" "ck_stream ck = name" "records_chain jcs name ls (last_or_nil olds) news"
    using assms(1) by (simp_all add: ck_kept_def)
  from advance_follows [of jcs ck ls f env ck' n] inv(1) assms(2) have "ck_stream ck' = ck_stream ck" by (auto simp: ck_inv_def)
  moreover obtain qs where "fst (full_lines [] f) = ls @ qs"
    using full_lines_split [of ls f "fst (full_lines [] f)" "snd (full_lines [] f)"] inv(1) by (auto simp: ck_inv_def)
  ultimately show ?thesis using ck_inv_advance [OF inv(1) assms(2)] inv(2,3) chain_longer by (simp add: ck_kept_def)
qed

lemma kept_pending: "ck_kept jcs name olds (ck\<lparr>ck_pending := p\<rparr>, f, side) ls news = ck_kept jcs name olds (ck, f, side) ls news"
  by (simp add: ck_kept_def ck_inv_pending)

lemma later_kept:
  assumes "ck_later jcs st0 (ck, f, side)" "no_LF_jcs jcs" "\<exists>ls news. ck_kept jcs name olds st0 ls news"
  shows "\<exists>ls news. ck_kept jcs name olds (ck, f, side) ls news"
  using assms(1)
proof (induction "(ck, f, side)" arbitrary: ck f side rule: ck_later.induct)
  case now
  then show ?case using assms(3) by simp
next
  case (grown ck f side g)
  then obtain ls news where "ck_kept jcs name olds (ck, f, side) ls news" by blast
  with ck_inv_grow [of jcs ck f side ls "olds @ news" g] have "ck_kept jcs name olds (ck, f @ g, side) ls news" by (simp add: ck_kept_def)
  then show ?case by blast
next
  case (appended ck f side env ck' side' err)
  then obtain ls news where k: "ck_kept jcs name olds (ck, f, side) ls news" by blast
  from appended(5,3) show ?case
  proof (cases rule: afterAppend_cases)
    case (1 n ck1)
    with kept_advance [OF k 1(1)] kept_pending show ?thesis by blast
  next
    case (2 n ck1)
    let ?ck1 = "ck1\<lparr>ck_pending := ck_pending ck1 + int n\<rparr>"
    have "ck_kept jcs name olds (?ck1, f, side) (fst (full_lines [] f)) news" using kept_advance [OF k 2(1)] kept_pending by blast
    from kept_write_head [OF this assms(2) appended(4), of checkpointKindCheckpoint ck' side' err] 2(2,3) show ?thesis by simp blast
  qed
next
  case (closed ck f side env ck' side' err)
  then obtain ls news where k: "ck_kept jcs name olds (ck, f, side) ls news" by blast
  from closed(5,3) show ?case
  proof (cases rule: closeLocked_cases)
    case (1 n)
    with kept_advance [OF k 1(1)] show ?thesis by blast
  next
    case (2 n ck1)
    from kept_write_head [OF kept_advance [OF k 2(1)] assms(2) closed(4) 2(2,4)] show ?thesis by blast
  qed
qed

text \<open>The opening, whose resume record is the first of the records written.\<close>

lemma open_kept:
  assumes "openCheckpointer jcs oenv env f path cfg entry = (Some fe, Inr ck)" "oc_stat oenv" "no_LF_jcs jcs"
  obtains fe0 where "openAppend (oc_open oenv) entry = (Some fe0, Inr ())"
    "\<exists>ls news. ck_kept jcs (filepath_Base path) (fst (full_lines [] (fe_bytes fe0))) (ck, f, fe_bytes fe) ls news"
proof -
  obtain fe0 fe1 rs ck1 good where o: "openAppend (oc_open oenv) entry = (Some fe0, Inr ())" "rs = fst (full_lines [] (fe_bytes fe0))"
    "resume_record jcs env ck1 fe1 good = (fe, Inr ck)" "keeps_sidecar ck1 (fe_bytes fe1) rs"
    "first_read jcs env f
       (fresh_checkpointer cfg (filepath_Base path) (if last_or_nil rs = [] then [] else sha_ref (last_or_nil rs)) (length (lines_text rs)) (oc_now oenv)) = Inr (ck1, good)"
    by (rule openCheckpointer_cases [OF assms(1,2)])
  obtain gc gh gs where g: "good = (gc, gh, gs)" by (cases good)
  note fr = first_read_follows [OF o(5) [unfolded g]]
  let ?ls = "fst (full_lines [] f)"
  have k1: "ck_kept jcs (filepath_Base path) rs (ck1, f, fe_bytes fe1) ?ls []"
    using fr o(4) stream_lines [of f] by (simp add: ck_kept_def ck_inv_def fresh_checkpointer_def)
  have "\<exists>news. ck_kept jcs (filepath_Base path) rs (ck, f, fe_bytes fe) ?ls news"
  proof (cases "0 < ck_count ck1 \<and> ck_head ck1 = [] \<and> 0 < gc")
    case False
    then have "ck = ck1 \<and> fe = fe1" using o(3) g by (auto simp: resume_record_def)
    with k1 show ?thesis by blast
  next
    case True
    obtain ps l qs where l: "?ls = ps @ l # qs" "wellFormedLine l" "gc = length ps + 1" "ChainHashRaw jcs (TrimSpace l) = Inr gh"
      "gs = lines_text (ps @ [l])" using fr True by auto
    have pre: "gs = lines_text (take gc ?ls)" "1 \<le> gc" "gc \<le> length ?ls" "?ls ! (gc - 1) = l" using l by (simp_all add: nth_append)
    obtain ck2 side2 err where w: "writeRecord jcs env ck1 (fe_bytes fe1) checkpointKindResume gc gh (sha256 gs) = (ck2, side2, err)"
      by (metis surj_pair)
    have r: "err = None" "ck = ck2" "fe_bytes fe = side2"
      using o(3) g True w by (auto simp: resume_record_def split: option.splits)
    show ?thesis
      using kept_write [OF k1 assms(3) _ w [unfolded pre(1)] pre(2,3)] l(2,4) pre(4) r by simp
  qed
  with that [OF o(1)] o(2) show thesis by blast
qed

text \<open>
  C16. In its whole life a checkpointer hashes exactly its stream's lines, and its sidecar is one
  honest chain. From its opening on, through appends by any writer, its own records and its close -
  as long as its reads of the stream succeed, what a write of a record left torn can be cut off
  again, and the sidecar could be sized when it was opened - it stands at a line feed of the stream:
  hash, offset, line count and head are those of exactly the lines before it. The sidecar is the
  whole lines it held before the opening and then the records written since, whole and each on its
  own line, whatever became of the writes; and each of these names the stream, the number of some of
  these lines, the hash of exactly those, the chain hash of the last of them, which is an event, and
  the hash of the sidecar's line before it.
\<close>

theorem ck_life_invariant:
  assumes "openCheckpointer jcs oenv env f0 path cfg entry = (Some fe, Inr ck0)" "oc_stat oenv" "no_LF_jcs jcs"
    and "ck_later jcs (ck0, f0, fe_bytes fe) (ck, f, side)"
  shows "\<exists>ls rest fe0 olds news. f = lines_text ls @ rest \<and> no_LF ls \<and> ck_sum ck = lines_text ls \<and>
    ck_off ck = length (lines_text ls) \<and> ck_count ck = length ls \<and> ck_head ck = last_head jcs ls \<and>
    openAppend (oc_open oenv) entry = (Some fe0, Inr ()) \<and> olds = fst (full_lines [] (fe_bytes fe0)) \<and>
    side = lines_text (olds @ news) \<and> no_LF (olds @ news) \<and> ck_size ck = length side \<and>
    ck_prev ck = expect_prev (last_or_nil (olds @ news)) \<and>
    records_chain jcs (filepath_Base path) ls (last_or_nil olds) news"
proof -
  obtain fe0 where o: "openAppend (oc_open oenv) entry = (Some fe0, Inr ())"
    "\<exists>ls news. ck_kept jcs (filepath_Base path) (fst (full_lines [] (fe_bytes fe0))) (ck0, f0, fe_bytes fe) ls news"
    by (rule open_kept [OF assms(1-3)])
  from later_kept [OF assms(4,3) o(2)] obtain ls news
    where k: "ck_kept jcs (filepath_Base path) (fst (full_lines [] (fe_bytes fe0))) (ck, f, side) ls news" by blast
  define olds where "olds = fst (full_lines [] (fe_bytes fe0))"
  have inv: "follows_stream jcs ck ls" "no_LF ls" "take (length (lines_text ls)) f = lines_text ls" "keeps_sidecar ck side (olds @ news)"
    "records_chain jcs (filepath_Base path) ls (last_or_nil olds) news"
    using k by (simp_all add: ck_kept_def ck_inv_def olds_def)
  have "f = lines_text ls @ drop (length (lines_text ls)) f" using inv(3) by (metis append_take_drop_id)
  with inv o(1) olds_def show ?thesis
    by (intro exI [of _ ls] exI [of _ "drop (length (lines_text ls)) f"] exI [of _ fe0] exI [of _ olds] exI [of _ news])
      (simp add: follows_stream_def keeps_sidecar_def)
qed

text \<open>Opened on an empty stream, one event appended, and the record of it.\<close>

theorem ck_life_invariant_witness:
  "\<exists>ls rest fe0 olds news. one_line @ [LF] = lines_text ls @ rest \<and> no_LF ls \<and> ck_sum (fst first_record) = lines_text ls \<and>
    ck_off (fst first_record) = length (lines_text ls) \<and> ck_count (fst first_record) = length ls \<and>
    ck_head (fst first_record) = last_head value_jcs ls \<and>
    openAppend (oc_open sample_open) None = (Some fe0, Inr ()) \<and> olds = fst (full_lines [] (fe_bytes fe0)) \<and>
    fst (snd first_record) = lines_text (olds @ news) \<and> no_LF (olds @ news) \<and> ck_size (fst first_record) = length (fst (snd first_record)) \<and>
    ck_prev (fst first_record) = expect_prev (last_or_nil (olds @ news)) \<and>
    records_chain value_jcs (filepath_Base ''s'') ls (last_or_nil olds) news"
proof -
  let ?f = "one_line @ [LF]"
  have g: "ck_later value_jcs (sample_ck, [], []) (sample_ck, ?f, [])"
    using ck_later.grown [OF ck_later.now, of value_jcs sample_ck "[]" "[]" ?f] by simp
  have "read_ok (advance value_jcs steady_env sample_ck ?f)" "cuts_torn steady_env"
    by (simp_all add: advance_first read_ok_def cuts_torn_def) (simp add: steady_env_def)
  from ck_later.appended [OF g this, of "fst first_record" "fst (snd first_record)" "snd (snd first_record)"]
  have l: "ck_later value_jcs (sample_ck, [], []) (fst first_record, ?f, fst (snd first_record))" by (simp add: first_record_def)
  show ?thesis
    by (rule ck_life_invariant [OF sample_opened _ jcs_no_LF [OF value_jcs_laws]]) (use l in \<open>simp_all add: sample_open_def\<close>)
qed

section \<open>A read that fails\<close>

text \<open>The checkpointer stands after \<open>ks\<close>, but what it has hashed is \<open>S\<close>.\<close>

definition stands_ahead :: "(bytes \<Rightarrow> bytes option) \<Rightarrow> checkpointer \<Rightarrow> bytes \<Rightarrow> bytes list \<Rightarrow> bool" where
  "stands_ahead jcs ck S ks \<longleftrightarrow>
     ck_sum ck = S \<and> ck_last ck = Some S \<and> ck_off ck = length (lines_text ks) \<and> ck_count ck = length ks \<and>
     ck_head ck = last_head jcs ks"

lemma ck_scanner_fields [simp]:
  "at_line (ck_scanner ck)" "ls_keep (ck_scanner ck)" "ls_sum (ck_scanner ck) = ck_sum ck" "ls_pos (ck_scanner ck) = ck_off ck"
  "ls_off (ck_scanner ck) = ck_off ck" "ls_lines (ck_scanner ck) = ck_count ck" "ls_last (ck_scanner ck) = ck_last ck"
  "ls_maxLen (ck_scanner ck) = resumeWindow"
  by (simp_all add: ck_scanner_def newLineScanner_def at_line_def)

lemma emit_all_error: "emit_all cap keep (advance_emit jcs) s ls w = (s', w', Some e) \<Longrightarrow> \<exists>x. e = CkEvent x"
proof (induction ls arbitrary: s w)
  case (Cons l ls)
  obtain a h where w: "w = (a, h)" by (cases w)
  show ?case
    using Cons.prems Cons.IH by (auto simp: Let_def w advance_emit_def split: option.splits prod.splits sum.splits if_splits)
qed simp

lemma catch_sum: "at_line s \<Longrightarrow> ls_sum (ls_catch s r) = ls_sum s @ r"
  by (simp add: ls_catch_def ls_rest_def ls_add_def ls_write_def at_line_def)

lemma failed_read:
  assumes "ck_off ck = length (lines_text ls)" "f = lines_text ls @ g" "advance jcs bad ck f = (ck1, Inl CkRead)"
  obtains n where "ce_read bad = Some n" "ck1 = ck\<lparr>ck_sum := ck_sum ck @ take n g\<rparr>"
proof -
  have shr: "restart_shrunk ck f = ck" "drop (ck_off ck) f = g" using assms(1,2) by (simp_all add: restart_shrunk_def)
  obtain ps rerr where ps: "read_section (ce_read bad) g = (ps, rerr)" by fastforce
  obtain sc a h err where run: "ls_run (advance_emit jcs) (ck_scanner ck) ps rerr (0, ck_head ck) = (sc, (a, h), err)" by (metis surj_pair)
  have e: "err = Some CkRead" "ck1 = ck\<lparr>ck_sum := ls_sum sc\<rparr>"
    using assms(3) run ps unfolding advance_def Let_def shr ck_scanner_def [symmetric]
    by (auto split: if_splits option.splits)
  obtain qs r where q: "full_lines [] (concat ps) = (qs, r)" by fastforce
  obtain s1 w1 e1 where em: "emit_all resumeWindow True (advance_emit jcs) (ck_scanner ck) qs (0, ck_head ck) = (s1, w1, e1)" by (metis surj_pair)
  have e1: "e1 = None"
    using emit_all_error [of resumeWindow True jcs "ck_scanner ck" qs "(0, ck_head ck)" s1 w1] em run e(1)
    by (cases e1) (auto simp: ls_run_feed ls_feed_lines [OF _ q])
  then have s: "sc = ls_catch s1 r" "rerr = Some CkRead"
    using em run e(1) by (simp_all add: ls_run_feed ls_feed_lines [OF _ q])
  obtain n where n: "ce_read bad = Some n" "concat ps = take n g"
    using ps s(2) by (auto simp: read_section_def split: option.splits)
  note st = emit_all_state [OF em [unfolded e1]]
  have at: "at_line s1" "ls_sum s1 = ck_sum ck @ lines_text qs"
    using st ck_scanner_fields(1) [of ck] by (auto simp: at_line_def)
  have "take n g = lines_text qs @ r" using full_lines_concat [OF q] n(2) by (simp add: lines_text_def)
  then have "ls_sum sc = ck_sum ck @ take n g" using at by (simp add: s(1) catch_sum)
  with that n(1) e(2) show thesis by simp
qed

text \<open>The next read that succeeds and finds a whole line hashes those bytes again, and so do all after it.\<close>

lemma ahead_begins:
  assumes "ck_off ck = length (lines_text ls)" "ck_count ck = length ls" "f = lines_text ls @ g" "full_lines [] g = (qs, r)" "qs \<noteq> []"
    and "advance jcs env ck f = (ck', Inr n)"
  shows "stands_ahead jcs ck' (ck_sum ck @ lines_text qs) (ls @ qs)"
proof -
  have g: "g \<noteq> []" using assms(4,5) by auto
  have shr: "restart_shrunk ck f = ck" "drop (ck_off ck) f = g" using assms(1,3) by (simp_all add: restart_shrunk_def)
  from assms(6) shr(1) [symmetric] show ?thesis
  proof (cases rule: advance_InrE)
    case 1
    with assms(1,3) g show ?thesis by simp
  next
    case (2 ps sc added h)
    have q: "full_lines [] (concat ps) = (qs, r)" using 2(1) shr(2) assms(4) by simp
    obtain s1 where e: "emit_all resumeWindow True (advance_emit jcs) (ck_scanner ck) qs (0, ck_head ck) = (s1, (added, h), None)" "sc = ls_catch s1 r"
      using run_emit_all [OF ck_scanner_fields(1) q 2(2)] by auto
    have w: "added = length qs" "h = line_head jcs (last qs)" using emit_all_advance [OF e(1)] assms(5) by auto
    note st = emit_all_state [OF e(1)]
    have "resting s1" using st assms(5) ck_scanner_fields(1,2) [of ck] by (auto simp: resting_def at_line_def)
    from settle_catch [OF this, of r] st e(2) w assms(1,2,5) show ?thesis
      by (simp add: stands_ahead_def 2(3) ck_settled_def last_head_def)
  qed
qed

lemma ahead_goes_on:
  assumes "stands_ahead jcs ck S ks" "f = lines_text ks @ g" "full_lines [] g = (qs, r)" "advance jcs env ck f = (ck', Inr n)"
  shows "stands_ahead jcs ck' (S @ lines_text qs) (ks @ qs)"
proof (cases "qs = []")
  case False
  with ahead_begins [OF _ _ assms(2,3) False assms(4)] assms(1) show ?thesis by (simp add: stands_ahead_def)
next
  case True
  have shr: "restart_shrunk ck f = ck" "drop (ck_off ck) f = g" using assms(1,2) by (simp_all add: restart_shrunk_def stands_ahead_def)
  from assms(4) shr(1) [symmetric] show ?thesis
  proof (cases rule: advance_InrE)
    case 1
    with assms(1) True show ?thesis by simp
  next
    case (2 ps sc added h)
    have q: "full_lines [] (concat ps) = ([], r)" using 2(1) shr(2) assms(3) True by simp
    obtain s1 where e: "emit_all resumeWindow True (advance_emit jcs) (ck_scanner ck) [] (0, ck_head ck) = (s1, (added, h), None)" "sc = ls_catch s1 r"
      using run_emit_all [OF ck_scanner_fields(1) q 2(2)] by auto
    have "resting (ck_scanner ck)" using assms(1) by (simp add: resting_def stands_ahead_def)
    from settle_catch [OF this, of r] e assms(1) True show ?thesis
      by (simp add: stands_ahead_def 2(3) ck_settled_def)
  qed
qed

definition ahead :: "(bytes \<Rightarrow> bytes option) \<Rightarrow> bytes list \<Rightarrow> bytes \<Rightarrow> checkpointer \<Rightarrow> bytes \<Rightarrow> bool" where
  "ahead jcs ls x ck f \<longleftrightarrow>
     (\<exists>qs rest. f = lines_text (ls @ qs) @ rest \<and> no_LF (ls @ qs) \<and> stands_ahead jcs ck (lines_text ls @ x @ lines_text qs) (ls @ qs))"

lemma ahead_advance:
  assumes "ahead jcs ls x ck f" "advance jcs env ck f = (ck', Inr n)"
  obtains qs where "fst (full_lines [] f) = ls @ qs" "stands_ahead jcs ck' (lines_text ls @ x @ lines_text qs) (ls @ qs)" "ahead jcs ls x ck' f"
proof -
  obtain qs rest where a: "f = lines_text (ls @ qs) @ rest" "no_LF (ls @ qs)" "stands_ahead jcs ck (lines_text ls @ x @ lines_text qs) (ls @ qs)"
    using assms(1) by (auto simp: ahead_def)
  obtain ps r where p: "full_lines [] rest = (ps, r)" by fastforce
  have k: "fst (full_lines [] f) = ls @ qs @ ps" "f = lines_text (ls @ qs @ ps) @ r" "no_LF (ls @ qs @ ps)"
    using full_lines_lines_text [of "ls @ qs" rest] a(1,2) p full_lines_concat [OF p] full_lines_no_LF [OF p]
    by (auto simp: no_LF_def lines_text_def)
  have s: "stands_ahead jcs ck' (lines_text ls @ x @ lines_text (qs @ ps)) (ls @ qs @ ps)"
    using ahead_goes_on [OF a(3,1) p assms(2)] by simp
  show thesis by (rule that [OF k(1) s]) (use k s in \<open>unfold ahead_def, blast\<close>)
qed

lemma ahead_cong:
  "ck_sum ck' = ck_sum ck \<Longrightarrow> ck_off ck' = ck_off ck \<Longrightarrow> ck_count ck' = ck_count ck \<Longrightarrow> ck_head ck' = ck_head ck \<Longrightarrow>
     ck_last ck' = ck_last ck \<Longrightarrow> ahead jcs ls x ck' f = ahead jcs ls x ck f"
  by (simp add: ahead_def stands_ahead_def)

lemma ahead_write:
  "writeRecord jcs env ck side kind count head pre = (ck', side', err) \<Longrightarrow> ahead jcs ls x ck' f = ahead jcs ls x ck f"
  by (rule ahead_cong) (auto simp: writeRecord_def Let_def split: sum.splits option.splits)

lemma later_ahead:
  assumes "ck_later jcs (ck0, f0, side0) (ck, f, side)" "ahead jcs ls x ck0 f0"
  shows "ahead jcs ls x ck f"
  using assms(1)
proof (induction "(ck, f, side)" arbitrary: ck f side rule: ck_later.induct)
  case now
  then show ?case using assms(2) by simp
next
  case grown
  then show ?case by (force simp: ahead_def)
next
  case (appended ck f side env ck' side' err)
  from appended(5,3) show ?case
  proof (cases rule: afterAppend_cases)
    case (1 n ck1)
    have "ahead jcs ls x ck1 f" using ahead_advance [OF appended(2) 1(1)] by blast
    then show ?thesis unfolding 1(2) using ahead_cong [of "ck1\<lparr>ck_pending := ck_pending ck1 + int n\<rparr>" ck1] by simp
  next
    case (2 n ck1)
    have "ahead jcs ls x ck1 f" using ahead_advance [OF appended(2) 2(1)] by blast
    then show ?thesis using ahead_write [OF 2(3)] ahead_cong [of "ck1\<lparr>ck_pending := ck_pending ck1 + int n\<rparr>" ck1] by simp
  qed
next
  case (closed ck f side env ck' side' err)
  from closed(5,3) show ?case
  proof (cases rule: closeLocked_cases)
    case (1 n)
    then show ?thesis using ahead_advance [OF closed(2) 1(1)] by blast
  next
    case (2 n ck1)
    have "ahead jcs ls x ck1 f" using ahead_advance [OF closed(2) 2(1)] by blast
    then show ?thesis using ahead_write [OF 2(4)] by simp
  qed
qed

text \<open>A stream below where the checkpointer stood is hashed from its first byte.\<close>

lemma shrunk_follows:
  assumes "length f < ck_off ck" "advance jcs env ck f = (ck', Inr n)"
  shows "follows_stream jcs ck' (fst (full_lines [] f))"
proof -
  define ck0 where "ck0 = ck\<lparr>ck_sum := [], ck_off := 0, ck_count := 0, ck_head := [], ck_last := None\<rparr>"
  have "restart_shrunk ck f = ck0" "restart_shrunk ck0 f = ck0" using assms(1) by (simp_all add: restart_shrunk_def ck0_def)
  then have "advance jcs env ck0 f = (ck', Inr n)" using assms(2) by (simp add: advance_def split: if_splits)
  with advance_follows [of jcs ck0 "[]" f env ck' n] follows_stream_reset [of jcs ck] show ?thesis
    by (simp add: ck0_def no_LF_def)
qed

text \<open>
  C17. A failed read of the stream puts every later record wrong. When a read of the stream stops with
  an error after the bytes \<open>x\<close>, \<^verbatim>\<open>advance\<close> reports it and keeps its offset, count
  and head, but its hash has absorbed \<open>x\<close>. The next read that succeeds and finds a complete
  line absorbs these bytes again, and makes this the state it goes back to. From then on, whatever is
  appended to the stream and however many reads and writes succeed, each record that is written counts
  all the lines of the stream but carries the hash of a text with \<open>x\<close> in it a second time, longer than
  those lines by the bytes of \<open>x\<close>. A stream that shrinks below its offset is hashed from its first
  byte again, and that sets it right.
\<close>

theorem failed_read_corrupts:
  assumes "follows_stream jcs ck ls" "no_LF ls" "f = lines_text ls @ g" "advance jcs bad ck f = (ck1, Inl CkRead)"
    and "full_lines [] (g @ h) = (qs, r)" "qs \<noteq> []" "advance jcs good ck1 (f @ h) = (ck2, Inr k)"
    and "ck_later jcs (ck2, f @ h, side2) (ck3, f3, side3)" "writes_record jcs kind env ck3 side3 f3 (ck4, side4)"
  shows "\<exists>n x fs i rec b. ce_read bad = Some n \<and> x = take n g \<and> ck1 = ck\<lparr>ck_sum := lines_text ls @ x\<rparr> \<and>
    ck_off ck2 = length (lines_text (ls @ qs)) \<and> ck_count ck2 = length (ls @ qs) \<and> ck_sum ck2 = lines_text ls @ x @ lines_text qs \<and>
    encodeCheckpoint jcs fs (ce_signer env) = Inr (i, rec) \<and> side4 = side3 @ rec @ [LF] \<and>
    lines_text (fst (full_lines [] f3)) = lines_text ls @ b \<and> cf_Count fs = int (length (fst (full_lines [] f3))) \<and>
    cf_Prefix fs = sha_ref (lines_text ls @ x @ b) \<and>
    (\<forall>env' f' ck' m. length f' < ck_off ck4 \<and> advance jcs env' ck4 f' = (ck', Inr m) \<longrightarrow>
       follows_stream jcs ck' (fst (full_lines [] f')))"
proof -
  have ck: "ck_off ck = length (lines_text ls)" "ck_count ck = length ls" "ck_sum ck = lines_text ls"
    using assms(1) by (simp_all add: follows_stream_def)
  obtain n where n: "ce_read bad = Some n" "ck1 = ck\<lparr>ck_sum := ck_sum ck @ take n g\<rparr>" by (rule failed_read [OF ck(1) assms(3,4)])
  define x where "x = take n g"
  have fh: "f @ h = lines_text ls @ (g @ h)" by (simp add: assms(3))
  have s2: "stands_ahead jcs ck2 (lines_text ls @ x @ lines_text qs) (ls @ qs)"
    using ahead_begins [OF _ _ fh assms(5-7)] ck n(2) by (simp add: x_def)
  have "f @ h = lines_text (ls @ qs) @ r" "no_LF (ls @ qs)"
    using full_lines_concat [OF assms(5)] full_lines_no_LF [OF assms(5)] assms(2) fh by (auto simp: no_LF_def lines_text_def)
  then have "ahead jcs ls x ck2 (f @ h)" using s2 unfolding ahead_def by blast
  then have a3: "ahead jcs ls x ck3 f3" by (rule later_ahead [OF assms(8)])
  obtain m ck5 p where w: "advance jcs env ck3 f3 = (ck5, Inr m)"
    "writeRecord jcs env (ck5\<lparr>ck_pending := p\<rparr>) side3 kind (ck_count ck5) (ck_head ck5) (sha256 (ck_sum ck5)) = (ck4, side4, None)"
    using writes_recordE [OF assms(9)] by metis
  obtain q3 where q3: "fst (full_lines [] f3) = ls @ q3" "stands_ahead jcs ck5 (lines_text ls @ x @ lines_text q3) (ls @ q3)"
    by (rule ahead_advance [OF a3 w(1)])
  define fs where "fs = \<lparr>cf_Kind = kind, cf_Stream = ck_stream ck5, cf_Count = int (ck_count ck5), cf_Head = ck_head ck5,
    cf_Prefix = ''sha256:'' @ hex_EncodeToString (sha256 (ck_sum ck5)), cf_At = format_at (ce_at env), cf_Prev = ck_prev ck5\<rparr>"
  obtain i rec where r: "encodeCheckpoint jcs fs (ce_signer env) = Inr (i, rec)" "side4 = side3 @ rec @ [LF]"
    using w(2) by (auto simp: writeRecord_def fs_def Let_def split: sum.splits option.splits)
  have "lines_text (fst (full_lines [] f3)) = lines_text ls @ lines_text q3" "cf_Count fs = int (length (fst (full_lines [] f3)))"
    "cf_Prefix fs = sha_ref (lines_text ls @ x @ lines_text q3)"
    using q3 by (simp_all add: fs_def stands_ahead_def sha_ref_def)
  moreover have "ck_off ck2 = length (lines_text (ls @ qs))" "ck_count ck2 = length (ls @ qs)" "ck_sum ck2 = lines_text ls @ x @ lines_text qs"
    using s2 by (simp_all add: stands_ahead_def)
  ultimately show ?thesis
    using n r ck(3) x_def shrunk_follows by (intro exI [of _ n] exI [of _ x] exI [of _ fs] exI [of _ i] exI [of _ rec] exI [of _ "lines_text q3"]) auto
qed

text \<open>One byte read before the error, the same line read again, and the record of the close.\<close>

lemma full_lines_fresh: "LF \<notin> set p \<Longrightarrow> full_lines seg p = ([], seg @ p)"
  by (induction p arbitrary: seg) auto

lemma one_line_no_LF: "LF \<notin> set one_line"
  using full_lines_no_LF [OF one_line_lines(1)] by simp

definition broken_read :: ck_env where "broken_read = steady_env\<lparr>ce_read := Some 1\<rparr>"
definition failed_once :: checkpointer where "failed_once = sample_ck\<lparr>ck_sum := take 1 one_line\<rparr>"

lemma one_line_start: "take 1 (one_line @ [LF]) = take 1 one_line" "take 1 one_line \<noteq> []"
proof -
  have "line_at ''t'' \<noteq> []" by code_simp
  then have "one_line \<noteq> []" by (simp only: one_line_def not_False_eq_True)
  then show "take 1 (one_line @ [LF]) = take 1 one_line" "take 1 one_line \<noteq> []" by (simp_all add: Suc_le_eq)
qed

lemma advance_failed: "advance value_jcs broken_read sample_ck (one_line @ [LF]) = (failed_once, Inl CkRead)"
proof -
  define s where "s = newLineScanner [] 0 None 0 resumeWindow True"
  define t where "t = take 1 one_line"
  have t: "LF \<notin> set t" "t \<noteq> []" "length t \<le> 65536" "take 1 (one_line @ [LF]) = t"
    unfolding t_def using one_line_no_LF one_line_start by (auto dest: in_set_takeD)
  note fl = full_lines_fresh [OF t(1), of "[]"]
  have s: "at_line s" by (simp add: s_def at_line_new)
  have "ls_run (advance_emit value_jcs) s [t] (Some CkRead) (0, []) = (ls_catch s t, (0, []), Some CkRead)"
    using fl by (simp add: ls_run_feed ls_feed_lines [OF s fl])
  moreover have "ls_sum (ls_catch s t) = t" using catch_sum [OF s] by (simp add: s_def newLineScanner_def)
  moreover have "read_chunks t = [t]" using t by (intro read_chunks_short) simp_all
  moreover define f where "f = one_line @ [LF]"
  have "take 1 f = t" "f \<noteq> []" using t(4) by (simp_all add: f_def)
  moreover have "failed_once = sample_ck\<lparr>ck_sum := t\<rparr>" by (simp only: failed_once_def t_def)
  ultimately show ?thesis
    unfolding f_def [symmetric]
    by (simp add: advance_def broken_read_def steady_env_def sample_ck_def fresh_checkpointer_def restart_shrunk_def
        read_section_def s_def [symmetric] Let_def)
qed

definition read_again :: checkpointer where
  "read_again = fst (advance value_jcs steady_env failed_once (one_line @ [LF]))"

lemma advance_again: "advance value_jcs steady_env failed_once (one_line @ [LF]) = (read_again, Inr 1)"
  by (simp add: read_again_def failed_once_def advance_line)

lemma close_writes:
  obtains ck' side' where "writes_record value_jcs ''close'' steady_env read_again [] (one_line @ [LF]) (ck', side')"
proof -
  let ?S = "take 1 one_line @ one_line @ [LF]"
  have ra: "read_again = sample_ck\<lparr>ck_sum := ?S, ck_last := Some ?S, ck_off := length one_line + 1, ck_count := 1, ck_head := one_head\<rparr>"
    by (simp add: read_again_def failed_once_def advance_line)
  have "fields_ok (one_record ''close'' ?S)" by (rule one_record_ok) (simp add: ascii_def)
  then obtain r where "encodeCheckpoint value_jcs (one_record ''close'' ?S) mute_signer = Inr (None, r)" by (rule mute_record)
  then have "closeLocked value_jcs steady_env read_again [] (one_line @ [LF]) =
      (fst (closeLocked value_jcs steady_env read_again [] (one_line @ [LF])), r @ [LF], None)"
    using one_head_form(2)
    by (simp add: closeLocked_def ra advance_def restart_shrunk_def steady_env_def writeRecord_def sample_ck_def fresh_checkpointer_def
        one_record_def sha_ref_def checkpointKindClose_def Let_def)
  with that [of "fst (closeLocked value_jcs steady_env read_again [] (one_line @ [LF]))" "r @ [LF]"] show thesis
    by (auto simp: writes_record_def checkpointKindClose_def)
qed

theorem failed_read_corrupts_witness:
  "\<exists>ck' rec fs i. writes_record value_jcs ''close'' steady_env read_again [] (one_line @ [LF]) (ck', rec @ [LF]) \<and>
     encodeCheckpoint value_jcs fs mute_signer = Inr (i, rec) \<and> cf_Count fs = 1 \<and>
     cf_Prefix fs = sha_ref (take 1 one_line @ one_line @ [LF]) \<and> take 1 one_line \<noteq> []"
proof -
  obtain ck' side' where w: "writes_record value_jcs ''close'' steady_env read_again [] (one_line @ [LF]) (ck', side')" by (rule close_writes)
  have fl: "follows_stream value_jcs sample_ck []"
    by (simp add: follows_stream_def sample_ck_def fresh_checkpointer_def last_head_def)
  have g: "full_lines [] ((one_line @ [LF]) @ []) = ([one_line], [])" using one_line_lines(1) by simp
  have a: "advance value_jcs steady_env failed_once ((one_line @ [LF]) @ []) = (read_again, Inr 1)" using advance_again by simp
  have l: "ck_later value_jcs (read_again, (one_line @ [LF]) @ [], []) (read_again, one_line @ [LF], [])"
    using ck_later.now [of value_jcs "(read_again, one_line @ [LF], [])"] by simp
  have "no_LF []" "one_line @ [LF] = lines_text [] @ (one_line @ [LF])" by (simp_all add: no_LF_def)
  from failed_read_corrupts [OF fl this advance_failed g _ a l w] obtain n x fs i rec b where
    c: "ce_read broken_read = Some n" "x = take n (one_line @ [LF])" "encodeCheckpoint value_jcs fs (ce_signer steady_env) = Inr (i, rec)"
      "side' = [] @ rec @ [LF]" "lines_text (fst (full_lines [] (one_line @ [LF]))) = lines_text [] @ b"
      "cf_Count fs = int (length (fst (full_lines [] (one_line @ [LF]))))" "cf_Prefix fs = sha_ref (lines_text [] @ x @ b)"
    by blast
  have "x = take 1 one_line" using c(1,2) one_line_start(1) by (simp add: broken_read_def)
  with c w one_line_lines(1) one_line_start(2) show ?thesis
    by (intro exI [of _ ck'] exI [of _ rec] exI [of _ fs] exI [of _ i]) (simp add: steady_env_def lines_text_def)
qed

end
