(* ===== verification/Jose.thy ===== *)
theory Jose
  imports Json_Struct Ecdsa Deleg_Chain
begin

text \<open>
  delegation/jose.go: key sets, thumbprints, and the signing and checking of compact tokens. A
  token is a byte string; ECDSA and RSA are those of theory \<open>Ecdsa\<close>. What Go leaves to the
  platform or to a Unicode table is the record \<open>go_lib\<close>.
\<close>

section \<open>What the platform decides\<close>

record url =
  u_Scheme :: string
  u_Host :: string
  u_EscapedPath :: string

text \<open>
  The conversion of a double outside the range of \<^verbatim>\<open>int64\<close>; \<^verbatim>\<open>url.Parse\<close>;
  \<^verbatim>\<open>strings.EqualFold\<close> of text that is not ASCII; \<^verbatim>\<open>strconv.IsPrint\<close>
  above ASCII.
\<close>

record go_lib =
  gl_int64 :: "bool \<times> nat \<times> int \<Rightarrow> int"
  gl_Parse :: "bytes \<Rightarrow> url option"
  gl_EqualFold :: "bytes \<Rightarrow> bytes \<Rightarrow> bool"
  gl_IsPrint :: "nat \<Rightarrow> bool"

section \<open>Keys and key sets\<close>

record JWK =
  jw_Kty :: string
  jw_Crv :: string
  jw_X :: string
  jw_Y :: string
  jw_N :: string
  jw_E :: string
  jw_Kid :: string
  jw_Use :: string
  jw_Alg :: string

definition zero_JWK :: JWK where
  "zero_JWK = \<lparr>jw_Kty = [], jw_Crv = [], jw_X = [], jw_Y = [], jw_N = [], jw_E = [], jw_Kid = [], jw_Use = [], jw_Alg = []\<rparr>"

type_synonym jwk_set = "JWK list"

definition jwk_names :: "string list" where
  "jwk_names = [''kty'', ''crv'', ''x'', ''y'', ''n'', ''e'', ''kid'', ''use'', ''alg'']"

definition set_jwk :: "JWK setter" where
  "set_jwk n c j =
     (if n = ''kty'' then map_option (\<lambda>s. j\<lparr>jw_Kty := s\<rparr>) (set_string c (jw_Kty j))
      else if n = ''crv'' then map_option (\<lambda>s. j\<lparr>jw_Crv := s\<rparr>) (set_string c (jw_Crv j))
      else if n = ''x'' then map_option (\<lambda>s. j\<lparr>jw_X := s\<rparr>) (set_string c (jw_X j))
      else if n = ''y'' then map_option (\<lambda>s. j\<lparr>jw_Y := s\<rparr>) (set_string c (jw_Y j))
      else if n = ''n'' then map_option (\<lambda>s. j\<lparr>jw_N := s\<rparr>) (set_string c (jw_N j))
      else if n = ''e'' then map_option (\<lambda>s. j\<lparr>jw_E := s\<rparr>) (set_string c (jw_E j))
      else if n = ''kid'' then map_option (\<lambda>s. j\<lparr>jw_Kid := s\<rparr>) (set_string c (jw_Kid j))
      else if n = ''use'' then map_option (\<lambda>s. j\<lparr>jw_Use := s\<rparr>) (set_string c (jw_Use j))
      else if n = ''alg'' then map_option (\<lambda>s. j\<lparr>jw_Alg := s\<rparr>) (set_string c (jw_Alg j))
      else Some j)"

fun Find :: "jwk_set \<Rightarrow> string \<Rightarrow> JWK option" where
  "Find [] kid = None"
| "Find (k # ks) kid = (if jw_Kid k \<noteq> [] \<and> jw_Kid k = kid then Some k else Find ks kid)"

section \<open>From and to the library's keys\<close>

definition curveName :: "curve \<Rightarrow> string" where
  "curveName C = (if C = P256 then ''P-256'' else if C = P384 then ''P-384'' else [])"

definition coord_size :: "curve \<Rightarrow> nat" where
  "coord_size C = (c_BitSize C + 7) div 8"

text \<open>\<^verbatim>\<open>PublicKey.Bytes\<close>: the uncompressed point, an error off the curve.\<close>

definition key_Bytes :: "ec_key \<Rightarrow> bytes option" where
  "key_Bytes pub =
     (let C = ek_curve pub; width = coord_size C in
      if on_curve C (ek_point pub) then Some (CHR 0x04 # int_be width (fst (ek_point pub)) @ int_be width (snd (ek_point pub)))
      else None)"

definition FromPublic :: "ec_key \<Rightarrow> string \<Rightarrow> JWK" where
  "FromPublic pub kid =
     (case key_Bytes pub of
        None \<Rightarrow> zero_JWK
      | Some raw \<Rightarrow>
          if length raw < 3 \<or> raw ! 0 \<noteq> CHR 0x04 \<or> (length raw - 1) mod 2 \<noteq> 0 then zero_JWK
          else
            let crv = curveName (ek_curve pub) in
            if crv = [] then zero_JWK
            else
              let alg = (if crv = ''P-384'' then ''ES384'' else ''ES256''); half = (length raw - 1) div 2
              in zero_JWK\<lparr>jw_Kty := ''EC'', jw_Crv := crv, jw_X := b64 (take half (drop 1 raw)),
                   jw_Y := b64 (drop (1 + half) raw), jw_Kid := kid, jw_Use := ''sig'', jw_Alg := alg\<rparr>)"

text \<open>\<^verbatim>\<open>ecdsa.ParseUncompressedPublicKey\<close>.\<close>

definition parse_uncompressed :: "curve \<Rightarrow> bytes \<Rightarrow> ec_key option" where
  "parse_uncompressed C raw =
     (let width = coord_size C; pt = (be_int (take width (drop 1 raw)), be_int (drop (1 + width) raw)) in
      if length raw = 1 + 2 * width \<and> raw ! 0 = CHR 0x04 \<and> on_curve C pt then Some \<lparr>ek_curve = C, ek_point = pt\<rparr> else None)"

definition ecPublic :: "JWK \<Rightarrow> ec_key option" where
  "ecPublic j =
     (case (if jw_Crv j = ''P-256'' then Some P256 else if jw_Crv j = ''P-384'' then Some P384 else None) of
        None \<Rightarrow> None
      | Some C \<Rightarrow>
          (case (unb64 (jw_X j), unb64 (jw_Y j)) of
             (Some x, Some y) \<Rightarrow>
               let width = coord_size C in
               if length x > width \<or> length y > width then None
               else parse_uncompressed C
                 (CHR 0x04 # replicate (width - length x) (CHR 0x00) @ x @ replicate (width - length y) (CHR 0x00) @ y)
           | _ \<Rightarrow> None))"

definition maxRSAModulusBytes :: nat where "maxRSAModulusBytes = 1024"

definition rsaPublic :: "JWK \<Rightarrow> rsa_key option" where
  "rsaPublic j =
     (case unb64 (jw_N j) of
        None \<Rightarrow> None
      | Some n \<Rightarrow>
          if length n > maxRSAModulusBytes then None
          else case unb64 (jw_E j) of
              None \<Rightarrow> None
            | Some e \<Rightarrow>
                if length e > 8 \<or> be_int e > 2 ^ 31 then None
                else Some \<lparr>rk_N = be_int n, rk_E = be_int e\<rparr>)"

section \<open>Thumbprints\<close>

text \<open>\<^verbatim>\<open>%q\<close> is \<^verbatim>\<open>strconv.Quote\<close>: rune by rune, a bad byte as its hex.\<close>

definition rune_value :: "bytes \<Rightarrow> nat" where
  "rune_value u =
     (case map of_char u of
        [a] \<Rightarrow> a
      | [a, b] \<Rightarrow> (a - 192) * 64 + (b - 128)
      | [a, b, c] \<Rightarrow> (a - 224) * 4096 + (b - 128) * 64 + (c - 128)
      | [a, b, c, d] \<Rightarrow> (a - 240) * 262144 + (b - 128) * 4096 + (c - 128) * 64 + (d - 128)
      | _ \<Rightarrow> 0)"

fun hex_digits :: "nat \<Rightarrow> nat \<Rightarrow> string" where
  "hex_digits 0 r = []"
| "hex_digits (Suc k) r = hex_digits k (r div 16) @ [hexDigit (r mod 16)]"

definition quote_rune :: "go_lib \<Rightarrow> bytes \<Rightarrow> string" where
  "quote_rune lib u =
     (let r = rune_value u in
      if r = 34 \<or> r = 92 then CHR 0x5C # u
      else if (if r < 128 then 32 \<le> r \<and> r < 127 else gl_IsPrint lib r) then u
      else if r = 7 then CHR 0x5C # ''a''
      else if r = 8 then CHR 0x5C # ''b''
      else if r = 12 then CHR 0x5C # ''f''
      else if r = 10 then CHR 0x5C # ''n''
      else if r = 13 then CHR 0x5C # ''r''
      else if r = 9 then CHR 0x5C # ''t''
      else if r = 11 then CHR 0x5C # ''v''
      else if r < 32 \<or> r = 127 then CHR 0x5C # ''x'' @ hex_digits 2 r
      else if r < 65536 then CHR 0x5C # ''u'' @ hex_digits 4 r
      else CHR 0x5C # ''U'' @ hex_digits 8 r)"

function quote_runes :: "go_lib \<Rightarrow> bytes \<Rightarrow> string" where
  "quote_runes lib s =
     (case s of [] \<Rightarrow> []
      | c # cs \<Rightarrow>
          let k = utf8_len s in
          if k = 0 then (CHR 0x5C # ''x'' @ hex_digits 2 (of_char c)) @ quote_runes lib cs
          else quote_rune lib (take k s) @ quote_runes lib (drop k s))"
  by pat_completeness auto
termination by (relation "measure (\<lambda>(lib, s). length s)") auto

declare quote_runes.simps [simp del]

definition Quote :: "go_lib \<Rightarrow> bytes \<Rightarrow> string" where
  "Quote lib s = CHR 0x22 # quote_runes lib s @ [CHR 0x22]"

definition thumb_input :: "go_lib \<Rightarrow> JWK \<Rightarrow> bytes option" where
  "thumb_input lib j =
     (if jw_Kty j = ''EC'' then
        Some ([CHR ''{'', CHR 0x22] @ ''crv'' @ [CHR 0x22, CHR '':''] @ Quote lib (jw_Crv j) @
          [CHR '','', CHR 0x22] @ ''kty'' @ [CHR 0x22, CHR '':'', CHR 0x22] @ ''EC'' @ [CHR 0x22, CHR '','', CHR 0x22] @
          ''x'' @ [CHR 0x22, CHR '':''] @ Quote lib (jw_X j) @ [CHR '','', CHR 0x22] @ ''y'' @ [CHR 0x22, CHR '':''] @
          Quote lib (jw_Y j) @ ''}'')
      else if jw_Kty j = ''RSA'' then
        Some ([CHR ''{'', CHR 0x22] @ ''e'' @ [CHR 0x22, CHR '':''] @ Quote lib (jw_E j) @
          [CHR '','', CHR 0x22] @ ''kty'' @ [CHR 0x22, CHR '':'', CHR 0x22] @ ''RSA'' @ [CHR 0x22, CHR '','', CHR 0x22] @
          ''n'' @ [CHR 0x22, CHR '':''] @ Quote lib (jw_N j) @ ''}'')
      else None)"

definition Thumbprint :: "go_lib \<Rightarrow> JWK \<Rightarrow> deleg_error + string" where
  "Thumbprint lib j = (case thumb_input lib j of None \<Rightarrow> Inl ErrOther | Some canonical \<Rightarrow> Inr (b64 (sha256 canonical)))"

section \<open>Signing\<close>

text \<open>A private key: its curve, and what \<^verbatim>\<open>ecdsa.Sign\<close> answers for a digest.\<close>

record ec_private =
  sk_Curve :: curve
  sk_Sign :: "bytes \<Rightarrow> (int \<times> int) option"

definition json_text :: "(string \<times> gval) list \<Rightarrow> bytes option" where
  "json_text m = map_option print_json (enc_any (GObj m))"

definition jws_header :: "string \<Rightarrow> (string \<times> gval) list" where
  "jws_header kid =
     (let header = m_collect [] [(''alg'', GStr ''ES256''), (''typ'', GStr ''JWT'')]
      in if kid \<noteq> [] then m_put header ''kid'' (GStr kid) else header)"

text \<open>\<^verbatim>\<open>big.Int.Bytes\<close>: the absolute value without leading zeros.\<close>

definition big_Bytes :: "int \<Rightarrow> bytes" where
  "big_Bytes n = int_be ((bit_len (nat \<bar>n\<bar>) + 7) div 8) \<bar>n\<bar>"

definition pad :: "bytes \<Rightarrow> nat \<Rightarrow> bytes" where
  "pad b width = (if length b \<ge> width then b else replicate (width - length b) (CHR 0x00) @ b)"

definition SignES256 :: "ec_private \<Rightarrow> string \<Rightarrow> (string \<times> gval) list \<Rightarrow> deleg_error + string" where
  "SignES256 key kid claims =
     (if sk_Curve key \<noteq> P256 then Inl ErrOther
      else case (json_text (jws_header kid), json_text claims) of
          (Some h, Some p) \<Rightarrow>
            let signing = b64 h @ ''.'' @ b64 p in
            (case sk_Sign key (sha256 signing) of
               None \<Rightarrow> Inl ErrOther
             | Some (r, s) \<Rightarrow>
                 let width = coord_size (sk_Curve key)
                 in Inr (signing @ ''.'' @ b64 (pad (big_Bytes r) width @ pad (big_Bytes s) width)))
        | _ \<Rightarrow> Inl ErrOther)"

section \<open>Checking\<close>

definition allowed :: "string \<Rightarrow> string \<Rightarrow> bool" where
  "allowed kty alg =
     (if kty = ''EC'' then alg = ''ES256'' \<or> alg = ''ES384''
      else if kty = ''RSA'' then alg = ''RS256'' \<or> alg = ''RS384'' \<or> alg = ''RS512''
      else False)"

definition curveSizeFor :: "string \<Rightarrow> curve \<Rightarrow> nat \<times> bool" where
  "curveSizeFor alg C =
     (if alg = ''ES256'' then (32, C = P256) else if alg = ''ES384'' then (48, C = P384) else (0, False))"

definition digestFor :: "string \<Rightarrow> bytes \<Rightarrow> bytes" where
  "digestFor alg b =
     (if alg = ''ES384'' \<or> alg = ''RS384'' then sha384 b else if alg = ''RS512'' then sha512 b else sha256 b)"

datatype crypto_hash = SHA256 | SHA384 | SHA512

definition hashFor :: "string \<Rightarrow> crypto_hash" where
  "hashFor alg = (if alg = ''RS384'' then SHA384 else if alg = ''RS512'' then SHA512 else SHA256)"

text \<open>
  The DER frame of a digest (RFC 8017): a sequence of the algorithm, one arc under NIST's hash
  algorithms with a null parameter, and an octet string of the digest's length.
\<close>

definition digest_info :: "nat \<Rightarrow> nat \<Rightarrow> bytes" where
  "digest_info arc len = map char_of [48, 17 + len, 48, 13, 6, 9, 96, 134, 72, 1, 101, 3, 4, 2, arc, 5, 0, 4, len]"

fun hash_prefix :: "crypto_hash \<Rightarrow> bytes" where
  "hash_prefix SHA256 = digest_info 1 32"
| "hash_prefix SHA384 = digest_info 2 48"
| "hash_prefix SHA512 = digest_info 3 64"

definition jws_check :: "JWK \<Rightarrow> string \<Rightarrow> bytes \<Rightarrow> bytes \<Rightarrow> deleg_error option" where
  "jws_check j alg signing sig =
     (if jw_Kty j = ''EC'' then
        (case ecPublic j of
           None \<Rightarrow> Some ErrBadSignature
         | Some pub \<Rightarrow>
             (case curveSizeFor alg (ek_curve pub) of (width, curveOK) \<Rightarrow>
                if \<not> curveOK then Some ErrAlgNotAllowed
                else if length sig \<noteq> 2 * width then Some ErrBadSignature
                else if \<not> ecdsa_Verify pub (digestFor alg signing) (be_int (take width sig)) (be_int (drop width sig))
                then Some ErrBadSignature
                else None))
      else if jw_Kty j = ''RSA'' then
        (case rsaPublic j of
           None \<Rightarrow> Some ErrBadSignature
         | Some pub \<Rightarrow>
             if \<not> rsa_VerifyPKCS1v15 pub (hash_prefix (hashFor alg)) (digestFor alg signing) sig then Some ErrBadSignature
             else None)
      else Some ErrAlgNotAllowed)"

text \<open>The header members a verifier reads.\<close>

definition set_alg_kid :: "(string \<times> string) setter" where
  "set_alg_kid n c h =
     (case h of (alg, kid) \<Rightarrow>
        if n = ''alg'' then map_option (\<lambda>s. (s, kid)) (set_string c alg)
        else if n = ''kid'' then map_option (\<lambda>s. (alg, s)) (set_string c kid) else Some h)"

definition set_alg :: "string setter" where
  "set_alg n c alg = set_string c alg"

text \<open>The steps after the key is known: the algorithm, the signature, the claims.\<close>

definition verify_parts :: "JWK \<Rightarrow> string \<Rightarrow> string \<Rightarrow> string \<Rightarrow> string \<Rightarrow> deleg_error + (string \<times> gval) list" where
  "verify_parts jwk alg h p s =
     (if \<not> allowed (jw_Kty jwk) alg then Inl ErrAlgNotAllowed
      else case unb64 s of
          None \<Rightarrow> Inl ErrBadSignature
        | Some sig \<Rightarrow>
            (case jws_check jwk alg (h @ ''.'' @ p) sig of
               Some err \<Rightarrow> Inl err
             | None \<Rightarrow>
                 (case unb64 p of
                    None \<Rightarrow> Inl ErrBadSignature
                  | Some rawClaims \<Rightarrow>
                      (case json_any_map rawClaims of None \<Rightarrow> Inl ErrBadSignature | Some claims \<Rightarrow> Inr claims))))"

definition VerifyToken :: "string \<Rightarrow> jwk_set \<Rightarrow> deleg_error + (string \<times> gval) list" where
  "VerifyToken token ks =
     (case split_at CHR ''.'' token of
        [h, p, s] \<Rightarrow>
          (case unb64 h of
             None \<Rightarrow> Inl ErrBadSignature
           | Some rawHeader \<Rightarrow>
               (case json_struct [''alg'', ''kid''] set_alg_kid rawHeader ([], []) of
                  None \<Rightarrow> Inl ErrBadSignature
                | Some (alg, kid) \<Rightarrow>
                    if kid = [] then Inl ErrNoKid
                    else case Find ks kid of
                        None \<Rightarrow> Inl ErrUnknownKid
                      | Some jwk \<Rightarrow> verify_parts jwk alg h p s))
      | _ \<Rightarrow> Inl ErrBadSignature)"

definition VerifyWith :: "string \<Rightarrow> JWK \<Rightarrow> deleg_error + (string \<times> gval) list" where
  "VerifyWith token key =
     (case split_at CHR ''.'' token of
        [h, p, s] \<Rightarrow>
          (case unb64 h of
             None \<Rightarrow> Inl ErrBadSignature
           | Some rawHeader \<Rightarrow>
               (case json_struct [''alg''] set_alg rawHeader [] of
                  None \<Rightarrow> Inl ErrBadSignature
                | Some alg \<Rightarrow> verify_parts key alg h p s))
      | _ \<Rightarrow> Inl ErrBadSignature)"

end
