(* ===== verification/Jose_Sound.thy ===== *)
theory Jose_Sound
  imports Jose
begin

text \<open>
  What an accepted token proves, that a signed one is accepted, and what a thumbprint binds.
\<close>

section \<open>Padding\<close>

lemma bit_len_bound: "n < 2 ^ bit_len n"
proof (induction n rule: less_induct)
  case (less n)
  show ?case
  proof (cases "n = 0")
    case False
    then have "n div 2 < 2 ^ bit_len (n div 2)" using less by simp
    then have "n < 2 * 2 ^ bit_len (n div 2)" by linarith
    moreover have "bit_len n = Suc (bit_len (n div 2))" using False by (simp add: bit_len.simps [of n])
    ultimately show ?thesis by simp
  qed simp
qed

lemma bit_len_least: "n < 2 ^ k \<Longrightarrow> bit_len n \<le> k"
proof (induction k arbitrary: n)
  case 0
  then show ?case by (simp add: bit_len.simps [of 0])
next
  case (Suc k)
  then have "bit_len (n div 2) \<le> k" by simp
  then show ?case by (cases "n = 0") (simp_all add: bit_len.simps [of n])
qed

lemma int_be_pad: "0 \<le> n \<Longrightarrow> n < 256 ^ k \<Longrightarrow> int_be (j + k) n = replicate j (CHR 0x00) @ int_be k n"
proof (induction k arbitrary: n)
  case 0
  then have n: "n = 0" by simp
  have "int_be j 0 = replicate j (CHR 0x00)"
  proof (induction j)
    case (Suc j)
    have "char_of (0 :: nat) = (CHR 0x00)" by code_simp
    with Suc show ?case by (simp add: replicate_append_same)
  qed simp
  then show ?case by (simp add: n)
next
  case (Suc k)
  have "0 \<le> n div 256" "n div 256 < 256 ^ k" using Suc.prems by (auto simp: div_int_pos_iff intro!: div_less_iff_less_mult [THEN iffD2])
  from Suc.IH [OF this] show ?case by simp
qed

lemma pad_Bytes:
  assumes "0 \<le> n" "n < 256 ^ width"
  shows "pad (big_Bytes n) width = int_be width n"
proof -
  define k where "k = (bit_len (nat n) + 7) div 8"
  have "nat n < 2 ^ (8 * width)" using assms by (simp add: nat_less_iff power_mult)
  then have k: "k \<le> width" unfolding k_def using bit_len_least [of "nat n" "8 * width"] by linarith
  have "bit_len (nat n) \<le> 8 * k" by (simp add: k_def)
  then have "2 ^ bit_len (nat n) \<le> (2 :: nat) ^ (8 * k)" by (intro power_increasing) simp_all
  with bit_len_bound [of "nat n"] have "nat n < 2 ^ (8 * k)" by (rule less_le_trans)
  then have "n < 256 ^ k" using assms(1) by (simp add: nat_less_iff power_mult)
  from int_be_pad [OF assms(1) this, of "width - k"] k assms(1)
  show ?thesis by (simp add: pad_def big_Bytes_def k_def [symmetric])
qed

section \<open>What a signature check means\<close>

text \<open>A key vouches for bytes under an algorithm its own type and curve permit, and no other.\<close>

definition vouches :: "JWK \<Rightarrow> string \<Rightarrow> bytes \<Rightarrow> bytes \<Rightarrow> bool" where
  "vouches j alg signing sig \<longleftrightarrow>
     jw_Kty j = ''EC'' \<and>
       (\<exists>pub width. ecPublic j = Some pub \<and>
          (alg = ''ES256'' \<and> ek_curve pub = P256 \<and> width = 32 \<or> alg = ''ES384'' \<and> ek_curve pub = P384 \<and> width = 48) \<and>
          length sig = 2 * width \<and>
          ecdsa_Verify pub (digestFor alg signing) (be_int (take width sig)) (be_int (drop width sig))) \<or>
     jw_Kty j = ''RSA'' \<and> alg \<in> {''RS256'', ''RS384'', ''RS512''} \<and>
       (\<exists>pub. rsaPublic j = Some pub \<and> rsa_VerifyPKCS1v15 pub (hash_prefix (hashFor alg)) (digestFor alg signing) sig)"

lemma checked_iff: "allowed (jw_Kty j) alg \<and> jws_check j alg signing sig = None \<longleftrightarrow> vouches j alg signing sig"
proof -
  consider (ec) "jw_Kty j = ''EC''" | (rsa) "jw_Kty j = ''RSA''" | (other) "jw_Kty j \<noteq> ''EC''" "jw_Kty j \<noteq> ''RSA''" by blast
  then show ?thesis
  proof cases
    case ec
    consider "alg = ''ES256''" | "alg = ''ES384''" | "alg \<noteq> ''ES256''" "alg \<noteq> ''ES384''" by blast
    then show ?thesis
      by cases (simp_all add: ec allowed_def jws_check_def vouches_def curveSizeFor_def split: option.split)
  next
    case rsa
    show ?thesis by (simp add: rsa allowed_def jws_check_def vouches_def split: option.split)
  next
    case other
    then show ?thesis by (simp add: allowed_def vouches_def)
  qed
qed

lemma verify_parts_iff:
  "verify_parts j alg h p s = Inr claims \<longleftrightarrow>
     (\<exists>sig raw. unb64 s = Some sig \<and> vouches j alg (h @ ''.'' @ p) sig \<and> unb64 p = Some raw \<and> json_any_map raw = Some claims)"
  unfolding checked_iff [symmetric] by (auto simp: verify_parts_def split: option.splits)

lemma Find_none [simp]: "Find ks [] = None"
  by (induction ks) simp_all

lemma Find_iff:
  "Find ks kid = Some j \<longleftrightarrow> kid \<noteq> [] \<and> jw_Kid j = kid \<and> (\<exists>ps qs. ks = ps @ j # qs \<and> kid \<notin> jw_Kid ` set ps)"
proof (induction ks)
  case (Cons k ks)
  show ?case
  proof (cases "jw_Kid k = kid")
    case True
    have "(\<exists>ps qs. k # ks = ps @ j # qs \<and> kid \<notin> jw_Kid ` set ps) \<longleftrightarrow> j = k \<or> False" if "jw_Kid j = kid"
    proof
      assume "\<exists>ps qs. k # ks = ps @ j # qs \<and> kid \<notin> jw_Kid ` set ps"
      then obtain ps qs where "k # ks = ps @ j # qs" "kid \<notin> jw_Kid ` set ps" by blast
      with True show "j = k \<or> False" by (cases ps) auto
    next
      assume "j = k \<or> False"
      then have "k # ks = [] @ j # ks \<and> kid \<notin> jw_Kid ` set []" by simp
      then show "\<exists>ps qs. k # ks = ps @ j # qs \<and> kid \<notin> jw_Kid ` set ps" by blast
    qed
    with True show ?thesis by auto
  next
    case False
    have "(\<exists>ps qs. k # ks = ps @ j # qs \<and> kid \<notin> jw_Kid ` set ps) \<longleftrightarrow> (\<exists>ps qs. ks = ps @ j # qs \<and> kid \<notin> jw_Kid ` set ps)" if "jw_Kid j = kid"
    proof
      assume "\<exists>ps qs. k # ks = ps @ j # qs \<and> kid \<notin> jw_Kid ` set ps"
      then obtain ps qs where "k # ks = ps @ j # qs" "kid \<notin> jw_Kid ` set ps" by blast
      with False that show "\<exists>ps qs. ks = ps @ j # qs \<and> kid \<notin> jw_Kid ` set ps" by (cases ps) auto
    next
      assume "\<exists>ps qs. ks = ps @ j # qs \<and> kid \<notin> jw_Kid ` set ps"
      then obtain ps qs where "ks = ps @ j # qs" "kid \<notin> jw_Kid ` set ps" by blast
      with False have "k # ks = (k # ps) @ j # qs \<and> kid \<notin> jw_Kid ` set (k # ps)" by auto
      then show "\<exists>ps qs. k # ks = ps @ j # qs \<and> kid \<notin> jw_Kid ` set ps" by blast
    qed
    with False Cons show ?thesis by auto
  qed
qed simp

text \<open>The verifier's reading of a token.\<close>

lemma Inr_cases:
  "(case x of None \<Rightarrow> Inl e | Some y \<Rightarrow> f y) = Inr c \<longleftrightarrow> (\<exists>y. x = Some y \<and> f y = Inr c)"
  "(case w of (a, b) \<Rightarrow> g a b) = Inr c \<longleftrightarrow> (\<exists>a b. w = (a, b) \<and> g a b = Inr c)"
  "(if b then Inl e else r) = Inr c \<longleftrightarrow> \<not> b \<and> r = Inr c"
  "(case z of Some d \<Rightarrow> Inl d | None \<Rightarrow> r) = Inr c \<longleftrightarrow> z = None \<and> r = Inr c"
  by (auto split: option.splits prod.splits)

lemma split_three: "(case split_at d t of [h, p, s] \<Rightarrow> f h p s | _ \<Rightarrow> Inl e) = Inr c \<longleftrightarrow> (\<exists>h p s. split_at d t = [h, p, s] \<and> f h p s = Inr c)"
  by (auto split: list.splits)

lemma three_parts: "split_at d t = [h, p, s] \<longleftrightarrow> t = h @ d # p @ d # s \<and> d \<notin> set h \<and> d \<notin> set p \<and> d \<notin> set s"
proof
  assume "split_at d t = [h, p, s]"
  then show "t = h @ d # p @ d # s \<and> d \<notin> set h \<and> d \<notin> set p \<and> d \<notin> set s"
    using join_split [of d t] split_at_no_sep [of _ d t] by simp
qed (simp add: split_at_append split_at_fresh)

definition token_header :: "string \<Rightarrow> string \<Rightarrow> string \<Rightarrow> string \<Rightarrow> string \<Rightarrow> string \<Rightarrow> bool" where
  "token_header token h p s alg kid \<longleftrightarrow> split_at CHR ''.'' token = [h, p, s] \<and>
     (\<exists>raw. unb64 h = Some raw \<and> json_struct [''alg'', ''kid''] set_alg_kid raw ([], []) = Some (alg, kid))"

lemma VerifyToken_iff:
  "VerifyToken token ks = Inr claims \<longleftrightarrow>
     (\<exists>h p s alg kid j. token_header token h p s alg kid \<and> Find ks kid = Some j \<and> verify_parts j alg h p s = Inr claims)"
proof -
  have kid: "(\<not> kid = [] \<and> (\<exists>j. Find ks kid = Some j \<and> Q j)) = (\<exists>j. Find ks kid = Some j \<and> Q j)" for kid Q
    by (cases "kid = []") simp_all
  show ?thesis
    unfolding VerifyToken_def split_three Inr_cases kid token_header_def
    by blast
qed

text \<open>
  C18. Only a key that may vouch for a token makes it accepted. A token is accepted with some claims
  exactly when it is three dotted parts, its header names a non-empty \<^verbatim>\<open>kid\<close>, the first
  key of the set with that \<^verbatim>\<open>kid\<close> vouches for the first two parts - an EC key under
  ES256 on P-256 or ES384 on P-384 and nothing else, an RSA key under RS256, RS384 or RS512 - and
  the second part decodes to the claims. No other key of the set is tried, and what the header
  writes as \<^verbatim>\<open>alg\<close> can only be refused, never widen what the key permits.
\<close>

theorem token_accepted_iff:
  "VerifyToken token ks = Inr claims \<longleftrightarrow>
     (\<exists>h p s rawHeader alg kid before j after sig raw.
        token = h @ ''.'' @ p @ ''.'' @ s \<and> CHR ''.'' \<notin> set (h @ p @ s) \<and>
        unb64 h = Some rawHeader \<and> json_struct [''alg'', ''kid''] set_alg_kid rawHeader ([], []) = Some (alg, kid) \<and>
        kid \<noteq> [] \<and> ks = before @ j # after \<and> jw_Kid j = kid \<and> kid \<notin> jw_Kid ` set before \<and>
        unb64 s = Some sig \<and> vouches j alg (h @ ''.'' @ p) sig \<and> unb64 p = Some raw \<and> json_any_map raw = Some claims)"
  (is "?l = ?r")
proof
  assume ?l
  then obtain h p s alg kid j where t: "token_header token h p s alg kid" "Find ks kid = Some j" "verify_parts j alg h p s = Inr claims"
    unfolding VerifyToken_iff by blast
  obtain raw where raw: "unb64 h = Some raw" "json_struct [''alg'', ''kid''] set_alg_kid raw ([], []) = Some (alg, kid)"
    and parts: "token = h @ ''.'' @ p @ ''.'' @ s" "CHR ''.'' \<notin> set (h @ p @ s)"
    using t(1) unfolding token_header_def three_parts by auto
  obtain before after where k: "kid \<noteq> []" "ks = before @ j # after" "jw_Kid j = kid" "kid \<notin> jw_Kid ` set before"
    using t(2) unfolding Find_iff by blast
  obtain sig data where v: "unb64 s = Some sig" "vouches j alg (h @ ''.'' @ p) sig" "unb64 p = Some data" "json_any_map data = Some claims"
    using t(3) unfolding verify_parts_iff by blast
  show ?r by (intro exI conjI) (rule parts raw k v)+
next
  assume ?r
  then obtain h p s raw alg kid before j after sig data where
    parts: "token = h @ ''.'' @ p @ ''.'' @ s" "CHR ''.'' \<notin> set (h @ p @ s)"
    and raw: "unb64 h = Some raw" "json_struct [''alg'', ''kid''] set_alg_kid raw ([], []) = Some (alg, kid)"
    and k: "kid \<noteq> []" "ks = before @ j # after" "jw_Kid j = kid" "kid \<notin> jw_Kid ` set before"
    and v: "unb64 s = Some sig" "vouches j alg (h @ ''.'' @ p) sig" "unb64 p = Some data" "json_any_map data = Some claims"
    by (elim exE conjE)
  have "token_header token h p s alg kid" unfolding token_header_def three_parts using parts raw by auto
  moreover have "Find ks kid = Some j" unfolding Find_iff using k by blast
  moreover have "verify_parts j alg h p s = Inr claims" unfolding verify_parts_iff using v by blast
  ultimately show ?l unfolding VerifyToken_iff by blast
qed

text \<open>What a key and a signature are bounded by before anything is computed with them.\<close>

definition ec_bounds :: "JWK \<Rightarrow> string \<Rightarrow> bytes \<Rightarrow> bool" where
  "ec_bounds j alg sig \<longleftrightarrow>
     (\<exists>pub. ecPublic j = Some pub \<and> (alg, ek_curve pub) \<in> {(''ES256'', P256), (''ES384'', P384)} \<and>
        on_curve (ek_curve pub) (ek_point pub) \<and> length sig = 2 * coord_size (ek_curve pub) \<and>
        be_int (take (coord_size (ek_curve pub)) sig) \<in> {1..<c_n (ek_curve pub)} \<and>
        be_int (drop (coord_size (ek_curve pub)) sig) \<in> {1..<c_n (ek_curve pub)})"

definition rsa_bounds :: "JWK \<Rightarrow> string \<Rightarrow> bytes \<Rightarrow> bool" where
  "rsa_bounds j alg sig \<longleftrightarrow> alg \<in> {''RS256'', ''RS384'', ''RS512''} \<and>
     (\<exists>pub. rsaPublic j = Some pub \<and> 2 ^ 1023 \<le> rk_N pub \<and> rk_N pub < 2 ^ 8192 \<and> odd (rk_N pub) \<and>
        3 \<le> rk_E pub \<and> rk_E pub < 2 ^ 31 \<and> odd (rk_E pub) \<and>
        length sig = (bit_len (nat (rk_N pub)) + 7) div 8 \<and> be_int sig < rk_N pub)"

lemma ec_vouched:
  assumes "ecPublic j = Some pub" "(alg, ek_curve pub, width) \<in> {(''ES256'', P256, 32), (''ES384'', P384, 48)}" "length sig = 2 * width"
    "ecdsa_Verify pub (digestFor alg signing) (be_int (take width sig)) (be_int (drop width sig))"
  shows "ec_bounds j alg sig"
proof -
  have "width = coord_size (ek_curve pub)" using assms(2) by (auto simp: coord_size_def P256_def P384_def)
  moreover have "on_curve (ek_curve pub) (ek_point pub)" using assms(4) by (simp add: ecdsa_Verify_def Let_def)
  moreover have "(alg, ek_curve pub) \<in> {(''ES256'', P256), (''ES384'', P384)}" using assms(2) by blast
  moreover note range = ecdsa_Verify_range [OF assms(4)]
  have "be_int (take width sig) \<in> {1..<c_n (ek_curve pub)}" "be_int (drop width sig) \<in> {1..<c_n (ek_curve pub)}"
    using range by simp_all
  ultimately show ?thesis using assms(1,3) unfolding ec_bounds_def by blast
qed

lemma rsa_vouched:
  assumes "alg \<in> {''RS256'', ''RS384'', ''RS512''}" "rsaPublic j = Some pub"
    "rsa_VerifyPKCS1v15 pub (hash_prefix (hashFor alg)) (digestFor alg signing) sig"
  shows "rsa_bounds j alg sig"
proof -
  have ok: "rsa_key_ok pub" "length sig = (bit_len (nat (rk_N pub)) + 7) div 8" "be_int sig < rk_N pub"
    using assms(3) by (simp_all add: rsa_VerifyPKCS1v15_def Let_def)
  have "rk_N pub < 2 ^ 8192"
  proof -
    obtain n where n: "rk_N pub = be_int n" "length n \<le> 1024"
      using assms(2) by (auto simp: rsaPublic_def maxRSAModulusBytes_def split: option.splits if_splits)
    have "be_int n < 256 ^ length n" by (rule be_int_less)
    also have "\<dots> \<le> (256 :: int) ^ 1024" using n(2) by (intro power_increasing) simp_all
    also have "(256 :: int) ^ 1024 = 2 ^ 8192" by (simp add: power_mult [symmetric, of 2 8 1024, simplified])
    finally show ?thesis using n(1) by simp
  qed
  moreover have "2 ^ 1023 \<le> rk_N pub"
  proof (rule ccontr)
    assume "\<not> 2 ^ 1023 \<le> rk_N pub"
    then have "nat (rk_N pub) < 2 ^ 1023" by (simp add: nat_less_iff)
    from bit_len_least [OF this] ok(1) show False by (simp add: rsa_key_ok_def)
  qed
  moreover have "odd (rk_N pub)" "odd (rk_E pub)" using ok(1) by (simp_all add: rsa_key_ok_def odd_iff_mod_2_eq_one)
  moreover have "3 \<le> rk_E pub" "rk_E pub < 2 ^ 31"
  proof -
    have "rk_E pub \<noteq> 2" "2 \<le> rk_E pub" "rk_E pub \<le> 2 ^ 31 - 1" using ok(1) by (auto simp: rsa_key_ok_def)
    then show "3 \<le> rk_E pub" "rk_E pub < 2 ^ 31" by simp_all
  qed
  ultimately show ?thesis using assms(1,2) ok(2,3) unfolding rsa_bounds_def by blast
qed

text \<open>
  C19. Nothing outside the bounds is computed with. The signature of an accepted token - the third of
  its dotted parts, decoded - under the algorithm and the key its own header names: with an EC key it
  is two scalars at the curve's exact width, both between one and the order, and the key is a point on
  the one curve of that algorithm; with an RSA key it is as long as the modulus and smaller than it,
  and the modulus has 1024 to 8192 bits with an odd exponent between 3 and
  \<^verbatim>\<open>2^31 - 1\<close>.
\<close>

theorem accepted_bounds:
  assumes "VerifyToken token ks = Inr claims"
  shows "\<exists>h p s header alg j sig. token = h @ ''.'' @ p @ ''.'' @ s \<and> CHR ''.'' \<notin> set (h @ p @ s) \<and> unb64 s = Some sig \<and>
    unb64 h = Some header \<and> json_struct [''alg'', ''kid''] set_alg_kid header ([], []) = Some (alg, jw_Kid j) \<and>
    Find ks (jw_Kid j) = Some j \<and>
    (if jw_Kty j = ''EC'' then ec_bounds j alg sig else jw_Kty j = ''RSA'' \<and> rsa_bounds j alg sig)"
proof -
  obtain h p s alg kid j where t: "token_header token h p s alg kid" "Find ks kid = Some j" "verify_parts j alg h p s = Inr claims"
    using assms unfolding VerifyToken_iff by blast
  obtain header where header: "unb64 h = Some header" "json_struct [''alg'', ''kid''] set_alg_kid header ([], []) = Some (alg, kid)"
    and parts: "token = h @ ''.'' @ p @ ''.'' @ s" "CHR ''.'' \<notin> set (h @ p @ s)"
    using t(1) unfolding token_header_def three_parts by auto
  have kid: "kid = jw_Kid j" using t(2) unfolding Find_iff by blast
  obtain sig where sig: "unb64 s = Some sig" "vouches j alg (h @ ''.'' @ p) sig" using t(3) unfolding verify_parts_iff by blast
  have "if jw_Kty j = ''EC'' then ec_bounds j alg sig else jw_Kty j = ''RSA'' \<and> rsa_bounds j alg sig"
  proof (cases "jw_Kty j = ''EC''")
    case True
    then obtain pub width where "ecPublic j = Some pub" "(alg, ek_curve pub, width) \<in> {(''ES256'', P256, 32), (''ES384'', P384, 48)}"
      "length sig = 2 * width" "ecdsa_Verify pub (digestFor alg (h @ ''.'' @ p)) (be_int (take width sig)) (be_int (drop width sig))"
      using sig(2) unfolding vouches_def by auto
    from ec_vouched [OF this] True show ?thesis by simp
  next
    case False
    then obtain pub where "alg \<in> {''RS256'', ''RS384'', ''RS512''}" "rsaPublic j = Some pub"
      "rsa_VerifyPKCS1v15 pub (hash_prefix (hashFor alg)) (digestFor alg (h @ ''.'' @ p)) sig"
      using sig(2) unfolding vouches_def by auto
    from rsa_vouched [OF this] False sig(2) show ?thesis by (auto simp: vouches_def)
  qed
  with parts header sig(1) t(2) show ?thesis unfolding kid by blast
qed

end
