(* ===== verification/Jose_Sign.thy ===== *)
theory Jose_Sign
  imports Jose_Sound
begin

text \<open>
  Signing and checking agree: what \<open>SignES256\<close> issues, \<open>VerifyToken\<close> reads back under the
  key \<open>FromPublic\<close> publishes.
\<close>

section \<open>The published key\<close>

lemma coord_P256 [simp]: "coord_size P256 = 32" by (simp add: coord_size_def P256_def)

lemma curves_differ: "P384 \<noteq> P256" by (simp add: P256_def P384_def)

lemma P256_bounds: "c_p P256 < 256 ^ 32" "c_n P256 < 256 ^ 32" by (simp_all add: P256_def)

lemma published_P256:
  assumes "on_curve P256 pt"
  shows "FromPublic \<lparr>ek_curve = P256, ek_point = pt\<rparr> kid =
      zero_JWK\<lparr>jw_Kty := ''EC'', jw_Crv := ''P-256'', jw_X := b64 (int_be 32 (fst pt)), jw_Y := b64 (int_be 32 (snd pt)),
        jw_Kid := kid, jw_Use := ''sig'', jw_Alg := ''ES256''\<rparr>"
  using assms by (simp add: FromPublic_def key_Bytes_def Let_def curveName_def)

lemma read_published:
  assumes "on_curve P256 pt"
  shows "ecPublic (FromPublic \<lparr>ek_curve = P256, ek_point = pt\<rparr> kid) = Some \<lparr>ek_curve = P256, ek_point = pt\<rparr>"
proof -
  obtain x y where pt: "pt = (x, y)" by (cases pt)
  have "0 \<le> x" "x < 256 ^ 32" "0 \<le> y" "y < 256 ^ 32"
    using assms P256_bounds(1) by (auto simp: on_curve_def pt)
  then have "be_int (int_be 32 x) = x" "be_int (int_be 32 y) = y" by (simp_all only: be_int_be)
  moreover have "on_curve P256 (x, y)" using assms pt by simp
  ultimately show ?thesis
    by (simp add: pt published_P256 ecPublic_def parse_uncompressed_def Let_def)
qed

section \<open>The header and the claims\<close>

lemma header_names: "valid_utf8 ''alg''" "valid_utf8 ''kid''" "valid_utf8 ''typ''" "valid_utf8 ''ES256''" "valid_utf8 ''JWT''"
  by (rule ascii_valid; simp add: ascii_def)+

lemma field_alg: "field_for [''alg'', ''kid''] ''alg'' = Some ''alg''" "field_for [''alg'', ''kid''] ''kid'' = Some ''kid''"
  "field_for [''alg'', ''kid''] ''typ'' = None" "field_for [''alg''] ''alg'' = Some ''alg''"
  "field_for [''alg''] ''kid'' = None" "field_for [''alg''] ''typ'' = None"
  by code_simp+

lemma header_members: "kid \<noteq> [] \<Longrightarrow> jws_header kid = [(''alg'', GStr ''ES256''), (''kid'', GStr kid), (''typ'', GStr ''JWT'')]"
  by (simp add: jws_header_def)

definition header_cst :: "string \<Rightarrow> cst" where
  "header_cst kid = CObj [(enc_str ''alg'', CStr (enc_str ''ES256'')), (enc_str ''kid'', CStr (enc_str kid)), (enc_str ''typ'', CStr (enc_str ''JWT''))]"

lemma header_parses: "parse_json (print_json (header_cst kid)) = Some (header_cst kid)"
  by (rule parse_print) (simp_all add: header_cst_def maxNestingDepth_def)

lemma header_reads:
  assumes "valid_utf8 kid"
  shows "json_struct [''alg'', ''kid''] set_alg_kid (print_json (header_cst kid)) ([], []) = Some (''ES256'', kid)"
    "json_struct [''alg''] set_alg (print_json (header_cst kid)) [] = Some ''ES256''"
  using assms
  by (simp_all add: json_struct_defs header_parses)
    (simp_all add: header_cst_def dec_enc_valid header_names field_alg set_alg_kid_def set_alg_def set_string_def)

lemma claims_read:
  assumes "json_text claims = Some p" "wf_gval (GObj claims)" "text_gval (GObj claims)"
    and "\<And>c. enc_any (GObj claims) = Some c \<Longrightarrow> cdepth c \<le> maxNestingDepth"
  shows "json_any_map p = Some claims"
proof -
  obtain ms where ms: "enc_members claims = Some ms" "p = print_json (CObj ms)"
    using assms(1) by (auto simp: json_text_def)
  have "wf_cst (CObj ms)" using enc_wf(1) [OF assms(2), of "CObj ms"] ms(1) by simp
  then have "parse_json p = Some (CObj ms)" using assms(4) [of "CObj ms"] ms by (simp add: parse_print)
  moreover have "dec_members [] ms = Some (m_collect [] claims)"
    using enc_dec_id(3) [OF _ _ ms(1), of "[]"] assms(2,3) by simp
  ultimately show ?thesis using m_collect_id [of claims] assms(2) by (simp add: json_any_map_def)
qed

lemma issued_parts:
  assumes "SignES256 key kid claims = Inr token" "kid \<noteq> []" "valid_utf8 kid"
    and "wf_gval (GObj claims)" "text_gval (GObj claims)" "\<And>c. enc_any (GObj claims) = Some c \<Longrightarrow> cdepth c \<le> maxNestingDepth"
    and "on_curve P256 pt" "\<And>d r s. sk_Sign key d = Some (r, s) \<Longrightarrow> ecdsa_Verify \<lparr>ek_curve = P256, ek_point = pt\<rparr> d r s"
  obtains h p s where "token_header token h p s ''ES256'' kid" "split_at CHR ''.'' token = [h, p, s]"
    "\<exists>raw. unb64 h = Some raw \<and> json_struct [''alg''] set_alg raw [] = Some ''ES256''"
    "verify_parts (FromPublic \<lparr>ek_curve = P256, ek_point = pt\<rparr> kid) ''ES256'' h p s = Inr claims"
proof -
  define j where "j = FromPublic \<lparr>ek_curve = P256, ek_point = pt\<rparr> kid"
  obtain h p r s where key: "sk_Curve key = P256" and h: "json_text (jws_header kid) = Some h" and p: "json_text claims = Some p"
    and sg: "sk_Sign key (sha256 (b64 h @ ''.'' @ b64 p)) = Some (r, s)"
    and token: "token = b64 h @ ''.'' @ b64 p @ ''.'' @ b64 (pad (big_Bytes r) 32 @ pad (big_Bytes s) 32)"
    using assms(1) by (auto simp: SignES256_def Let_def split: if_splits option.splits)
  note ok = assms(8) [OF sg]
  have rs: "0 \<le> r" "r < 256 ^ 32" "0 \<le> s" "s < 256 ^ 32"
    using ecdsa_Verify_range [OF ok] P256_bounds(2) by auto
  define sig where "sig = int_be 32 r @ int_be 32 s"
  have tok: "token = b64 h @ ''.'' @ b64 p @ ''.'' @ b64 sig"
    using token rs by (simp add: pad_Bytes sig_def)
  have sp: "split_at CHR ''.'' token = [b64 h, b64 p, b64 sig]"
    unfolding three_parts tok using b64_no_dot by simp
  have hd: "h = print_json (header_cst kid)"
    using h header_members [OF assms(2)] by (simp add: json_text_def header_cst_def)
  have j: "jw_Kty j = ''EC''" "ecPublic j = Some \<lparr>ek_curve = P256, ek_point = pt\<rparr>"
    using published_P256 [OF assms(7), of kid] read_published [OF assms(7), of kid] by (simp_all add: j_def)
  have "be_int (take 32 sig) = r" "be_int (drop 32 sig) = s" using rs by (simp_all add: sig_def be_int_be)
  then have "vouches j ''ES256'' (b64 h @ ''.'' @ b64 p) sig"
    using ok j by (auto simp: vouches_def digestFor_def sig_def)
  then have v: "verify_parts j ''ES256'' (b64 h) (b64 p) (b64 sig) = Inr claims"
    unfolding verify_parts_iff using claims_read [OF p assms(4-6)] by simp
  have th: "token_header token (b64 h) (b64 p) (b64 sig) ''ES256'' kid"
    unfolding token_header_def using sp header_reads(1) [OF assms(3)] hd by simp
  show thesis
    by (rule that [OF th sp]) (use hd header_reads(2) [OF assms(3)] v in \<open>simp_all add: j_def\<close>)
qed

section \<open>Properties\<close>

text \<open>
  C20. Issued tokens are read back. Whatever claims \<open>SignES256\<close> signs under a key and a
  \<^verbatim>\<open>kid\<close>, both verifiers return exactly those claims, \<open>VerifyToken\<close> from any set whose
  first key with that \<^verbatim>\<open>kid\<close> is the one \<open>FromPublic\<close> publishes, \<open>VerifyWith\<close>
  from that key alone. The signer is any that answers only what its public key verifies.
\<close>

theorem SignES256_VerifyToken:
  assumes "SignES256 key kid claims = Inr token" "kid \<noteq> []" "valid_utf8 kid"
    and "wf_gval (GObj claims)" "text_gval (GObj claims)" "\<And>c. enc_any (GObj claims) = Some c \<Longrightarrow> cdepth c \<le> maxNestingDepth"
    and "on_curve P256 pt" "\<And>d r s. sk_Sign key d = Some (r, s) \<Longrightarrow> ecdsa_Verify \<lparr>ek_curve = P256, ek_point = pt\<rparr> d r s"
    and "Find ks kid = Some (FromPublic \<lparr>ek_curve = P256, ek_point = pt\<rparr> kid)"
  shows "VerifyToken token ks = Inr claims \<and> VerifyWith token (FromPublic \<lparr>ek_curve = P256, ek_point = pt\<rparr> kid) = Inr claims"
proof (rule issued_parts [OF assms(1-8)])
  fix h p s
  assume t: "token_header token h p s ''ES256'' kid" "split_at CHR ''.'' token = [h, p, s]"
    "\<exists>raw. unb64 h = Some raw \<and> json_struct [''alg''] set_alg raw [] = Some ''ES256''"
    "verify_parts (FromPublic \<lparr>ek_curve = P256, ek_point = pt\<rparr> kid) ''ES256'' h p s = Inr claims"
  have "VerifyToken token ks = Inr claims" unfolding VerifyToken_iff using t(1,4) assms(9) by blast
  moreover have "VerifyWith token (FromPublic \<lparr>ek_curve = P256, ek_point = pt\<rparr> kid) = Inr claims"
    using t(2-4) by (auto simp: VerifyWith_def)
  ultimately show ?thesis ..
qed

end
