(* ===== verification/Jose_Sample.thy ===== *)
theory Jose_Sample
  imports Jose_Sign
begin

text \<open>
  A key, a token and its signature, evaluated through SHA-256 and the curve: the instance the
  properties of the token verifiers are tried on.
\<close>

section \<open>The modular inverse\<close>

lemma inv_loop_inverts:
  "0 < r0 \<Longrightarrow> 0 \<le> r1 \<Longrightarrow> gcd r0 r1 = 1 \<Longrightarrow> m dvd a * t0 - r0 \<Longrightarrow> m dvd a * t1 - r1 \<Longrightarrow> m dvd a * inv_loop r0 r1 t0 t1 - 1"
proof (induction r0 r1 t0 t1 rule: inv_loop.induct)
  case (1 r0 r1 t0 t1)
  show ?case
  proof (cases "r1 \<le> 0")
    case True
    then have "r1 = 0" "r0 = 1" using 1 by simp_all
    then show ?thesis using 1 True by (simp add: inv_loop.simps)
  next
    case False
    have "a * (t0 - r0 div r1 * t1) - r0 mod r1 = (a * t0 - r0) - (r0 div r1) * (a * t1 - r1)"
      using minus_div_mult_eq_mod [of r0 r1] by (simp add: algebra_simps)
    then have "m dvd a * (t0 - r0 div r1 * t1) - r0 mod r1" using 1 by simp
    moreover have "gcd r1 (r0 mod r1) = 1" using 1(4) by (metis gcd.commute gcd_red_int)
    ultimately have "m dvd a * inv_loop r1 (r0 mod r1) t1 (t0 - r0 div r1 * t1) - 1"
      using 1 False by (intro 1(1)) simp_all
    then show ?thesis using False by (subst inv_loop.simps) simp
  qed
qed

text \<open>The only residue that inverts.\<close>

lemma inv_mod_unique:
  assumes "1 < m" "(a * w) mod m = 1"
  shows "inv_mod m a = w mod m"
proof -
  have m: "m dvd a * w - 1" using assms by (metis mod_eq_dvd_iff mod_pos_pos_trivial zero_le_one)
  have "gcd m (a mod m) dvd 1"
  proof -
    have "gcd m a dvd (a * w) mod m" by (simp add: dvd_mod)
    moreover have "gcd m (a mod m) = gcd m a" by (metis gcd_red_int gcd.commute)
    ultimately show ?thesis using assms(2) by simp
  qed
  then have g: "gcd m (a mod m) = 1" by simp
  have zm: "m dvd (a mod m) * inv_loop m (a mod m) 0 1 - 1"
    by (rule inv_loop_inverts) (use assms(1) g in \<open>simp_all add: \<close>)
  have split: "a * z - 1 = ((a mod m) * z - 1) + m * ((a div m) * z)" for z
  proof -
    define q r where "q = a div m" and "r = a mod m"
    have "a = m * q + r" by (simp add: q_def r_def)
    then show ?thesis unfolding q_def [symmetric] r_def [symmetric] by (simp add: distrib_right)
  qed
  have z: "m dvd a * inv_loop m (a mod m) 0 1 - 1" unfolding split by (rule dvd_add [OF zm dvd_triv_left])
  define z where "z = inv_loop m (a mod m) 0 1"
  have "m dvd z * (a * w - 1) - w * (a * z - 1)" using m z by (simp add: z_def)
  then have "m dvd w - z" by (simp add: algebra_simps)
  then show ?thesis unfolding inv_mod_def z_def [symmetric] mod_eq_dvd_iff by (simp add: dvd_diff_commute)
qed

section \<open>A signature small enough to check by hand\<close>

text \<open>The digest, taken as \<open>r\<close> and \<open>s\<close> both, on the point whose sum with the generator has it as abscissa.\<close>

definition sample_signing :: bytes where
  "sample_signing = ''eyJhbGciOiJFUzI1NiIsImtpZCI6ImsiLCJ0eXAiOiJKV1QifQ.e30''"

definition sample_r :: int where
  "sample_r = 39798035396291266513347975858170793026178035251151773254068961681461478481673"

definition sample_pt :: "int \<times> int" where
  "sample_pt = (43201000970661045086395837280104473364565602087227786910139209266391559689449,
     81204600738088010458459367899273797226010181893783397779972456432344578576475)"

definition sample_pub :: ec_key where "sample_pub = \<lparr>ek_curve = P256, ek_point = sample_pt\<rparr>"

text \<open>The schedule and the sixty-four rounds, sixteen at a time.\<close>

definition sample_ws :: "32 word list" where
  "sample_ws = [1702447720, 1648845673, 1332300358, 1434077489, 1315522931, 1231910000, 1514359094, 1231909737, 1279478320,
   1700282729, 1332300363, 1446072681, 1716596325, 858816512, 0, 432, 3509044747, 2323715514, 3151323103,
   555832337, 980946807, 2141317749, 3892598310, 2661166740, 1189997050, 3251520614, 1183747120, 148441651,
   2743279323, 3214059867, 3953685567, 1151040319, 3905187689, 2750676379, 4067721941, 820054994, 1789768856,
   1430453579, 1253131003, 782968330, 3098946666, 2003016897, 1888227372, 2515376523, 2377208086, 163795976,
   1169432122, 2464979895, 3377628233, 2284360598, 2072712407, 1792340846, 2159069204, 842334471, 852595797,
   1646961767, 2763928784, 1284640663, 472971864, 3316758755, 3866116630, 2745522419, 753182081, 1789175116]"

definition sample_rounds :: "32 sha_state \<Rightarrow> nat \<Rightarrow> 32 sha_state" where
  "sample_rounds st i = foldl (sha_round (sigma3 2 13 22) (sigma3 6 11 25)) st (take 16 (drop i (zip sha256_k sample_ws)))"

lemma sample_schedule:
  "rev (schedule (sigma_shift 7 18 3) (sigma_shift 17 19 10) 48 (rev (take 16 sample_ws))) = sample_ws"
  by code_simp

lemma sample_words: "map be_word (groups 4 16 (pad_block 64 8 sample_signing)) = (take 16 sample_ws :: 32 word list)"
  by code_simp

lemma sample_rounds_0: "sample_rounds sha256_init 0 =
  [2340734695, 3000583476, 3472628170, 1165433575, 3673463414, 1805974104, 3230166187, 2238370690]"
  by code_simp

lemma sample_rounds_1: "sample_rounds [2340734695, 3000583476, 3472628170, 1165433575, 3673463414, 1805974104, 3230166187, 2238370690] 16 =
  [1652001146, 4252115350, 4056955606, 1136024208, 1539195412, 1091753113, 1469667724, 3121673361]"
  by code_simp

lemma sample_rounds_2: "sample_rounds [1652001146, 4252115350, 4056955606, 1136024208, 1539195412, 1091753113, 1469667724, 3121673361] 32 =
  [2497310238, 2777514077, 3129442713, 1430575856, 2352742849, 3131209000, 257527211, 3352511021]"
  by code_simp

lemma sample_rounds_3: "sample_rounds [2497310238, 2777514077, 3129442713, 1430575856, 2352742849, 3131209000, 257527211, 3352511021] 48 =
  [3992124769, 171549276, 4086194430, 2259858821, 2805243113, 2066845348, 4045649712, 1693454832]"
  by code_simp

lemma sample_digest: "sha256 sample_signing = int_be 32 sample_r"
proof -
  have len: "length (pad_block 64 8 sample_signing) = 64" by code_simp
  define kws where "kws = zip sha256_k sample_ws"
  have lk: "length sha256_k = 64" "length kws = 64" by (simp_all add: sha256_k_def kws_def sample_ws_def)
  have "kws = take 16 (drop 0 kws) @ take 16 (drop 16 kws) @ take 16 (drop 32 kws) @ take 16 (drop 48 kws)"
    using lk(2) append_take_drop_id [of 16 kws] append_take_drop_id [of 16 "drop 16 kws"] append_take_drop_id [of 16 "drop 32 kws"]
    by simp
  then have "foldl (sha_round (sigma3 2 13 22) (sigma3 6 11 25)) sha256_init kws =
      sample_rounds (sample_rounds (sample_rounds (sample_rounds sha256_init 0) 16) 32) 48"
    unfolding sample_rounds_def kws_def [symmetric] by (metis foldl_append)
  also have "\<dots> = [3992124769, 171549276, 4086194430, 2259858821, 2805243113, 2066845348, 4045649712, 1693454832]"
    unfolding sample_rounds_0 sample_rounds_1 sample_rounds_2 sample_rounds_3 by (rule refl)
  finally have fin: "foldl (sha_round (sigma3 2 13 22) (sigma3 6 11 25)) sha256_init kws = [3992124769, 171549276, 4086194430, 2259858821, 2805243113, 2066845348, 4045649712, 1693454832]" .
  have "sha256 sample_signing = concat (map (word_be 4) (map2 (+) sha256_init [3992124769, 171549276, 4086194430, 2259858821, 2805243113, 2066845348, 4045649712, 1693454832]))"
    using sample_schedule len lk(1) fin
    by (simp add: sha256_def Let_def sha_block_def sample_words kws_def)
  also have "\<dots> = int_be 32 sample_r" by code_simp
  finally show ?thesis .
qed

lemma ec_mul_one: "ec_mul C 1 P = P"
  by (cases P) (simp_all add: ec_mul.simps [of C 1] ec_mul.simps [of C 0] Let_def ec_add_def)

text \<open>The two inverses it takes, found by the extended Euclid and checked by a product.\<close>

lemma sample_inverse_n: "inv_mod (c_n P256) sample_r = 90816825505357679763023394865935124650457522108082738651483778401720205125117"
proof -
  have "sample_r * 90816825505357679763023394865935124650457522108082738651483778401720205125117 mod c_n P256 = 1"
    by (simp add: P256_def sample_r_def)
  then have "inv_mod (c_n P256) sample_r = 90816825505357679763023394865935124650457522108082738651483778401720205125117 mod c_n P256"
    by (intro inv_mod_unique) (simp_all add: P256_def)
  then show ?thesis by (simp add: P256_def)
qed

lemma sample_inverse_p: "inv_mod (c_p P256) (fst sample_pt - c_gx P256) = 40554847559238537045816216513836976875745267409388570573786913262371037764242"
proof -
  have "(fst sample_pt - c_gx P256) * 40554847559238537045816216513836976875745267409388570573786913262371037764242 mod c_p P256 = 1"
    by (simp add: P256_def sample_pt_def)
  then have "inv_mod (c_p P256) (fst sample_pt - c_gx P256) = 40554847559238537045816216513836976875745267409388570573786913262371037764242 mod c_p P256"
    by (intro inv_mod_unique) (simp_all add: P256_def)
  then show ?thesis by (simp add: P256_def)
qed

lemma ec_add_slope:
  "x1 \<noteq> x2 \<Longrightarrow> (y2 - y1) * inv_mod (c_p C) (x2 - x1) mod c_p C = l \<Longrightarrow>
     ec_add C (Some (x1, y1)) (Some (x2, y2)) =
       Some ((l * l - x1 - x2) mod c_p C, (l * (x1 - (l * l - x1 - x2) mod c_p C) - y1) mod c_p C)"
  by (simp add: ec_add_def Let_def)

definition sample_l :: int where
  "sample_l = 72816995387314911517113784463830106909410055140147113153456143225045754305201"

lemma sample_slope: "(snd sample_pt - c_gy P256) * inv_mod (c_p P256) (fst sample_pt - c_gx P256) mod c_p P256 = sample_l"
  unfolding sample_inverse_p by (simp add: P256_def sample_pt_def sample_l_def)

lemma sample_abscissa: "(sample_l * sample_l - c_gx P256 - fst sample_pt) mod c_p P256 = sample_r"
  by (simp add: P256_def sample_pt_def sample_l_def sample_r_def)

lemma sample_sum: "\<exists>y. ec_add P256 (Some (c_gx P256, c_gy P256)) (Some sample_pt) = Some (sample_r, y)"
proof -
  have pt: "sample_pt = (fst sample_pt, snd sample_pt)" by simp
  have "c_gx P256 \<noteq> fst sample_pt" by (simp add: P256_def sample_pt_def)
  from ec_add_slope [OF this sample_slope] sample_abscissa pt show ?thesis by metis
qed

lemma sample_on_curve: "on_curve P256 sample_pt"
proof -
  have "snd sample_pt * snd sample_pt - (fst sample_pt * fst sample_pt * fst sample_pt - 3 * fst sample_pt + c_b P256) =
      - (c_p P256 * 696309850130080982137064946299888448387034172810640487579995131919819372575831348488875950881191745711738932878925743775446960367303499676719773181599568)"
    by (simp add: P256_def sample_pt_def)
  then have "(snd sample_pt * snd sample_pt - (fst sample_pt * fst sample_pt * fst sample_pt - 3 * fst sample_pt + c_b P256)) mod c_p P256 = 0"
    by simp
  moreover have "0 \<le> fst sample_pt" "fst sample_pt < c_p P256" "0 \<le> snd sample_pt" "snd sample_pt < c_p P256"
    by (simp_all add: P256_def sample_pt_def)
  ultimately show ?thesis unfolding on_curve_def case_prod_beta by blast
qed

lemma sample_hash: "hash_int P256 (int_be 32 sample_r) = sample_r"
proof -
  have "be_int (int_be 32 sample_r) = sample_r" by (rule be_int_be) (simp_all add: sample_r_def)
  then show ?thesis by (simp add: hash_int_def Let_def P256_def)
qed

lemma sample_verifies: "ecdsa_Verify sample_pub (int_be 32 sample_r) sample_r sample_r"
proof -
  have one: "sample_r * inv_mod (c_n P256) sample_r mod c_n P256 = 1"
    unfolding sample_inverse_n by (simp add: sample_r_def P256_def)
  have range: "0 < sample_r" "sample_r < c_n P256" by (simp_all add: sample_r_def P256_def)
  obtain y where y: "ec_add P256 (Some (c_gx P256, c_gy P256)) (Some sample_pt) = Some (sample_r, y)" using sample_sum by blast
  show ?thesis
    unfolding ecdsa_Verify_def Let_def sample_pub_def ec_key.simps sample_hash one ec_mul_one y
    using range sample_on_curve by simp
qed

section \<open>The issued token\<close>

definition sample_key :: ec_private where
  "sample_key = \<lparr>sk_Curve = P256, sk_Sign = (\<lambda>d. if d = int_be 32 sample_r then Some (sample_r, sample_r) else None)\<rparr>"

definition sample_token :: string where
  "sample_token = sample_signing @ ''.'' @ b64 (pad (big_Bytes sample_r) 32 @ pad (big_Bytes sample_r) 32)"

lemma sample_issued: "SignES256 sample_key ''k'' [] = Inr sample_token"
proof -
  obtain h p where hp: "json_text (jws_header ''k'') = Some h" "json_text [] = Some p"
    by (auto simp: json_text_def jws_header_def)
  moreover have "b64 (the (json_text (jws_header ''k''))) @ ''.'' @ b64 (the (json_text [])) = sample_signing" by code_simp
  ultimately have "b64 h @ ''.'' @ b64 p = sample_signing" by simp
  with hp sample_digest show ?thesis by (simp add: SignES256_def sample_key_def Let_def sample_token_def)
qed

lemma sample_hypotheses:
  "valid_utf8 ''k''" "wf_gval (GObj [])" "text_gval (GObj [])" "enc_any (GObj []) = Some c \<Longrightarrow> cdepth c \<le> maxNestingDepth"
  "sk_Sign sample_key d = Some (r, s) \<Longrightarrow> ecdsa_Verify \<lparr>ek_curve = P256, ek_point = sample_pt\<rparr> d r s"
  using sample_verifies
  by (auto simp: ascii_valid ascii_def wf_map_def m_keys_def sample_key_def sample_pub_def maxNestingDepth_def split: if_splits)

lemma sample_accepted: "VerifyToken sample_token [FromPublic sample_pub ''k''] = Inr []"
proof (rule issued_parts [OF sample_issued _ sample_hypotheses(1-4) sample_on_curve sample_hypotheses(5)])
  fix h p s
  assume t: "token_header sample_token h p s ''ES256'' ''k''"
    "verify_parts (FromPublic \<lparr>ek_curve = P256, ek_point = sample_pt\<rparr> ''k'') ''ES256'' h p s = Inr []"
  have "Find [FromPublic sample_pub ''k''] ''k'' = Some (FromPublic sample_pub ''k'')"
    using published_P256 [OF sample_on_curve, of "''k''"] by (simp add: sample_pub_def)
  with t show "VerifyToken sample_token [FromPublic sample_pub ''k''] = Inr []"
    unfolding VerifyToken_iff sample_pub_def by blast
qed simp_all

theorem SignES256_VerifyToken_witness:
  "VerifyToken sample_token [FromPublic \<lparr>ek_curve = P256, ek_point = sample_pt\<rparr> ''k''] = Inr []"
  by (rule SignES256_VerifyToken [OF sample_issued _ sample_hypotheses(1-4) sample_on_curve sample_hypotheses(5), THEN conjunct1])
    (simp_all add: published_P256 [OF sample_on_curve])

theorem accepted_bounds_witness:
  "\<exists>h p s header alg sig. sample_token = h @ ''.'' @ p @ ''.'' @ s \<and> CHR ''.'' \<notin> set (h @ p @ s) \<and> unb64 s = Some sig \<and>
    unb64 h = Some header \<and> json_struct [''alg'', ''kid''] set_alg_kid header ([], []) = Some (alg, ''k'') \<and>
    ec_bounds (FromPublic sample_pub ''k'') alg sig"
proof -
  have k: "Find [FromPublic sample_pub ''k''] x = Some j \<longleftrightarrow> x = ''k'' \<and> j = FromPublic sample_pub ''k''" for x j
    using published_P256 [OF sample_on_curve, of "''k''"] by (auto simp: sample_pub_def)
  have "jw_Kty (FromPublic sample_pub ''k'') = ''EC''" "jw_Kid (FromPublic sample_pub ''k'') = ''k''"
    using published_P256 [OF sample_on_curve, of "''k''"] by (simp_all add: sample_pub_def)
  with accepted_bounds [OF sample_accepted] show ?thesis unfolding k by auto
qed

end
