(* ===== verification/Jose_Thumb.thy ===== *)
theory Jose_Thumb
  imports Jose_Sample Tamper
begin

text \<open>
  What a thumbprint binds: the members a verifier computes with, and no others. The text that is
  hashed determines them, because a quoted member ends at its closing quote.
\<close>

section \<open>Quoting the text of a key\<close>

definition key_text :: "string \<Rightarrow> bool" where
  "key_text s \<longleftrightarrow> list_all (\<lambda>c. c = CHR 0x0A \<or> c = CHR 0x0D \<or> b64_value c \<noteq> None) s"

definition quote_char :: "char \<Rightarrow> string" where
  "quote_char c = (if c = CHR 0x0A then CHR 0x5C # ''n'' else if c = CHR 0x0D then CHR 0x5C # ''r'' else [c])"

lemma b64_values_text: "b64_values s = Some vs \<Longrightarrow> key_text s"
  by (induction s arbitrary: vs) (auto simp: key_text_def split: if_splits option.splits)

lemma unb64_text: "unb64 s = Some bs \<Longrightarrow> key_text s"
  by (auto simp: unb64_def b64_decode_def b64_values_text split: option.splits)

lemma b64_value_range: "b64_value c \<noteq> None \<Longrightarrow> 45 \<le> (of_char c :: nat) \<and> (of_char c :: nat) \<le> 122 \<and> (of_char c :: nat) \<noteq> 92"
  by (auto simp: b64_value_def Let_def split: if_splits)

lemma quote_one: "key_text [c] \<Longrightarrow> quote_rune lib [c] = quote_char c \<and> (of_char c :: nat) < 128"
proof -
  assume k: "key_text [c]"
  consider "c = CHR 0x0A" | "c = CHR 0x0D" | "b64_value c \<noteq> None" "c \<noteq> CHR 0x0A" "c \<noteq> CHR 0x0D"
    using k by (auto simp: key_text_def)
  then show ?thesis
  proof cases
    case 3
    have r: "45 \<le> (of_char c :: nat)" "(of_char c :: nat) \<le> 122" "(of_char c :: nat) \<noteq> 92" using b64_value_range [OF 3(1)] by auto
    then have "quote_rune lib [c] = [c]" by (simp add: quote_rune_def rune_value_def Let_def)
    with 3 r show ?thesis by (simp add: quote_char_def)
  qed (simp_all add: quote_rune_def rune_value_def Let_def quote_char_def)
qed

lemma quote_text: "key_text s \<Longrightarrow> quote_runes lib s = concat (map quote_char s)"
proof (induction s)
  case (Cons c s)
  have c: "key_text [c]" "key_text s" using Cons.prems by (simp_all add: key_text_def)
  have "utf8_len (c # s) = 1" using quote_one [OF c(1)] by (simp add: utf8_len_ascii)
  then have "quote_runes lib (c # s) = quote_rune lib [c] @ quote_runes lib s"
    by (subst quote_runes.simps) simp
  with Cons.IH [OF c(2)] quote_one [OF c(1)] show ?case by simp
qed (subst quote_runes.simps, simp)

lemma quote_char_head: "key_text [c] \<Longrightarrow> \<exists>h t. quote_char c = h # t \<and> h \<noteq> CHR 0x22 \<and>
    (h = CHR 0x5C \<and> (t = ''n'' \<and> c = CHR 0x0A \<or> t = ''r'' \<and> c = CHR 0x0D) \<or> h \<noteq> CHR 0x5C \<and> t = [] \<and> h = c)"
proof -
  assume k: "key_text [c]"
  have "b64_value (CHR 0x22) = None" "b64_value (CHR 0x5C) = None" by (simp_all add: b64_value_def)
  with k show ?thesis by (auto simp: key_text_def quote_char_def)
qed

lemma quote_inj:
  "key_text s \<Longrightarrow> key_text s' \<Longrightarrow> concat (map quote_char s) @ CHR 0x22 # t = concat (map quote_char s') @ CHR 0x22 # t' \<Longrightarrow>
     s = s' \<and> t = t'"
proof (induction s arbitrary: s')
  case Nil
  show ?case
  proof (cases s')
    case (Cons c cs)
    with Nil(2) have "key_text [c]" by (simp add: key_text_def)
    with quote_char_head [OF this] Nil(3) Cons show ?thesis by auto
  qed (use Nil in simp)
next
  case (Cons c s)
  have c: "key_text [c]" "key_text s" using Cons.prems by (simp_all add: key_text_def)
  show ?case
  proof (cases s')
    case Nil
    with quote_char_head [OF c(1)] Cons.prems(3) show ?thesis by auto
  next
    case s': (Cons d ds)
    have d: "key_text [d]" "key_text ds" using Cons.prems(2) s' by (simp_all add: key_text_def)
    have "c = d \<and> concat (map quote_char s) @ CHR 0x22 # t = concat (map quote_char ds) @ CHR 0x22 # t'"
      using quote_char_head [OF c(1)] quote_char_head [OF d(1)] Cons.prems(3) s' by auto
    with Cons.IH [OF c(2) d(2)] s' show ?thesis by blast
  qed
qed

lemma Quote_inj:
  "key_text s \<Longrightarrow> key_text s' \<Longrightarrow> Quote lib s @ t = Quote lib s' @ t' \<Longrightarrow> s = s' \<and> t = t'"
  using quote_inj [of s s' t t'] by (simp add: Quote_def quote_text)

section \<open>The text that is hashed\<close>

definition usable :: "JWK \<Rightarrow> bool" where
  "usable j \<longleftrightarrow> jw_Kty j = ''EC'' \<and> ecPublic j \<noteq> None \<or> jw_Kty j = ''RSA'' \<and> rsaPublic j \<noteq> None"

lemma literal_curves: "key_text ''P-256''" "key_text ''P-384''"
  by (simp_all add: key_text_def b64_value_def)

lemma ecPublic_text: "ecPublic j = Some pub \<Longrightarrow> key_text (jw_Crv j) \<and> key_text (jw_X j) \<and> key_text (jw_Y j)"
proof -
  assume e: "ecPublic j = Some pub"
  then have "jw_Crv j = ''P-256'' \<or> jw_Crv j = ''P-384''" by (auto simp: ecPublic_def split: if_splits)
  then have "key_text (jw_Crv j)" using literal_curves by auto
  moreover have "unb64 (jw_X j) \<noteq> None" "unb64 (jw_Y j) \<noteq> None"
    using e by (auto simp: ecPublic_def split: if_splits option.splits)
  ultimately show ?thesis using unb64_text by auto
qed

lemma rsaPublic_text: "rsaPublic j = Some pub \<Longrightarrow> key_text (jw_N j) \<and> key_text (jw_E j)"
  using unb64_text by (auto simp: rsaPublic_def split: option.splits if_splits)

lemma thumb_input_inj:
  assumes "usable j" "usable k" "thumb_input lib j = thumb_input lib k"
  shows "jw_Kty j = jw_Kty k \<and>
    (if jw_Kty j = ''EC'' then jw_Crv j = jw_Crv k \<and> jw_X j = jw_X k \<and> jw_Y j = jw_Y k else jw_N j = jw_N k \<and> jw_E j = jw_E k)"
proof -
  consider (ec) "jw_Kty j = ''EC''" "jw_Kty k = ''EC''" | (rsa) "jw_Kty j = ''RSA''" "jw_Kty k = ''RSA''"
    | (mixed) "jw_Kty j = ''EC'' \<and> jw_Kty k = ''RSA'' \<or> jw_Kty j = ''RSA'' \<and> jw_Kty k = ''EC''"
    using assms(1,2) unfolding usable_def by blast
  then show ?thesis
  proof cases
    case ec
    have t: "key_text (jw_Crv j)" "key_text (jw_X j)" "key_text (jw_Y j)" "key_text (jw_Crv k)" "key_text (jw_X k)" "key_text (jw_Y k)"
      using assms(1,2) ec ecPublic_text by (auto simp: usable_def)
    define w where "w = (\<lambda>j :: JWK. [CHR '','', CHR 0x22] @ ''y'' @ [CHR 0x22, CHR '':''] @ Quote lib (jw_Y j) @ ''}'')"
    define v where "v = (\<lambda>j :: JWK. [CHR '','', CHR 0x22] @ ''kty'' @ [CHR 0x22, CHR '':'', CHR 0x22] @ ''EC'' @ [CHR 0x22, CHR '','', CHR 0x22] @
          ''x'' @ [CHR 0x22, CHR '':''] @ Quote lib (jw_X j) @ w j)"
    have "Quote lib (jw_Crv j) @ v j = Quote lib (jw_Crv k) @ v k"
      using assms(3) ec by (simp add: thumb_input_def v_def w_def)
    from Quote_inj [OF t(1,4) this] have 1: "jw_Crv j = jw_Crv k" "v j = v k" by simp_all
    then have "Quote lib (jw_X j) @ w j = Quote lib (jw_X k) @ w k" by (simp add: v_def)
    from Quote_inj [OF t(2,5) this] have 2: "jw_X j = jw_X k" "w j = w k" by simp_all
    then have "Quote lib (jw_Y j) @ [] = Quote lib (jw_Y k) @ []" by (simp add: w_def)
    from Quote_inj [OF t(3,6) this] 1 2 ec show ?thesis by simp
  next
    case rsa
    have t: "key_text (jw_E j)" "key_text (jw_N j)" "key_text (jw_E k)" "key_text (jw_N k)"
      using assms(1,2) rsa rsaPublic_text by (auto simp: usable_def)
    define v where "v = (\<lambda>j :: JWK. [CHR '','', CHR 0x22] @ ''kty'' @ [CHR 0x22, CHR '':'', CHR 0x22] @ ''RSA'' @ [CHR 0x22, CHR '','', CHR 0x22] @
          ''n'' @ [CHR 0x22, CHR '':''] @ Quote lib (jw_N j) @ ''}'')"
    have "Quote lib (jw_E j) @ v j = Quote lib (jw_E k) @ v k"
      using assms(3) rsa by (simp add: thumb_input_def v_def)
    from Quote_inj [OF t(1,3) this] have 1: "jw_E j = jw_E k" "v j = v k" by simp_all
    then have "Quote lib (jw_N j) @ [] = Quote lib (jw_N k) @ []" by (simp add: v_def)
    from Quote_inj [OF t(2,4) this] 1 rsa show ?thesis by simp
  next
    case mixed
    with assms(3) show ?thesis by (auto simp: thumb_input_def)
  qed
qed

text \<open>
  C21. A thumbprint binds the key and only the key. The members that do not belong to the key -
  \<^verbatim>\<open>kid\<close>, \<^verbatim>\<open>use\<close>, \<^verbatim>\<open>alg\<close> - do not change it; and two keys a verifier could
  compute with that have the same thumbprint are the same public key, member for member, unless
  the two texts that were hashed are a collision of SHA-256.
\<close>

theorem thumbprint_binds:
  assumes "usable j" "usable k" "Thumbprint lib j = Thumbprint lib k"
  shows "Thumbprint lib (j\<lparr>jw_Kid := a, jw_Use := b, jw_Alg := c\<rparr>) = Thumbprint lib j \<and>
    (sha256_collision (the (thumb_input lib j)) (the (thumb_input lib k)) \<or>
     jw_Kty j = jw_Kty k \<and> (if jw_Kty j = ''EC'' then ecPublic j = ecPublic k else rsaPublic j = rsaPublic k))"
proof -
  have "thumb_input lib (j\<lparr>jw_Kid := a, jw_Use := b, jw_Alg := c\<rparr>) = thumb_input lib j" by (simp add: thumb_input_def)
  then have 1: "Thumbprint lib (j\<lparr>jw_Kid := a, jw_Use := b, jw_Alg := c\<rparr>) = Thumbprint lib j" by (simp add: Thumbprint_def)
  obtain x y where xy: "thumb_input lib j = Some x" "thumb_input lib k = Some y"
    using assms(1,2) unfolding usable_def thumb_input_def by fastforce
  then have "sha256 x = sha256 y" using assms(3) by (simp add: Thumbprint_def b64_inj)
  then have "sha256_collision x y \<or> thumb_input lib j = thumb_input lib k" using xy by (auto simp: sha256_collision_def)
  moreover have "jw_Kty j = jw_Kty k \<and> (if jw_Kty j = ''EC'' then ecPublic j = ecPublic k else rsaPublic j = rsaPublic k)"
    if "thumb_input lib j = thumb_input lib k"
  proof (cases "jw_Kty j = ''EC''")
    case True
    with thumb_input_inj [OF assms(1,2) that] have "jw_Kty j = jw_Kty k" "jw_Crv j = jw_Crv k" "jw_X j = jw_X k" "jw_Y j = jw_Y k" by simp_all
    with True show ?thesis by (simp only: ecPublic_def if_True simp_thms)
  next
    case False
    with thumb_input_inj [OF assms(1,2) that] have "jw_Kty j = jw_Kty k" "jw_N j = jw_N k" "jw_E j = jw_E k" by simp_all
    with False show ?thesis by (simp only: rsaPublic_def if_False simp_thms)
  qed
  ultimately show ?thesis using 1 xy by auto
qed

definition plain_lib :: go_lib where
  "plain_lib = \<lparr>gl_int64 = (\<lambda>_. minInt64), gl_Parse = (\<lambda>_. None), gl_EqualFold = (=), gl_IsPrint = (\<lambda>_. True)\<rparr>"

theorem thumbprint_binds_witness:
  "Thumbprint plain_lib ((FromPublic sample_pub ''k'')\<lparr>jw_Kid := ''other'', jw_Use := [], jw_Alg := []\<rparr>) =
     Thumbprint plain_lib (FromPublic sample_pub ''k'')"
proof -
  have "usable (FromPublic sample_pub ''k'')"
    using read_published [OF sample_on_curve, of "''k''"] published_P256 [OF sample_on_curve, of "''k''"]
    by (simp add: usable_def sample_pub_def)
  from thumbprint_binds [OF this this refl] show ?thesis by blast
qed

end
