(* ===== verification/Dpop.thy ===== *)
theory Dpop
  imports Jose Replay
begin

text \<open>
  delegation/dpop.go: the sender-constraint proof of RFC 9449. What a proof establishes before
  anything remembers it is \<open>verifyProof\<close>; the memories are those of theory \<open>Replay\<close>.
\<close>

section \<open>Reading claims\<close>

definition str_claim :: "(string \<times> gval) list \<Rightarrow> string \<Rightarrow> string" where
  "str_claim claims n = (case map_of claims n of Some (GStr s) \<Rightarrow> s | _ \<Rightarrow> [])"

definition numeric :: "go_lib \<Rightarrow> gval option \<Rightarrow> int option" where
  "numeric lib v = (case v of Some (GNum t) \<Rightarrow> map_option (f64_int64 (gl_int64 lib)) (f64_parse t) | _ \<Rightarrow> None)"

section \<open>The request\<close>

definition trim_url :: "bytes \<Rightarrow> bytes" where
  "trim_url u = takeWhile (\<lambda>c. c \<noteq> CHR ''?'' \<and> c \<noteq> CHR ''#'') u"

definition lower_ascii :: "char \<Rightarrow> char" where
  "lower_ascii c = (let n = (of_char c :: nat) in if 65 \<le> n \<and> n \<le> 90 then char_of (n + 32) else c)"

definition EqualFold :: "go_lib \<Rightarrow> bytes \<Rightarrow> bytes \<Rightarrow> bool" where
  "EqualFold lib s t = (if ascii s \<and> ascii t then map lower_ascii s = map lower_ascii t else gl_EqualFold lib s t)"

definition parsed_url :: "go_lib \<Rightarrow> bytes \<Rightarrow> url option" where
  "parsed_url lib u =
     (case gl_Parse lib (trim_url u) of
        None \<Rightarrow> None
      | Some p \<Rightarrow> if u_Scheme p = [] \<or> u_Host p = [] then None else Some p)"

definition sameURL :: "go_lib \<Rightarrow> bytes \<Rightarrow> bytes \<Rightarrow> bool" where
  "sameURL lib a b =
     (case (parsed_url lib a, parsed_url lib b) of
        (Some pa, Some pb) \<Rightarrow>
          EqualFold lib (u_Scheme pa) (u_Scheme pb) \<and> EqualFold lib (u_Host pa) (u_Host pb) \<and>
          u_EscapedPath pa = u_EscapedPath pb
      | _ \<Rightarrow> False)"

section \<open>The proof\<close>

text \<open>The header: its type, its algorithm and the key, kept as the value it is.\<close>

record dpop_header =
  dh_Typ :: string
  dh_Alg :: string
  dh_JWK :: "cst option"

definition set_dpop_header :: "dpop_header setter" where
  "set_dpop_header n c h =
     (if n = ''typ'' then map_option (\<lambda>s. h\<lparr>dh_Typ := s\<rparr>) (set_string c (dh_Typ h))
      else if n = ''alg'' then map_option (\<lambda>s. h\<lparr>dh_Alg := s\<rparr>) (set_string c (dh_Alg h))
      else if n = ''jwk'' then Some (h\<lparr>dh_JWK := Some c\<rparr>)
      else Some h)"

definition read_dpop_header :: "bytes \<Rightarrow> dpop_header option" where
  "read_dpop_header raw =
     json_struct [''typ'', ''alg'', ''jwk''] set_dpop_header raw \<lparr>dh_Typ = [], dh_Alg = [], dh_JWK = None\<rparr>"

definition private_members :: "string list" where
  "private_members = [''d'', ''p'', ''q'', ''dp'', ''dq'', ''qi'', ''k'']"

definition hasPrivateMember :: "cst \<Rightarrow> bool" where
  "hasPrivateMember c =
     (case c of
        CNull \<Rightarrow> False
      | CObj ms \<Rightarrow> \<exists>m \<in> set private_members. m \<in> (\<lambda>(raw, v). dec_str raw) ` set ms
      | _ \<Rightarrow> True)"

definition read_jwk :: "cst \<Rightarrow> JWK option" where
  "read_jwk c =
     (case c of
        CNull \<Rightarrow> Some zero_JWK
      | CObj ms \<Rightarrow> (case dec_struct jwk_names set_jwk ms zero_JWK of (j, ok) \<Rightarrow> if ok then Some j else None)
      | _ \<Rightarrow> None)"

record presentedProof =
  pp_thumb :: string
  pp_jti :: string
  pp_ath :: string
  pp_iat :: gtime

text \<open>The claims against the request: method, URL, moment, identifier.\<close>

definition check_claims :: "go_lib \<Rightarrow> (string \<times> gval) list \<Rightarrow> string \<Rightarrow> bytes \<Rightarrow> gtime \<Rightarrow> string \<Rightarrow>
    deleg_error + presentedProof" where
  "check_claims lib claims method url now thumb =
     (if str_claim claims ''htm'' \<noteq> method then Inl ErrBinding
      else if \<not> sameURL lib (str_claim claims ''htu'') url then Inl ErrBinding
      else case numeric lib (map_of claims ''iat'') of
          None \<Rightarrow> Inl ErrStale
        | Some iat \<Rightarrow>
            if stale now (time_of_unix iat) then Inl ErrStale
            else if str_claim claims ''jti'' = [] then Inl ErrReplay
            else Inr \<lparr>pp_thumb = thumb, pp_jti = str_claim claims ''jti'', pp_ath = str_claim claims ''ath'',
                   pp_iat = time_of_unix iat\<rparr>)"

definition verifyProof :: "go_lib \<Rightarrow> string \<Rightarrow> string \<Rightarrow> bytes \<Rightarrow> gtime \<Rightarrow> deleg_error + presentedProof" where
  "verifyProof lib proof_jws method url now =
     (case split_at CHR ''.'' proof_jws of
        [h, p, s] \<Rightarrow>
          (case unb64 h of
             None \<Rightarrow> Inl ErrSignature
           | Some rawHeader \<Rightarrow>
               (case read_dpop_header rawHeader of
                  None \<Rightarrow> Inl ErrSignature
                | Some hdr \<Rightarrow>
                    if dh_Typ hdr \<noteq> ''dpop+jwt'' then Inl ErrSignature
                    else case dh_JWK hdr of
                        None \<Rightarrow> Inl ErrNoKey
                      | Some c \<Rightarrow>
                          if hasPrivateMember c then Inl ErrPrivate
                          else case read_jwk c of
                              None \<Rightarrow> Inl ErrSignature
                            | Some key \<Rightarrow>
                                (case Thumbprint lib key of
                                   Inl e \<Rightarrow> Inl ErrSignature
                                 | Inr thumb \<Rightarrow>
                                     (case VerifyWith proof_jws key of
                                        Inl e \<Rightarrow> Inl ErrSignature
                                      | Inr claims \<Rightarrow> check_claims lib claims method url now thumb))))
      | _ \<Rightarrow> Inl ErrSignature)"

definition Verifier_Check :: "go_lib \<Rightarrow> Verifier \<Rightarrow> string \<Rightarrow> string \<Rightarrow> bytes \<Rightarrow> gtime \<Rightarrow> Verifier \<times> (deleg_error + string)" where
  "Verifier_Check lib v proof_jws method url now =
     (case verifyProof lib proof_jws method url now of
        Inl err \<Rightarrow> (v, Inl err)
      | Inr p \<Rightarrow>
          (case remember v (pp_jti p) (pp_iat p) now of
             (v, Some err) \<Rightarrow> (v, Inl err)
           | (v, None) \<Rightarrow> (v, Inr (pp_thumb p))))"

section \<open>What an accepted proof is\<close>

text \<open>The key a proof carries, its claims, and the signature of the one over the other.\<close>

definition proof_of :: "string \<Rightarrow> JWK \<Rightarrow> (string \<times> gval) list \<Rightarrow> bool" where
  "proof_of proof_jws key claims \<longleftrightarrow>
     (\<exists>h p s raw hdr c. split_at CHR ''.'' proof_jws = [h, p, s] \<and> unb64 h = Some raw \<and> read_dpop_header raw = Some hdr \<and>
        dh_Typ hdr = ''dpop+jwt'' \<and> dh_JWK hdr = Some c \<and> \<not> hasPrivateMember c \<and> read_jwk c = Some key) \<and>
     VerifyWith proof_jws key = Inr claims"

lemma check_claims_iff:
  "check_claims lib claims method url now thumb = Inr p \<longleftrightarrow>
     (\<exists>iat. str_claim claims ''htm'' = method \<and> sameURL lib (str_claim claims ''htu'') url \<and>
        numeric lib (map_of claims ''iat'') = Some iat \<and> \<not> stale now (time_of_unix iat) \<and> str_claim claims ''jti'' \<noteq> [] \<and>
        p = \<lparr>pp_thumb = thumb, pp_jti = str_claim claims ''jti'', pp_ath = str_claim claims ''ath'', pp_iat = time_of_unix iat\<rparr>)"
  by (auto simp: check_claims_def split: option.splits if_splits)

lemma verifyProof_iff:
  "verifyProof lib proof_jws method url now = Inr p \<longleftrightarrow>
     (\<exists>key claims thumb. proof_of proof_jws key claims \<and> Thumbprint lib key = Inr thumb \<and>
        check_claims lib claims method url now thumb = Inr p)"
  (is "?l \<longleftrightarrow> ?r")
proof
  assume ?l
  then obtain h q s raw hdr c key thumb claims where
    "split_at CHR ''.'' proof_jws = [h, q, s]" "unb64 h = Some raw" "read_dpop_header raw = Some hdr"
    "dh_Typ hdr = ''dpop+jwt''" "dh_JWK hdr = Some c" "\<not> hasPrivateMember c" "read_jwk c = Some key"
    and t: "Thumbprint lib key = Inr thumb" "VerifyWith proof_jws key = Inr claims" "check_claims lib claims method url now thumb = Inr p"
    by (simp add: verifyProof_def split: list.splits option.splits if_splits sum.splits)
  then have "proof_of proof_jws key claims" unfolding proof_of_def by blast
  with t show ?r by blast
next
  assume ?r
  then show ?l unfolding proof_of_def verifyProof_def by (elim exE conjE) simp
qed

end
