(* ===== verification/Agent_Token.thy ===== *)
theory Agent_Token
  imports Dpop
begin

text \<open>
  delegation/access.go, what both verifiers read: the \<^verbatim>\<open>typ\<close> of a token's header, read
  before anything is verified, which decides the verifier; the audience, the confirmation key and
  the numbers of the claims, from verify.go and access.go.
\<close>

section \<open>Which verifier\<close>

definition AgentTokenTyp :: string where
  "AgentTokenTyp = ''at+jwt''"

definition set_typ :: "string setter" where
  "set_typ n c typ = set_string c typ"

definition headerTyp :: "string \<Rightarrow> string option" where
  "headerTyp token =
     (case split_at CHR ''.'' token of
        [h, p, s] \<Rightarrow> (case unb64 h of None \<Rightarrow> None | Some raw \<Rightarrow> json_struct [''typ''] set_typ raw [])
      | _ \<Rightarrow> None)"

definition IsAgentToken :: "string \<Rightarrow> bool" where
  "IsAgentToken token \<longleftrightarrow> headerTyp token = Some AgentTokenTyp"

section \<open>Claims\<close>

definition confirmationKey :: "(string \<times> gval) list \<Rightarrow> string" where
  "confirmationKey claims = (case map_of claims ''cnf'' of Some (GObj cnf) \<Rightarrow> str_claim cnf ''jkt'' | _ \<Rightarrow> [])"

definition audienceHas :: "gval option \<Rightarrow> string \<Rightarrow> bool" where
  "audienceHas aud want =
     (case aud of
        Some (GStr v) \<Rightarrow> v = want
      | Some (GArr v) \<Rightarrow> GStr want \<in> set v
      | _ \<Rightarrow> False)"

definition asUnix :: "go_lib \<Rightarrow> gval option \<Rightarrow> int option" where
  "asUnix lib v = (case v of Some (GNum t) \<Rightarrow> map_option (f64_int64 (gl_int64 lib)) (f64_parse t) | _ \<Rightarrow> None)"

text \<open>A double with no fraction, and one that fits in 64 bits: no conversion is left to the platform.\<close>

definition f64_whole :: "bool \<times> nat \<times> int \<Rightarrow> bool" where
  "f64_whole x = (case x of (neg, v) \<Rightarrow> case f64_fraction v of (n, d) \<Rightarrow> n mod d = 0)"

definition wholeSecond :: "gval option \<Rightarrow> int option" where
  "wholeSecond v =
     (case v of
        Some (GNum t) \<Rightarrow>
          (case f64_parse t of
             None \<Rightarrow> None
           | Some f \<Rightarrow> if \<not> f64_whole f \<or> \<not> is_int64 (f64_trunc f) then None else Some (f64_trunc f))
      | _ \<Rightarrow> None)"

definition optionalString :: "(string \<times> gval) list \<Rightarrow> string \<Rightarrow> string option" where
  "optionalString claims name =
     (case map_of claims name of None \<Rightarrow> Some [] | Some (GStr s) \<Rightarrow> Some s | _ \<Rightarrow> None)"

definition saturatingAdd :: "int \<Rightarrow> int \<Rightarrow> int" where
  "saturatingAdd a b =
     (let s = wrap64 (a + b) in
      if b > 0 \<and> s < a then maxInt64 else if b < 0 \<and> s > a then minInt64 else s)"

lemma saturatingAdd_clamp:
  assumes "is_int64 a" "is_int64 b"
  shows "saturatingAdd a b = clamp64 (a + b)"
proof -
  have r: "minInt64 \<le> a" "a \<le> maxInt64" "minInt64 \<le> b" "b \<le> maxInt64" using assms by (simp_all add: is_int64_def)
  have e: "minInt64 = - (2 ^ 63)" "maxInt64 = 2 ^ 63 - 1" by (simp_all add: minInt64_def maxInt64_def)
  consider (up) "maxInt64 < a + b" | (down) "a + b < minInt64" | (fits) "is_int64 (a + b)"
    unfolding is_int64_def by linarith
  then show ?thesis
  proof cases
    case up
    then have "wrap64 (a + b) = a + b - 2 ^ 64" by (rule wrap64_over) (use r in \<open>simp add: e\<close>)
    with up r e show ?thesis by (simp add: saturatingAdd_def Let_def clamp64_def)
  next
    case down
    then have "wrap64 (a + b) = a + b + 2 ^ 64" by (rule wrap64_under) (use r in \<open>simp add: e\<close>)
    with down r e show ?thesis by (simp add: saturatingAdd_def Let_def clamp64_def)
  next
    case fits
    then show ?thesis by (auto simp: saturatingAdd_def Let_def wrap64_id clamp64_def is_int64_def)
  qed
qed

lemma wholeSecond_int64: "wholeSecond v = Some n \<Longrightarrow> is_int64 n"
  by (auto simp: wholeSecond_def split: option.splits gval.splits if_splits)

end
