(* ===== verification/Verify.thy ===== *)
theory Verify
  imports Agent_Token Revocations
begin

text \<open>
  delegation/verify.go: the offline check of a delegation token - shape, signature, issuer,
  audience, expiry, binding, chain, revocation, in that order. The replay memory is the state; the
  revocation hook may keep a state of its own, \<open>'w\<close>.
\<close>

section \<open>What a caller holds and what it gets\<close>

type_synonym 'w hook = "string \<Rightarrow> string \<Rightarrow> int \<Rightarrow> 'w \<Rightarrow> bool \<times> 'w"

record Verified =
  vf_Subject :: string
  vf_Actors :: "string list"
  vf_Chain :: "string list"
  vf_JKT :: string
  vf_JTI :: string
  vf_IssuedAt :: int
  vf_ExpiresAt :: int
  vf_Scope :: string

record 'w Options =
  op_Keys :: jwk_set
  op_Issuer :: string
  op_Audience :: string
  op_Now :: gtime
  op_Proof :: string
  op_Method :: string
  op_URL :: string
  op_Proofs :: "Verifier option"
  op_Revoked :: "'w hook option"

section \<open>The chain of the act claim\<close>

text \<open>
  \<^verbatim>\<open>json.Unmarshal\<close> into an \<^verbatim>\<open>Act\<close>: a member \<^verbatim>\<open>act\<close> goes
  into the prior actor already there, or into a fresh one; null removes it. The claim is marshalled
  before it is read.
\<close>

fun fill_act :: "cst \<Rightarrow> Act \<Rightarrow> Act \<times> bool"
  and fill_members :: "(string \<times> cst) list \<Rightarrow> Act \<Rightarrow> Act \<times> bool" where
  "fill_act CNull a = (a, True)"
| "fill_act (CObj ms) a = fill_members ms a"
| "fill_act _ a = (a, False)"
| "fill_members [] a = (a, True)"
| "fill_members ((raw, c) # ms) a =
     (case field_for [''sub'', ''act''] (dec_str raw) of
        None \<Rightarrow> fill_members ms a
      | Some n \<Rightarrow>
          if n = ''sub'' then
            (case set_string c (act_Sub a) of
               None \<Rightarrow> (fst (fill_members ms a), False)
             | Some s \<Rightarrow> fill_members ms (Act s (act_Act a)))
          else if c = CNull then fill_members ms (Act (act_Sub a) None)
          else
            (case fill_act c (case act_Act a of None \<Rightarrow> Act [] None | Some prior \<Rightarrow> prior) of
               (prior, ok) \<Rightarrow>
                 (case fill_members ms (Act (act_Sub a) (Some prior)) of (r, ok') \<Rightarrow> (r, ok \<and> ok'))))"

definition decodeAct :: "gval option \<Rightarrow> Act option" where
  "decodeAct raw =
     (case raw of
        None \<Rightarrow> Some (Act [] None)
      | Some GNull \<Rightarrow> Some (Act [] None)
      | Some v \<Rightarrow>
          (case map_option print_json (enc_any v) of
             None \<Rightarrow> None
           | Some b \<Rightarrow>
               (case parse_json b of
                  None \<Rightarrow> None
                | Some c \<Rightarrow> (case fill_act c (Act [] None) of (a, ok) \<Rightarrow> if ok then Some a else None))))"

section \<open>The check\<close>

text \<open>The list is asked once per party, root first, until it says yes.\<close>

fun asks :: "'w hook \<Rightarrow> string \<Rightarrow> int \<Rightarrow> string list \<Rightarrow> 'w \<Rightarrow> bool \<times> 'w" where
  "asks revoked jti iat [] w = (False, w)"
| "asks revoked jti iat (party # ps) w =
     (case revoked jti party iat w of (hit, w') \<Rightarrow> if hit then (True, w') else asks revoked jti iat ps w')"

definition checkProof :: "go_lib \<Rightarrow> 'w Options \<Rightarrow> Verifier option \<times> (deleg_error + string)" where
  "checkProof lib opts =
     (if op_Method opts = [] \<or> op_URL opts = [] then (op_Proofs opts, Inl ErrNoProof)
      else
        let v = (case op_Proofs opts of None \<Rightarrow> NewVerifier | Some v \<Rightarrow> v) in
        (case Verifier_Check lib v (op_Proof opts) (op_Method opts) (op_URL opts) (op_Now opts) of
           (v', r) \<Rightarrow>
             (map_option (\<lambda>_. v') (op_Proofs opts),
              case r of Inl err \<Rightarrow> Inl (ErrWrongKeyBecause err) | Inr thumb \<Rightarrow> Inr thumb)))"

text \<open>From the issuer to the binding: the times and the thumbprint to be matched.\<close>

definition claims_checked :: "go_lib \<Rightarrow> (string \<times> gval) list \<Rightarrow> 'w Options \<Rightarrow> deleg_error + int \<times> int" where
  "claims_checked lib claims opts =
     (if op_Issuer opts = [] \<or> str_claim claims ''iss'' \<noteq> op_Issuer opts then Inl ErrIssuer
      else if op_Audience opts \<noteq> [] \<and> \<not> audienceHas (map_of claims ''aud'') (op_Audience opts) then Inl ErrAudience
      else case asUnix lib (map_of claims ''exp'') of
          None \<Rightarrow> Inl ErrExpired
        | Some exp \<Rightarrow>
            if time_Unix (op_Now opts) \<ge> exp then Inl ErrExpired
            else
              let iat = (case asUnix lib (map_of claims ''iat'') of None \<Rightarrow> 0 | Some n \<Rightarrow> n) in
              if str_claim claims ''sub'' = [] \<or> str_claim claims ''jti'' = [] then Inl ErrMalformed
              else if confirmationKey claims = [] then Inl ErrNotBound
              else if op_Proof opts = [] then Inl ErrNoProof
              else Inr (iat, exp))"

definition chain_checked :: "(string \<times> gval) list \<Rightarrow> deleg_error + string list \<times> string list" where
  "chain_checked claims =
     (case decodeAct (map_of claims ''act'') of
        None \<Rightarrow> Inl ErrMalformed
      | Some act \<Rightarrow>
          (case ReadAct (Some act) of
             Inl e \<Rightarrow> Inl ErrMalformed
           | Inr actors \<Rightarrow>
               (case Chain (str_claim claims ''sub'') (Some act) of
                  Inl e \<Rightarrow> Inl ErrMalformed
                | Inr chain \<Rightarrow> Inr (actors, chain))))"

definition Verify :: "go_lib \<Rightarrow> string \<Rightarrow> 'w Options \<Rightarrow> 'w \<Rightarrow> Verifier option \<times> 'w \<times> (deleg_error + Verified)" where
  "Verify lib token opts w =
     (if IsAgentToken token then (op_Proofs opts, w, Inl ErrMalformed)
      else case VerifyToken token (op_Keys opts) of
          Inl err \<Rightarrow> (op_Proofs opts, w, Inl err)
        | Inr claims \<Rightarrow>
            (case claims_checked lib claims opts of
               Inl err \<Rightarrow> (op_Proofs opts, w, Inl err)
             | Inr (iat, exp) \<Rightarrow>
                 (case checkProof lib opts of
                    (vs, Inl err) \<Rightarrow> (vs, w, Inl err)
                  | (vs, Inr presented) \<Rightarrow>
                      if presented \<noteq> confirmationKey claims then (vs, w, Inl ErrWrongKey)
                      else case chain_checked claims of
                          Inl err \<Rightarrow> (vs, w, Inl err)
                        | Inr (actors, chain) \<Rightarrow>
                            (case (case op_Revoked opts of
                                     None \<Rightarrow> (False, w)
                                   | Some revoked \<Rightarrow> asks revoked (str_claim claims ''jti'') iat chain w) of
                               (True, w') \<Rightarrow> (vs, w', Inl ErrRevoked)
                             | (False, w') \<Rightarrow>
                                 (vs, w', Inr \<lparr>vf_Subject = str_claim claims ''sub'', vf_Actors = actors, vf_Chain = chain,
                                    vf_JKT = confirmationKey claims, vf_JTI = str_claim claims ''jti'', vf_IssuedAt = iat,
                                    vf_ExpiresAt = exp, vf_Scope = str_claim claims ''scope''\<rparr>)))))"

end
