(* ===== verification/Verify_Sound.thy ===== *)
theory Verify_Sound
  imports Verify Jose_Thumb
begin

text \<open>
  What an accepted proof and an accepted delegation token are: each step of the verifier read as a
  condition, and the conditions put together.
\<close>

section \<open>The steps\<close>

lemma case_pair_Inr:
  "(case x of (s, Inl e) \<Rightarrow> (s, w, Inl e) | (s, Inr y) \<Rightarrow> f s y) = (s', w', Inr r) \<longleftrightarrow> (\<exists>s y. x = (s, Inr y) \<and> f s y = (s', w', Inr r))"
  by (auto split: prod.splits sum.splits)

lemma case_Inr:
  "(case x of Inl e \<Rightarrow> (s, w, Inl e) | Inr y \<Rightarrow> f y) = (s', w', Inr r) \<longleftrightarrow> (\<exists>y. x = Inr y \<and> f y = (s', w', Inr r))"
  by (auto split: sum.splits)

lemma case_Inr_pair:
  "(case x of Inl e \<Rightarrow> (s, w, Inl e) | Inr (a, b) \<Rightarrow> f a b) = (s', w', Inr r) \<longleftrightarrow> (\<exists>a b. x = Inr (a, b) \<and> f a b = (s', w', Inr r))"
  by (auto split: sum.splits)

lemma if_Inr: "(if b then (s, w, Inl e) else y) = (s', w', Inr r) \<longleftrightarrow> \<not> b \<and> y = (s', w', Inr r)"
  by auto

lemma case_hit_Inr:
  "(case x of (True, u) \<Rightarrow> (s, u, Inl e) | (False, u) \<Rightarrow> (s, u, Inr y)) = (s', w', Inr r) \<longleftrightarrow> x = (False, w') \<and> s = s' \<and> y = r"
  by (cases x) (auto split: bool.splits)

lemma Verifier_Check_iff:
  "Verifier_Check lib v prf method url now = (v', Inr thumb) \<longleftrightarrow>
     (\<exists>p. verifyProof lib prf method url now = Inr p \<and> remember v (pp_jti p) (pp_iat p) now = (v', None) \<and> thumb = pp_thumb p)"
  by (auto simp: Verifier_Check_def split: sum.splits prod.splits option.splits)

lemma checkProof_iff:
  "checkProof lib opts = (vs, Inr thumb) \<longleftrightarrow>
     op_Method opts \<noteq> [] \<and> op_URL opts \<noteq> [] \<and>
     (\<exists>p v'. verifyProof lib (op_Proof opts) (op_Method opts) (op_URL opts) (op_Now opts) = Inr p \<and>
        remember (case op_Proofs opts of None \<Rightarrow> NewVerifier | Some v \<Rightarrow> v) (pp_jti p) (pp_iat p) (op_Now opts) = (v', None) \<and>
        vs = map_option (\<lambda>_. v') (op_Proofs opts) \<and> thumb = pp_thumb p)"
proof -
  define v where "v = (case op_Proofs opts of None \<Rightarrow> NewVerifier | Some v \<Rightarrow> v)"
  obtain v' r where c: "Verifier_Check lib v (op_Proof opts) (op_Method opts) (op_URL opts) (op_Now opts) = (v', r)" by fastforce
  have "checkProof lib opts = (vs, Inr thumb) \<longleftrightarrow>
      op_Method opts \<noteq> [] \<and> op_URL opts \<noteq> [] \<and> vs = map_option (\<lambda>_. v') (op_Proofs opts) \<and> r = Inr thumb"
    by (auto simp: checkProof_def Let_def c v_def [symmetric] split: sum.splits)
  also have "\<dots> \<longleftrightarrow> op_Method opts \<noteq> [] \<and> op_URL opts \<noteq> [] \<and>
      (\<exists>u. Verifier_Check lib v (op_Proof opts) (op_Method opts) (op_URL opts) (op_Now opts) = (u, Inr thumb) \<and>
         vs = map_option (\<lambda>_. u) (op_Proofs opts))"
    unfolding c by auto
  finally show ?thesis unfolding Verifier_Check_iff v_def by blast
qed

definition issued_at :: "go_lib \<Rightarrow> (string \<times> gval) list \<Rightarrow> int" where
  "issued_at lib claims = (case asUnix lib (map_of claims ''iat'') of None \<Rightarrow> 0 | Some n \<Rightarrow> n)"

lemma claims_checked_iff:
  "claims_checked lib claims opts = Inr (iat, exp) \<longleftrightarrow>
     op_Issuer opts \<noteq> [] \<and> str_claim claims ''iss'' = op_Issuer opts \<and>
     (op_Audience opts = [] \<or> audienceHas (map_of claims ''aud'') (op_Audience opts)) \<and>
     asUnix lib (map_of claims ''exp'') = Some exp \<and> time_Unix (op_Now opts) < exp \<and> iat = issued_at lib claims \<and>
     str_claim claims ''sub'' \<noteq> [] \<and> str_claim claims ''jti'' \<noteq> [] \<and> confirmationKey claims \<noteq> [] \<and> op_Proof opts \<noteq> []"
  unfolding claims_checked_def issued_at_def by (auto simp: Let_def split: option.splits if_splits)

lemma Verify_iff:
  "Verify lib token opts w = (vs, w', Inr v) \<longleftrightarrow>
     (\<exists>claims iat exp actors chain. \<not> IsAgentToken token \<and> VerifyToken token (op_Keys opts) = Inr claims \<and>
        claims_checked lib claims opts = Inr (iat, exp) \<and> checkProof lib opts = (vs, Inr (confirmationKey claims)) \<and>
        chain_checked claims = Inr (actors, chain) \<and>
        (case op_Revoked opts of None \<Rightarrow> (False, w) | Some revoked \<Rightarrow> asks revoked (str_claim claims ''jti'') iat chain w) = (False, w') \<and>
        v = \<lparr>vf_Subject = str_claim claims ''sub'', vf_Actors = actors, vf_Chain = chain,
           vf_JKT = confirmationKey claims, vf_JTI = str_claim claims ''jti'', vf_IssuedAt = iat,
           vf_ExpiresAt = exp, vf_Scope = str_claim claims ''scope''\<rparr>)"
proof (cases "IsAgentToken token")
  case False
  show ?thesis
  proof (cases "VerifyToken token (op_Keys opts)")
    case (Inr claims)
    show ?thesis
      unfolding Verify_def if_not_P [OF False] Inr sum.case if_Inr case_Inr_pair case_pair_Inr case_hit_Inr
      using False Inr by auto
  qed (simp add: Verify_def)
qed (simp add: Verify_def)

lemma chain_checked_iff:
  "chain_checked claims = Inr (actors, chain) \<longleftrightarrow>
     (\<exists>act. decodeAct (map_of claims ''act'') = Some act \<and> actors = rev (act_names (Some act)) \<and> [] \<notin> set actors \<and>
        chain = assembled (str_claim claims ''sub'') (Some act) \<and> chain_Validate chain = None)"
proof (cases "decodeAct (map_of claims ''act'')")
  case (Some act)
  let ?a = "rev (act_names (Some act))" and ?c = "assembled (str_claim claims ''sub'') (Some act)"
  have "chain_checked claims = Inr (actors, chain) \<longleftrightarrow>
      ReadAct (Some act) = Inr actors \<and> Chain (str_claim claims ''sub'') (Some act) = Inr chain"
    by (auto simp: chain_checked_def Some split: sum.splits)
  also have "\<dots> \<longleftrightarrow> actors = ?a \<and> [] \<notin> set actors \<and> chain = ?c \<and> chain_Validate chain = None"
  proof -
    have "wf_chain ?c \<Longrightarrow> length (act_names (Some act)) \<le> MaxDepth"
      using length_assembled [of "str_claim claims ''sub''" "Some act"] by (simp add: wf_chain_def chain_MaxDepth_def MaxDepth_def split: if_splits)
    then show ?thesis unfolding ReadAct_iff Chain_iff Validate_iff_wf by auto
  qed
  finally show ?thesis using Some by auto
qed (simp add: chain_checked_def)

section \<open>Asking the list\<close>

text \<open>The parties asked: root first, up to and including the first hit.\<close>

definition upto_hit :: "('a \<Rightarrow> bool) \<Rightarrow> 'a list \<Rightarrow> 'a list" where
  "upto_hit hit xs = takeWhile (\<lambda>x. \<not> hit x) xs @ take 1 (dropWhile (\<lambda>x. \<not> hit x) xs)"

text \<open>One party refused by the list a door holds, whether by an entry or by what the list lacks.\<close>

definition refused_by :: "Revocations \<Rightarrow> gtime \<Rightarrow> string \<Rightarrow> int \<Rightarrow> string \<Rightarrow> bool" where
  "refused_by r now jti iat party \<longleftrightarrow>
     (case held r of
        None \<Rightarrow> failMode r = FailClosed
      | Some h \<Rightarrow> live_hit h jti party iat now \<or> maxAge r < time_Sub now (fetchedAt r) \<and> failMode r = FailClosed)"

definition observed :: "(Answer \<Rightarrow> 'w \<Rightarrow> 'w) option \<Rightarrow> Answer list \<Rightarrow> 'w \<Rightarrow> 'w" where
  "observed obs answers w = (case obs of None \<Rightarrow> w | Some f \<Rightarrow> fold f answers w)"

lemma refused_by_iff: "ans_Revoked (Check r jti party iat now) \<longleftrightarrow> refused_by r now jti iat party"
  by (auto simp: Check_def refused_by_def refuses_def listed_iff live_hit_def Let_def split: option.splits)

lemma asks_Hook:
  "asks (Hook r now obs) jti iat ps w =
     (list_ex (refused_by r now jti iat) ps,
      observed obs (map (\<lambda>p. Check r jti p iat now) (upto_hit (refused_by r now jti iat) ps)) w)"
  by (induction ps arbitrary: w) (auto simp: upto_hit_def observed_def Hook_def Let_def refused_by_iff split: option.splits)

section \<open>Properties\<close>

text \<open>
  C22. What an accepted proof of possession proves. A proof is accepted for a request at a moment
  exactly when it is a token of type \<^verbatim>\<open>dpop+jwt\<close> whose header carries one key, no
  secret member beside it, that very key vouches for the token under an algorithm of its own kind,
  and the claims name the request's method exactly and its URL up to the case of scheme and host,
  were made within sixty seconds of the moment, either side, and hold an identifier to remember.
  The thumbprint handed back is that key's and no other.
\<close>

theorem proof_accepted_iff:
  "verifyProof lib prf method url now = Inr p \<longleftrightarrow>
     (\<exists>h b s raw hdr c key sig alg body claims iat.
        prf = h @ ''.'' @ b @ ''.'' @ s \<and> CHR ''.'' \<notin> set (h @ b @ s) \<and>
        unb64 h = Some raw \<and> read_dpop_header raw = Some hdr \<and> dh_Typ hdr = ''dpop+jwt'' \<and>
        dh_JWK hdr = Some c \<and> \<not> hasPrivateMember c \<and> read_jwk c = Some key \<and>
        json_struct [''alg''] set_alg raw [] = Some alg \<and> unb64 s = Some sig \<and> vouches key alg (h @ ''.'' @ b) sig \<and>
        unb64 b = Some body \<and> json_any_map body = Some claims \<and>
        str_claim claims ''htm'' = method \<and> sameURL lib (str_claim claims ''htu'') url \<and>
        numeric lib (map_of claims ''iat'') = Some iat \<and> pp_iat p = time_of_unix iat \<and>
        - Window \<le> now - pp_iat p \<and> now - pp_iat p \<le> Window \<and>
        pp_jti p = str_claim claims ''jti'' \<and> pp_jti p \<noteq> [] \<and> pp_ath p = str_claim claims ''ath'' \<and>
        Thumbprint lib key = Inr (pp_thumb p))"
  (is "?l = ?r")
proof
  assume ?l
  then obtain key claims thumb where pr: "proof_of prf key claims" and t: "Thumbprint lib key = Inr thumb"
    and c: "check_claims lib claims method url now thumb = Inr p" unfolding verifyProof_iff by blast
  obtain h b s raw hdr d where hd: "split_at CHR ''.'' prf = [h, b, s]" "unb64 h = Some raw" "read_dpop_header raw = Some hdr"
    "dh_Typ hdr = ''dpop+jwt''" "dh_JWK hdr = Some d" "\<not> hasPrivateMember d" "read_jwk d = Some key" and v: "VerifyWith prf key = Inr claims"
    using pr unfolding proof_of_def by blast
  have parts: "prf = h @ ''.'' @ b @ ''.'' @ s" "CHR ''.'' \<notin> set (h @ b @ s)" using hd(1) unfolding three_parts by auto
  obtain alg where a: "json_struct [''alg''] set_alg raw [] = Some alg" "verify_parts key alg h b s = Inr claims"
    using v unfolding VerifyWith_def hd(1) by (auto simp: hd(2) split: option.splits)
  obtain sig body where g: "unb64 s = Some sig" "vouches key alg (h @ ''.'' @ b) sig" "unb64 b = Some body" "json_any_map body = Some claims"
    using a(2) unfolding verify_parts_iff by blast
  obtain iat where k: "str_claim claims ''htm'' = method" "sameURL lib (str_claim claims ''htu'') url"
    "numeric lib (map_of claims ''iat'') = Some iat" "\<not> stale now (time_of_unix iat)" "str_claim claims ''jti'' \<noteq> []"
    and p: "p = \<lparr>pp_thumb = thumb, pp_jti = str_claim claims ''jti'', pp_ath = str_claim claims ''ath'', pp_iat = time_of_unix iat\<rparr>"
    using c unfolding check_claims_iff by blast
  have q: "pp_iat p = time_of_unix iat" "pp_jti p = str_claim claims ''jti''" "pp_ath p = str_claim claims ''ath''" "Thumbprint lib key = Inr (pp_thumb p)"
    using p t by simp_all
  have "- Window \<le> now - pp_iat p" "now - pp_iat p \<le> Window" "pp_jti p \<noteq> []" using k(4,5) by (simp_all add: not_stale q)
  note rest = hd(2-7) a(1) g k(1-3) q this
  show ?r by (intro exI conjI) (rule parts rest)+
next
  assume ?r
  then obtain h b s raw hdr c key sig alg body claims iat where
    parts: "prf = h @ ''.'' @ b @ ''.'' @ s" "CHR ''.'' \<notin> set (h @ b @ s)" and
    hd: "unb64 h = Some raw" "read_dpop_header raw = Some hdr" "dh_Typ hdr = ''dpop+jwt''" "dh_JWK hdr = Some c" "\<not> hasPrivateMember c"
      "read_jwk c = Some key" and
    a: "json_struct [''alg''] set_alg raw [] = Some alg" and
    g: "unb64 s = Some sig" "vouches key alg (h @ ''.'' @ b) sig" "unb64 b = Some body" "json_any_map body = Some claims" and
    k: "str_claim claims ''htm'' = method" "sameURL lib (str_claim claims ''htu'') url" "numeric lib (map_of claims ''iat'') = Some iat"
      "pp_iat p = time_of_unix iat" "- Window \<le> now - pp_iat p" "now - pp_iat p \<le> Window"
      "pp_jti p = str_claim claims ''jti''" "pp_jti p \<noteq> []" "pp_ath p = str_claim claims ''ath''" "Thumbprint lib key = Inr (pp_thumb p)"
    by (elim exE conjE)
  have sp: "split_at CHR ''.'' prf = [h, b, s]" unfolding three_parts using parts by auto
  have vp: "verify_parts key alg h b s = Inr claims" unfolding verify_parts_iff using g by blast
  have "VerifyWith prf key = Inr claims" unfolding VerifyWith_def sp using hd(1) a vp by simp
  then have "proof_of prf key claims" unfolding proof_of_def using sp hd by blast
  moreover have "check_claims lib claims method url now (pp_thumb p) = Inr p"
    unfolding check_claims_iff using k by (intro exI [of _ iat]) (simp add: not_stale)
  ultimately show ?l unfolding verifyProof_iff using k(10) by blast
qed

text \<open>
  C23. What an accepted delegation token guarantees. A token is accepted, with no list consulted,
  exactly when it is no agent token; a key of the set verifies it; the issuer is the one expected
  and the audience, if one is expected, is among those named; the moment is before the expiry; it is
  bound to a key, and a proof for this very request, made now and not seen before by the door's
  memory, is signed by that key; and the names in its \<^verbatim>\<open>act\<close>, reversed behind the
  subject, are a chain the record's own \<^verbatim>\<open>Validate\<close> accepts. The result holds those values.
\<close>

theorem delegation_accepted_iff:
  "Verify lib token (opts\<lparr>op_Revoked := None\<rparr>) w = (vs, w', Inr v) \<longleftrightarrow>
     (\<exists>claims act p seen'.
        headerTyp token \<noteq> Some AgentTokenTyp \<and> VerifyToken token (op_Keys opts) = Inr claims \<and>
        op_Issuer opts \<noteq> [] \<and> str_claim claims ''iss'' = op_Issuer opts \<and>
        (op_Audience opts = [] \<or> audienceHas (map_of claims ''aud'') (op_Audience opts)) \<and>
        asUnix lib (map_of claims ''exp'') = Some (vf_ExpiresAt v) \<and> time_Unix (op_Now opts) < vf_ExpiresAt v \<and>
        op_Method opts \<noteq> [] \<and> op_URL opts \<noteq> [] \<and>
        verifyProof lib (op_Proof opts) (op_Method opts) (op_URL opts) (op_Now opts) = Inr p \<and>
        confirmationKey claims = pp_thumb p \<and> vf_JKT v = pp_thumb p \<and> pp_thumb p \<noteq> [] \<and>
        remember (case op_Proofs opts of None \<Rightarrow> NewVerifier | Some seen \<Rightarrow> seen) (pp_jti p) (pp_iat p) (op_Now opts) = (seen', None) \<and>
        vs = map_option (\<lambda>_. seen') (op_Proofs opts) \<and> w' = w \<and>
        decodeAct (map_of claims ''act'') = Some act \<and> vf_Actors v = rev (act_names (Some act)) \<and> [] \<notin> set (vf_Actors v) \<and>
        vf_Chain v = vf_Subject v # vf_Actors v \<and> chain_Validate (vf_Chain v) = None \<and>
        vf_Subject v = str_claim claims ''sub'' \<and> vf_Subject v \<noteq> [] \<and> vf_JTI v = str_claim claims ''jti'' \<and> vf_JTI v \<noteq> [] \<and>
        vf_IssuedAt v = issued_at lib claims \<and> vf_Scope v = str_claim claims ''scope'')"
  (is "?l = ?r")
proof
  let ?o = "opts\<lparr>op_Revoked := None\<rparr>"
  have same: "op_Keys ?o = op_Keys opts" "op_Issuer ?o = op_Issuer opts" "op_Audience ?o = op_Audience opts" "op_Now ?o = op_Now opts"
    "op_Proof ?o = op_Proof opts" "op_Method ?o = op_Method opts" "op_URL ?o = op_URL opts" "op_Proofs ?o = op_Proofs opts" by simp_all
  assume ?l
  then obtain claims iat exp actors chain where 1: "\<not> IsAgentToken token" "VerifyToken token (op_Keys opts) = Inr claims"
    and c: "claims_checked lib claims ?o = Inr (iat, exp)" and p: "checkProof lib ?o = (vs, Inr (confirmationKey claims))"
    and ch: "chain_checked claims = Inr (actors, chain)" and w: "w' = w"
    and v: "v = \<lparr>vf_Subject = str_claim claims ''sub'', vf_Actors = actors, vf_Chain = chain,
           vf_JKT = confirmationKey claims, vf_JTI = str_claim claims ''jti'', vf_IssuedAt = iat,
           vf_ExpiresAt = exp, vf_Scope = str_claim claims ''scope''\<rparr>"
    unfolding Verify_iff by auto
  note c = c [unfolded claims_checked_iff same]
  obtain act where act: "decodeAct (map_of claims ''act'') = Some act" "actors = rev (act_names (Some act))" "[] \<notin> set actors"
    "chain = assembled (str_claim claims ''sub'') (Some act)" "chain_Validate chain = None" using ch unfolding chain_checked_iff by blast
  obtain q seen' where q: "op_Method opts \<noteq> []" "op_URL opts \<noteq> []"
      "verifyProof lib (op_Proof opts) (op_Method opts) (op_URL opts) (op_Now opts) = Inr q"
      "remember (case op_Proofs opts of None \<Rightarrow> NewVerifier | Some v \<Rightarrow> v) (pp_jti q) (pp_iat q) (op_Now opts) = (seen', None)"
      "vs = map_option (\<lambda>_. seen') (op_Proofs opts)" "confirmationKey claims = pp_thumb q"
    using p unfolding checkProof_iff same by blast
  have "chain = str_claim claims ''sub'' # actors" using act c by (simp add: assembled_def)
  then show ?r
    by (intro exI [of _ claims] exI [of _ act] exI [of _ q] exI [of _ seen'])
      (use 1 c act q w v in \<open>simp add: IsAgentToken_def\<close>)
next
  let ?o = "opts\<lparr>op_Revoked := None\<rparr>"
  assume ?r
  then obtain claims act p seen' where r: "\<not> IsAgentToken token" "VerifyToken token (op_Keys opts) = Inr claims"
    "op_Issuer opts \<noteq> []" "str_claim claims ''iss'' = op_Issuer opts"
    "op_Audience opts = [] \<or> audienceHas (map_of claims ''aud'') (op_Audience opts)"
    "asUnix lib (map_of claims ''exp'') = Some (vf_ExpiresAt v)" "time_Unix (op_Now opts) < vf_ExpiresAt v"
    "op_Method opts \<noteq> []" "op_URL opts \<noteq> []"
    "verifyProof lib (op_Proof opts) (op_Method opts) (op_URL opts) (op_Now opts) = Inr p"
    "confirmationKey claims = pp_thumb p" "vf_JKT v = pp_thumb p" "pp_thumb p \<noteq> []"
    "remember (case op_Proofs opts of None \<Rightarrow> NewVerifier | Some seen \<Rightarrow> seen) (pp_jti p) (pp_iat p) (op_Now opts) = (seen', None)"
    "vs = map_option (\<lambda>_. seen') (op_Proofs opts)" "w' = w"
    "decodeAct (map_of claims ''act'') = Some act" "vf_Actors v = rev (act_names (Some act))" "[] \<notin> set (vf_Actors v)"
    "vf_Chain v = vf_Subject v # vf_Actors v" "chain_Validate (vf_Chain v) = None"
    "vf_Subject v = str_claim claims ''sub''" "vf_Subject v \<noteq> []" "vf_JTI v = str_claim claims ''jti''" "vf_JTI v \<noteq> []"
    "vf_IssuedAt v = issued_at lib claims" "vf_Scope v = str_claim claims ''scope''"
    unfolding IsAgentToken_def by (elim exE conjE)
  have "op_Proof opts \<noteq> []" using r(10) by (auto simp: verifyProof_def split_at_fresh)
  then have c: "claims_checked lib claims ?o = Inr (vf_IssuedAt v, vf_ExpiresAt v)"
    unfolding claims_checked_iff using r(3-7,11,13,22-26) by simp
  have p: "checkProof lib ?o = (vs, Inr (confirmationKey claims))"
    unfolding checkProof_iff using r(8-11,14,15) by auto
  have ch: "chain_checked claims = Inr (vf_Actors v, vf_Chain v)"
    unfolding chain_checked_iff using r(17-23) by (auto simp: assembled_def)
  show ?l unfolding Verify_iff
    by (rule exI [of _ claims], rule exI [of _ "vf_IssuedAt v"], rule exI [of _ "vf_ExpiresAt v"], rule exI [of _ "vf_Actors v"],
        rule exI [of _ "vf_Chain v"]) (use r(1,2,11,12,16,22-27) c p ch in simp)
qed

text \<open>
  C24. A revocation list can only take away. Verifying with the hook of a held list is verifying
  without it and then asking the list about every party of the chain - the subject first, then each
  actor - with the token's own identifier and time: a token any party of which the list refuses is
  \<^verbatim>\<open>ErrRevoked\<close>, every other outcome is unchanged, and the observer saw one answer per
  party asked, up to the first hit. A party is refused when a live entry covers it, at any age of the
  list, or when the list is too old or was never fetched and the operator did not choose to fail open.
\<close>

theorem revocation_only_subtracts:
  "Verify lib token (opts\<lparr>op_Revoked := Some (Hook r now obs)\<rparr>) w =
     (case Verify lib token (opts\<lparr>op_Revoked := None\<rparr>) w of
        (vs, _, Inl err) \<Rightarrow> (vs, w, Inl err)
      | (vs, _, Inr v) \<Rightarrow>
          let refused = refused_by r now (vf_JTI v) (vf_IssuedAt v);
              answers = map (\<lambda>party. Check r (vf_JTI v) party (vf_IssuedAt v) now) (upto_hit refused (vf_Chain v))
          in (vs, observed obs answers w, if list_ex refused (vf_Chain v) then Inl ErrRevoked else Inr v))"
proof -
  let ?h = "opts\<lparr>op_Revoked := Some (Hook r now obs)\<rparr>" and ?n = "opts\<lparr>op_Revoked := None\<rparr>"
  have c: "claims_checked lib claims ?h = claims_checked lib claims ?n" for claims by (simp add: claims_checked_def cong: option.case_cong if_cong)
  have p: "checkProof lib ?h = checkProof lib ?n" by (simp add: checkProof_def cong: option.case_cong if_cong)
  show ?thesis
  proof (cases "\<exists>vs w' v. Verify lib token ?n w = (vs, w', Inr v)")
    case True
    then obtain vs w' v where v: "Verify lib token ?n w = (vs, w', Inr v)" by blast
    then obtain claims iat exp actors chain where
      r: "\<not> IsAgentToken token" "VerifyToken token (op_Keys ?n) = Inr claims" "claims_checked lib claims ?n = Inr (iat, exp)"
        "checkProof lib ?n = (vs, Inr (confirmationKey claims))" "chain_checked claims = Inr (actors, chain)"
        "v = \<lparr>vf_Subject = str_claim claims ''sub'', vf_Actors = actors, vf_Chain = chain,
           vf_JKT = confirmationKey claims, vf_JTI = str_claim claims ''jti'', vf_IssuedAt = iat,
           vf_ExpiresAt = exp, vf_Scope = str_claim claims ''scope''\<rparr>"
      unfolding Verify_iff by auto
    have s: "vf_JTI v = str_claim claims ''jti''" "vf_IssuedAt v = iat" "vf_Chain v = chain" using r(6) by simp_all
    show ?thesis
      unfolding v prod.case sum.case Let_def s
      unfolding Verify_def c p using r by (simp add: asks_Hook split: bool.split)
  next
    case False
    then obtain vs w' e where e: "Verify lib token ?n w = (vs, w', Inl e)"
      by (metis prod_cases3 sum.exhaust)
    show ?thesis unfolding e prod.case sum.case
      using e unfolding Verify_def c p
      by (auto split: if_splits sum.splits prod.splits bool.splits)
  qed
qed

end
