(* ===== verification/Access.thy ===== *)
theory Access
  imports Verify
begin

text \<open>
  delegation/access.go: an agent's own access token, at the door that sees its proof
  (\<open>VerifyAccess\<close>) and at one it is relayed to (\<open>VerifyRelayedAccess\<close>). The replay cache is shared
  by every door of a process: it is the state, and so is what the revocation hook keeps.
\<close>

section \<open>What a door holds and what it gets\<close>

definition AgentTokenLeeway :: duration where
  "AgentTokenLeeway = 30 * Second"

definition maxProofJTIBytes :: nat where
  "maxProofJTIBytes = 256"

record 'w AccessOptions =
  ao_Keys :: jwk_set
  ao_Issuer :: string
  ao_Audience :: string
  ao_Now :: gtime
  ao_Proof :: string
  ao_Method :: string
  ao_URL :: string
  ao_Proofs :: "ReplayCache option"
  ao_Revoked :: "'w hook option"

record VerifiedAgent =
  va_Subject :: string
  va_Unit :: string
  va_Org :: string
  va_JTI :: string
  va_JKT :: string
  va_ProofJTI :: string
  va_IssuedAt :: int
  va_ExpiresAt :: int

record agentClaimSet =
  ac_sub :: string
  ac_jti :: string
  ac_jkt :: string
  ac_unit :: string
  ac_org :: string
  ac_iat :: int
  ac_exp :: int

definition AccessTokenHash :: "string \<Rightarrow> string" where
  "AccessTokenHash token = b64 (sha256 token)"

definition verified :: "agentClaimSet \<Rightarrow> string \<Rightarrow> VerifiedAgent" where
  "verified a proofJTI =
     \<lparr>va_Subject = ac_sub a, va_Unit = ac_unit a, va_Org = ac_org a, va_JTI = ac_jti a, va_JKT = ac_jkt a,
      va_ProofJTI = proofJTI, va_IssuedAt = ac_iat a, va_ExpiresAt = ac_exp a\<rparr>"

section \<open>The claims of an agent token\<close>

text \<open>An absent \<^verbatim>\<open>iat\<close> is 0; a present one must be a whole second.\<close>

definition agent_iat :: "(string \<times> gval) list \<Rightarrow> int option" where
  "agent_iat claims = (case map_of claims ''iat'' of None \<Rightarrow> Some 0 | Some v \<Rightarrow> wholeSecond (Some v))"

definition agent_named :: "(string \<times> gval) list \<Rightarrow> bool" where
  "agent_named claims \<longleftrightarrow>
     (let sub = str_claim claims ''sub'' in
      prefix ''agent://'' sub \<and> drop 8 sub \<noteq> [] \<and> str_claim claims ''client_id'' = sub \<and> str_claim claims ''jti'' \<noteq> [] \<and>
      map_of claims ''act'' \<in> {None, Some GNull})"

definition claim_set :: "(string \<times> gval) list \<Rightarrow> int \<Rightarrow> int \<Rightarrow> deleg_error + agentClaimSet" where
  "claim_set claims iat exp =
     (if \<not> agent_named claims then Inl ErrMalformed
      else if confirmationKey claims = [] then Inl ErrNotBound
      else case (optionalString claims ''unit'', optionalString claims ''org'') of
          (Some u, Some org) \<Rightarrow>
            Inr \<lparr>ac_sub = str_claim claims ''sub'', ac_jti = str_claim claims ''jti'', ac_jkt = confirmationKey claims,
               ac_unit = u, ac_org = org, ac_iat = iat, ac_exp = exp\<rparr>
        | _ \<Rightarrow> Inl ErrMalformed)"

definition agentClaims :: "string \<Rightarrow> 'w AccessOptions \<Rightarrow> int \<Rightarrow> deleg_error + agentClaimSet" where
  "agentClaims token opts now =
     (if headerTyp token \<noteq> Some AgentTokenTyp then Inl ErrMalformed
      else if ao_Audience opts = [] then Inl ErrAudience
      else case VerifyToken token (ao_Keys opts) of
          Inl err \<Rightarrow> Inl err
        | Inr claims \<Rightarrow>
            if ao_Issuer opts = [] \<or> str_claim claims ''iss'' \<noteq> ao_Issuer opts then Inl ErrIssuer
            else if \<not> audienceHas (map_of claims ''aud'') (ao_Audience opts) then Inl ErrAudience
            else
              let leeway = AgentTokenLeeway div Second in
              (case wholeSecond (map_of claims ''exp'') of
                 None \<Rightarrow> Inl ErrExpired
               | Some exp \<Rightarrow>
                   if now \<ge> saturatingAdd exp leeway then Inl ErrExpired
                   else case agent_iat claims of
                       None \<Rightarrow> Inl ErrMalformed
                     | Some iat \<Rightarrow>
                         if iat > saturatingAdd now leeway then Inl ErrNotYetValid else claim_set claims iat exp))"

section \<open>At the door\<close>

text \<open>The proof against the request, the token's key and the token itself.\<close>

definition proof_checked :: "go_lib \<Rightarrow> string \<Rightarrow> 'w AccessOptions \<Rightarrow> gtime \<Rightarrow> agentClaimSet \<Rightarrow> deleg_error + presentedProof" where
  "proof_checked lib token opts now a =
     (if ao_Proof opts = [] \<or> ao_Method opts = [] \<or> ao_URL opts = [] then Inl ErrNoProof
      else case verifyProof lib (ao_Proof opts) (ao_Method opts) (ao_URL opts) now of
          Inl err \<Rightarrow> Inl (ErrWrongKeyBecause err)
        | Inr p \<Rightarrow>
            if length (pp_jti p) > maxProofJTIBytes then Inl (ErrWrongKeyBecause ErrBinding)
            else if pp_thumb p \<noteq> ac_jkt a then Inl ErrWrongKey
            else if pp_ath p \<noteq> AccessTokenHash token then Inl (ErrWrongKeyBecause ErrOther)
            else Inr p)"

definition VerifyAccess :: "go_lib \<Rightarrow> string \<Rightarrow> 'w AccessOptions \<Rightarrow> 'w \<Rightarrow>
    ReplayCache option \<times> 'w \<times> (deleg_error + VerifiedAgent)" where
  "VerifyAccess lib token opts w =
     (case (ao_Proofs opts, ao_Revoked opts) of
        (Some cache, Some revoked) \<Rightarrow>
          let now = time_of_unix (time_Unix (ao_Now opts)) in
          (case agentClaims token opts (time_Unix now) of
             Inl err \<Rightarrow> (Some cache, w, Inl err)
           | Inr a \<Rightarrow>
               (case proof_checked lib token opts now a of
                  Inl err \<Rightarrow> (Some cache, w, Inl err)
                | Inr p \<Rightarrow>
                    (case revoked (ac_jti a) (ac_sub a) (ac_iat a) w of (hit, w') \<Rightarrow>
                       if hit then (Some cache, w', Inl ErrRevoked)
                       else
                         (case CheckAndRecord cache (pp_jti p) now of
                            (cache', Some err) \<Rightarrow> (Some cache', w', Inl err)
                          | (cache', None) \<Rightarrow> (Some cache', w', Inr (verified a (pp_jti p)))))))
      | _ \<Rightarrow> (ao_Proofs opts, w, Inl ErrNotConfigured))"

definition VerifyRelayedAccess :: "string \<Rightarrow> 'w AccessOptions \<Rightarrow> 'w \<Rightarrow> 'w \<times> (deleg_error + VerifiedAgent)" where
  "VerifyRelayedAccess token opts w =
     (case ao_Revoked opts of
        None \<Rightarrow> (w, Inl ErrNotConfigured)
      | Some revoked \<Rightarrow>
          (case agentClaims token opts (time_Unix (ao_Now opts)) of
             Inl err \<Rightarrow> (w, Inl err)
           | Inr a \<Rightarrow>
               (case revoked (ac_jti a) (ac_sub a) (ac_iat a) w of (hit, w') \<Rightarrow>
                  if hit then (w', Inl ErrRevoked) else (w', Inr (verified a [])))))"

end
