(* ===== verification/Access_Sound.thy ===== *)
theory Access_Sound
  imports Access Verify_Sound
begin

text \<open>
  The kinds of token kept apart, the door against the relay, and the replay cache shared by every
  door of a process.
\<close>

section \<open>The type a header declares\<close>

text \<open>The three readers of a header's \<^verbatim>\<open>typ\<close> read the same member.\<close>

lemma header_folds: "fold_name ''typ'' = ''TYP''" "fold_name ''alg'' = ''ALG''" "fold_name ''jwk'' = ''JWK''"
  by code_simp+

lemma typ_field:
  "field_for [''typ'', ''alg'', ''jwk''] k = Some n \<Longrightarrow> n = ''typ'' \<longleftrightarrow> field_for [''typ''] k = Some ''typ''"
  "field_for [''typ'', ''alg'', ''jwk''] k = None \<Longrightarrow> field_for [''typ''] k = None"
  "field_for [''typ''] k \<noteq> None \<Longrightarrow> field_for [''typ''] k = Some ''typ''"
  by (auto simp: field_for_def header_folds simp del: fold_name.simps split: if_splits)

lemma dpop_typ:
  "snd (dec_struct [''typ'', ''alg'', ''jwk''] set_dpop_header ms h) \<Longrightarrow>
     dec_struct [''typ''] set_typ ms (dh_Typ h) = (dh_Typ (fst (dec_struct [''typ'', ''alg'', ''jwk''] set_dpop_header ms h)), True)"
proof (induction ms arbitrary: h)
  case (Cons m ms)
  obtain raw c where m: "m = (raw, c)" by (cases m)
  show ?case
  proof (cases "field_for [''typ'', ''alg'', ''jwk''] (dec_str raw)")
    case None
    with typ_field(2) [OF None] Cons m show ?thesis by simp
  next
    case (Some n)
    then obtain h' where h': "set_dpop_header n c h = Some h'" using Cons.prems m by (auto split: option.splits)
    have prems: "snd (dec_struct [''typ'', ''alg'', ''jwk''] set_dpop_header ms h')" using Cons.prems m Some h' by simp
    note IH = Cons.IH [OF prems]
    show ?thesis
    proof (cases "n = ''typ''")
      case True
      then have "set_typ ''typ'' c (dh_Typ h) = Some (dh_Typ h')" using h' by (auto simp: set_dpop_header_def set_typ_def)
      with typ_field(1) [OF Some] True m Some h' IH show ?thesis by simp
    next
      case False
      then have "dh_Typ h' = dh_Typ h" using h' by (auto simp: set_dpop_header_def split: if_splits)
      moreover have "field_for [''typ''] (dec_str raw) = None" using typ_field(1) [OF Some] typ_field(3) False by blast
      ultimately show ?thesis using m Some h' IH by simp
    qed
  qed
qed simp

lemma proof_header_typ:
  assumes "split_at CHR ''.'' t = [h, b, s]" "unb64 h = Some raw" "read_dpop_header raw = Some hdr"
  shows "headerTyp t = Some (dh_Typ hdr)"
proof -
  let ?z = "\<lparr>dh_Typ = [], dh_Alg = [], dh_JWK = None\<rparr>"
  have "json_struct [''typ''] set_typ raw [] = Some (dh_Typ hdr)"
    using assms(3) dpop_typ [of _ ?z]
    by (auto simp: read_dpop_header_def json_struct_defs split: option.splits cst.splits prod.splits if_splits)
  with assms show ?thesis by (simp add: headerTyp_def)
qed

section \<open>The claims an accepted agent token holds\<close>

lemma agentClaims_typ: "agentClaims token opts now = Inr a \<Longrightarrow> headerTyp token = Some AgentTokenTyp"
  by (auto simp: agentClaims_def split: if_splits)

lemma leeway_30: "AgentTokenLeeway div Second = 30"
  by (simp add: AgentTokenLeeway_def Second_def)

lemma claim_set_iff:
  "claim_set claims iat exp = Inr a \<longleftrightarrow>
     agent_named claims \<and> ac_sub a = str_claim claims ''sub'' \<and> ac_jti a = str_claim claims ''jti'' \<and>
     ac_jkt a = confirmationKey claims \<and> ac_jkt a \<noteq> [] \<and>
     optionalString claims ''unit'' = Some (ac_unit a) \<and> optionalString claims ''org'' = Some (ac_org a) \<and>
     ac_iat a = iat \<and> ac_exp a = exp"
  by (cases a) (auto simp: claim_set_def split: option.splits)

lemma agentClaims_steps:
  "agentClaims token opts now = Inr a \<longleftrightarrow>
     (\<exists>claims iat exp. headerTyp token = Some AgentTokenTyp \<and> ao_Audience opts \<noteq> [] \<and> VerifyToken token (ao_Keys opts) = Inr claims \<and>
        ao_Issuer opts \<noteq> [] \<and> str_claim claims ''iss'' = ao_Issuer opts \<and>
        audienceHas (map_of claims ''aud'') (ao_Audience opts) \<and>
        wholeSecond (map_of claims ''exp'') = Some exp \<and> now < saturatingAdd exp 30 \<and>
        agent_iat claims = Some iat \<and> iat \<le> saturatingAdd now 30 \<and> claim_set claims iat exp = Inr a)"
  unfolding agentClaims_def leeway_30 Let_def by (auto split: if_splits sum.splits option.splits)

lemma agent_iat_int64: "agent_iat claims = Some n \<Longrightarrow> is_int64 n"
  by (auto simp: agent_iat_def int64_defs dest: wholeSecond_int64 [unfolded int64_defs] split: option.splits)

lemma sint_int64: "is_int64 (sint (x :: 64 word))"
  using sint_range_size [of x] by (simp add: word_size int64_defs)

lemma agent_iat_absent: "agent_iat claims = Some n \<Longrightarrow> map_of claims ''iat'' = None \<and> n = 0 \<or> wholeSecond (map_of claims ''iat'') = Some n"
  by (auto simp: agent_iat_def split: option.splits)

section \<open>A door\<close>

lemma proof_checked_iff:
  "proof_checked lib token opts now a = Inr p \<longleftrightarrow>
     ao_Proof opts \<noteq> [] \<and> ao_Method opts \<noteq> [] \<and> ao_URL opts \<noteq> [] \<and>
     verifyProof lib (ao_Proof opts) (ao_Method opts) (ao_URL opts) now = Inr p \<and>
     length (pp_jti p) \<le> maxProofJTIBytes \<and> pp_thumb p = ac_jkt a \<and> pp_ath p = AccessTokenHash token"
  by (auto simp: proof_checked_def split: sum.splits)

definition door_now :: "'w AccessOptions \<Rightarrow> gtime" where
  "door_now opts = time_of_unix (time_Unix (ao_Now opts))"

lemma VerifyAccess_steps:
  assumes "ao_Proofs opts = Some c" "ao_Revoked opts = Some f"
  shows "VerifyAccess lib token opts w = (pc, w', Inr v) \<longleftrightarrow>
     (\<exists>a p c'. agentClaims token opts (time_Unix (door_now opts)) = Inr a \<and> proof_checked lib token opts (door_now opts) a = Inr p \<and>
        f (ac_jti a) (ac_sub a) (ac_iat a) w = (False, w') \<and> CheckAndRecord c (pp_jti p) (door_now opts) = (c', None) \<and>
        pc = Some c' \<and> v = verified a (pp_jti p))"
  unfolding VerifyAccess_def assms prod.case option.case Let_def door_now_def [symmetric]
  by (auto split: sum.splits prod.splits option.splits if_splits)

lemma VerifyRelayedAccess_steps:
  assumes "ao_Revoked opts = Some f"
  shows "VerifyRelayedAccess token opts w = (w', Inr v) \<longleftrightarrow>
     (\<exists>a. agentClaims token opts (time_Unix (ao_Now opts)) = Inr a \<and> f (ac_jti a) (ac_sub a) (ac_iat a) w = (False, w') \<and> v = verified a [])"
  unfolding VerifyRelayedAccess_def assms option.case
  by (auto split: sum.splits prod.splits if_splits)

lemma access_configured:
  "VerifyAccess lib token opts w = (pc, w', Inr v) \<Longrightarrow> \<exists>c f. ao_Proofs opts = Some c \<and> ao_Revoked opts = Some f"
  "VerifyRelayedAccess token opts w = (w', Inr v) \<Longrightarrow> \<exists>f. ao_Revoked opts = Some f"
  by (auto simp: VerifyAccess_def VerifyRelayedAccess_def split: option.splits)

lemma access_typ:
  assumes "VerifyAccess lib token opts w = (pc, w', Inr v)"
  shows "headerTyp token = Some AgentTokenTyp"
proof -
  obtain c f where "ao_Proofs opts = Some c" "ao_Revoked opts = Some f" using access_configured(1) [OF assms] by (elim exE conjE)
  from assms [unfolded VerifyAccess_steps [OF this]] show ?thesis using agentClaims_typ by blast
qed

lemma relayed_typ:
  assumes "VerifyRelayedAccess token opts w = (w', Inr v)"
  shows "headerTyp token = Some AgentTokenTyp"
proof -
  obtain f where "ao_Revoked opts = Some f" using access_configured(2) [OF assms] by (elim exE conjE)
  from assms [unfolded VerifyRelayedAccess_steps [OF this]] show ?thesis using agentClaims_typ by blast
qed

end
