(* ===== verification/Access_Door.thy ===== *)
theory Access_Door
  imports Access_Sound
begin

text \<open>
  Agent tokens at the doors of a process: what an accepted one holds, that no token is ever read as
  the other kind, that a relay checks the same token, and that a proof is spent once whatever door
  it is presented at.
\<close>

section \<open>A run of presentations\<close>

text \<open>
  Requests in order, at whatever doors: each brings its token, its moment and its door's settings;
  the cache is one, and so is what the revocation hook keeps.
\<close>

fun door_run :: "go_lib \<Rightarrow> ReplayCache \<Rightarrow> 'w \<Rightarrow> (string \<times> 'w AccessOptions) list \<Rightarrow> (deleg_error + VerifiedAgent) list" where
  "door_run lib c w [] = []"
| "door_run lib c w ((token, opts) # reqs) =
     (case VerifyAccess lib token (opts\<lparr>ao_Proofs := Some c\<rparr>) w of
        (pc, w', r) \<Rightarrow> r # door_run lib (case pc of None \<Rightarrow> c | Some c' \<Rightarrow> c') w' reqs)"

definition request_proof :: "go_lib \<Rightarrow> string \<times> 'w AccessOptions \<Rightarrow> deleg_error + presentedProof" where
  "request_proof lib req =
     (case req of (token, opts) \<Rightarrow> verifyProof lib (ao_Proof opts) (ao_Method opts) (ao_URL opts) (door_now opts))"

text \<open>No clock between the two requests has passed the first one's proof by more than its window.\<close>

definition in_window :: "(string \<times> 'w AccessOptions) list \<Rightarrow> nat \<Rightarrow> nat \<Rightarrow> gtime \<Rightarrow> bool" where
  "in_window reqs a b iat \<longleftrightarrow> list_all (\<lambda>(token, opts). door_now opts - iat \<le> Window) (take (b - a) (drop (Suc a) reqs))"

lemma door_step:
  assumes "VerifyAccess lib token (opts\<lparr>ao_Proofs := Some c\<rparr>) w = (pc, w', r)"
  obtains c' where "pc = Some c'" "c' = c" "\<And>v. r \<noteq> Inr v"
  | c' p e where "pc = Some c'" "request_proof lib (token, opts) = Inr p" "\<not> stale (door_now opts) (pp_iat p)"
      "rc_present c (pp_jti p) (pp_iat p) (door_now opts) = (c', e)" "e = None \<longleftrightarrow> (\<exists>v. r = Inr v)"
      "\<And>v. r = Inr v \<Longrightarrow> va_ProofJTI v = pp_jti p"
proof (cases "ao_Revoked opts")
  case None
  with assms show thesis by (intro that(1)) (auto simp: VerifyAccess_def)
next
  case (Some f)
  let ?n = "door_now opts" and ?o = "opts\<lparr>ao_Proofs := Some c\<rparr>"
  have n: "time_of_unix (time_Unix (ao_Now opts)) = ?n" "time_of_unix (time_Unix (ao_Now ?o)) = ?n" by (simp_all add: door_now_def)
  show thesis
  proof (cases "\<exists>a p w1. agentClaims token ?o (time_Unix ?n) = Inr a \<and> proof_checked lib token ?o ?n a = Inr p \<and> f (ac_jti a) (ac_sub a) (ac_iat a) w = (False, w1)")
    case True
    then obtain a p w1 where a: "agentClaims token ?o (time_Unix ?n) = Inr a" "proof_checked lib token ?o ?n a = Inr p"
      "f (ac_jti a) (ac_sub a) (ac_iat a) w = (False, w1)" by blast
    obtain c' e where e: "CheckAndRecord c (pp_jti p) ?n = (c', e)" by fastforce
    from a(2) have p: "verifyProof lib (ao_Proof opts) (ao_Method opts) (ao_URL opts) ?n = Inr p"
      by (simp add: proof_checked_iff)
    then have st: "\<not> stale ?n (pp_iat p)" unfolding verifyProof_iff check_claims_iff by auto
    from assms have "pc = Some c'" "r = (case e of Some err \<Rightarrow> Inl err | None \<Rightarrow> Inr (verified a (pp_jti p)))"
      unfolding VerifyAccess_def n by (auto simp: Some a e split: option.splits)
    with p st e show thesis
      by (intro that(2) [of c' p e]) (auto simp: request_proof_def rc_present_def verified_def split: option.splits)
  next
    case False
    with assms show thesis
      by (intro that(1)) (auto simp: VerifyAccess_def n Some Let_def split: sum.splits prod.splits option.splits if_splits)
  qed
qed

lemma length_door_run [simp]: "length (door_run lib c w reqs) = length reqs"
  by (induction lib c w reqs rule: door_run.induct) (auto split: prod.splits)

lemma door_run_take: "door_run lib c w (take n reqs) = take n (door_run lib c w reqs)"
  by (induction lib c w reqs arbitrary: n rule: door_run.induct) (auto simp: take_Cons' split: prod.splits)

lemma remembered_by_doors:
  assumes "rc_sound c" "rc_remembers c jti iat"
    and "\<forall>(token, opts) \<in> set reqs. clock_time (door_now opts) \<and> door_now opts - iat \<le> Window"
  shows "list_all (\<lambda>r. \<forall>v. r = Inr v \<longrightarrow> va_ProofJTI v \<noteq> jti) (door_run lib c w reqs)"
  using assms
proof (induction lib c w reqs rule: door_run.induct)
  case (2 lib c w token opts reqs)
  obtain pc w' r where v: "VerifyAccess lib token (opts\<lparr>ao_Proofs := Some c\<rparr>) w = (pc, w', r)" by (metis prod_cases3)
  have now: "clock_time (door_now opts)" "door_now opts - iat \<le> Window" using 2(4) by auto
  from v show ?case
  proof (cases rule: door_step)
    case (1 c')
    with 2(1) [OF v [symmetric]] 2(2-4) v show ?thesis by auto
  next
    case (2 c' p e)
    have s: "rc_sound c'" "rc_remembers c' jti iat"
      using cache.keeps_sound cache.keeps_remembering "2.prems"(1,2) now 2(4) by blast+
    have "va_ProofJTI u \<noteq> jti" if "r = Inr u" for u
    proof
      assume "va_ProofJTI u = jti"
      with 2(6) [OF that] have "pp_jti p = jti" by simp
      with cache.refuses_remembered [OF "2.prems"(1) now(1) "2.prems"(2) now(2)] 2(4) have "e \<noteq> None" by blast
      with 2(5) that show False by blast
    qed
    with "2.IH" [OF v [symmetric]] s "2.prems"(3) v 2(1) show ?thesis by auto
  qed
qed simp

lemma door_run_spends_once:
  assumes "rc_sound c" "\<forall>(token, opts) \<in> set reqs. clock_time (door_now opts)"
    and "a < b" "b < length reqs" "request_proof lib (reqs ! a) = Inr p" "in_window reqs a b (pp_iat p)"
    and "door_run lib c w reqs ! a = Inr u" "door_run lib c w reqs ! b = Inr v"
  shows "va_ProofJTI u \<noteq> va_ProofJTI v"
  using assms
proof (induction lib c w reqs arbitrary: a b rule: door_run.induct)
  case (2 lib c w token opts reqs)
  obtain pc w' r where v: "VerifyAccess lib token (opts\<lparr>ao_Proofs := Some c\<rparr>) w = (pc, w', r)" by (metis prod_cases3)
  have now: "clock_time (door_now opts)" using "2.prems"(2) by auto
  obtain b' where b: "b = Suc b'" using "2.prems"(3) by (cases b) auto
  obtain c' where c': "pc = Some c'" "rc_sound c'"
    using v
  proof (cases rule: door_step)
    case (1 c')
    with "2.prems"(1) that show thesis by blast
  next
    case (2 c' p e)
    with cache.keeps_sound "2.prems"(1) now that show thesis by blast
  qed
  have run: "door_run lib c w ((token, opts) # reqs) = r # door_run lib c' w' reqs" using v c' by simp
  show ?case
  proof (cases a)
    case (Suc a')
    show ?thesis
      by (rule "2.IH" [OF v [symmetric] refl, of a' b'])
        (use "2.prems" c' run Suc b in \<open>auto simp: in_window_def\<close>)
  next
    case 0
    with "2.prems"(7) run have r: "r = Inr u" by simp
    have win: "\<forall>(token, opts) \<in> set (take (Suc b') reqs). clock_time (door_now opts) \<and> door_now opts - pp_iat p \<le> Window"
      using "2.prems"(2,6) 0 b by (auto simp: in_window_def list_all_iff dest: in_set_takeD)
    from v have rem: "rc_remembers c' (va_ProofJTI u) (pp_iat p)"
    proof (cases rule: door_step)
      case (1 c1)
      with r show ?thesis by blast
    next
      case (2 c1 q e)
      have "q = p" using 2(2) "2.prems"(5) 0 by simp
      moreover have "e = None" using 2(5) r by blast
      ultimately show ?thesis
        using cache.accept_remembers [OF "2.prems"(1) now 2(3), of "pp_jti p" c1] 2(1,4) 2(6) [OF r] c'(1) by simp
    qed
    have "list_all (\<lambda>r. \<forall>v. r = Inr v \<longrightarrow> va_ProofJTI v \<noteq> va_ProofJTI u) (door_run lib c' w' (take (Suc b') reqs))"
      by (rule remembered_by_doors [OF c'(2) rem win])
    moreover have "door_run lib c' w' (take (Suc b') reqs) ! b' = Inr v" "b' < length (door_run lib c' w' (take (Suc b') reqs))"
      using "2.prems"(4,8) run b by (simp_all add: door_run_take)
    ultimately have "va_ProofJTI v \<noteq> va_ProofJTI u" unfolding list_all_length by blast
    then show ?thesis by simp
  qed
qed simp

section \<open>Properties\<close>

text \<open>
  C25. The kinds of token are disjoint. Whatever keys, clocks and settings two verifiers hold, no
  string is accepted as a delegation token by one and as an agent's own token, at a door or relayed,
  by the other; and no string is accepted both as an agent token and as a proof of possession. The
  three readers of the header agree on the member \<^verbatim>\<open>typ\<close>, and it decides.
\<close>

theorem kinds_apart:
  "\<not> (Verify lib token o1 w1 = (vs, w1', Inr v) \<and> VerifyAccess lib token o2 w2 = (pc, w2', Inr a)) \<and>
   \<not> (Verify lib token o1 w1 = (vs, w1', Inr v) \<and> VerifyRelayedAccess token o2 w2 = (w2', Inr a)) \<and>
   \<not> (verifyProof lib token method url now = Inr p \<and> VerifyAccess lib token o2 w2 = (pc, w2', Inr a)) \<and>
   \<not> (verifyProof lib token method url now = Inr p \<and> VerifyRelayedAccess token o2 w2 = (w2', Inr a))"
proof -
  have d: "headerTyp token \<noteq> Some AgentTokenTyp" if "Verify lib token o1 w1 = (vs, w1', Inr v)"
    using that unfolding Verify_iff IsAgentToken_def by blast
  have not_agent: "headerTyp token \<noteq> Some AgentTokenTyp" if a: "verifyProof lib token method url now = Inr p"
  proof -
    from a obtain key claims where "proof_of token key claims" unfolding verifyProof_iff by blast
    then obtain h b s raw hdr where "split_at CHR ''.'' token = [h, b, s]" "unb64 h = Some raw" "read_dpop_header raw = Some hdr"
      and ty: "dh_Typ hdr = ''dpop+jwt''" unfolding proof_of_def by blast
    then have "headerTyp token = Some (dh_Typ hdr)" using proof_header_typ by blast
    with ty show ?thesis by (simp add: AgentTokenTyp_def)
  qed
  have agent: "headerTyp token = Some AgentTokenTyp" if "VerifyAccess lib token o2 w2 = (pc, w2', Inr a)" by (rule access_typ [OF that])
  have relayed: "headerTyp token = Some AgentTokenTyp" if "VerifyRelayedAccess token o2 w2 = (w2', Inr a)" by (rule relayed_typ [OF that])
  show ?thesis using d not_agent agent relayed by (intro conjI notI) (elim conjE; simp)+
qed

text \<open>
  C26. What an accepted agent token holds, with every number inside 64 bits. At the moment
  \<^verbatim>\<open>now\<close>, an \<^verbatim>\<open>int64\<close>, the claims are accepted exactly when the token declares
  itself an agent token, a key of the set verifies it, issuer and audience are the configured ones
  and both are configured, \<^verbatim>\<open>exp\<close> is a whole 64-bit second less than thirty seconds past,
  \<^verbatim>\<open>iat\<close> - 0 when absent - is one at most thirty seconds ahead, the subject is a named
  agent equal to the client and acts for nobody, and the token is bound to a key. Next to the ends of
  the range the leeway saturates; it never wraps.
\<close>

theorem agent_claims_iff:
  "agentClaims token opts (sint (now :: 64 word)) = Inr a \<longleftrightarrow>
     (\<exists>claims. headerTyp token = Some AgentTokenTyp \<and> VerifyToken token (ao_Keys opts) = Inr claims \<and>
        ao_Issuer opts \<noteq> [] \<and> str_claim claims ''iss'' = ao_Issuer opts \<and>
        ao_Audience opts \<noteq> [] \<and> audienceHas (map_of claims ''aud'') (ao_Audience opts) \<and>
        wholeSecond (map_of claims ''exp'') = Some (ac_exp a) \<and> is_int64 (ac_exp a) \<and> sint now < min maxInt64 (ac_exp a + 30) \<and>
        agent_iat claims = Some (ac_iat a) \<and> is_int64 (ac_iat a) \<and> ac_iat a \<le> sint now + 30 \<and>
        prefix ''agent://'' (ac_sub a) \<and> 8 < length (ac_sub a) \<and> ac_sub a = str_claim claims ''sub'' \<and>
        ac_sub a = str_claim claims ''client_id'' \<and> map_of claims ''act'' \<in> {None, Some GNull} \<and>
        ac_jti a = str_claim claims ''jti'' \<and> ac_jti a \<noteq> [] \<and> ac_jkt a = confirmationKey claims \<and> ac_jkt a \<noteq> [] \<and>
        optionalString claims ''unit'' = Some (ac_unit a) \<and> optionalString claims ''org'' = Some (ac_org a))"
proof -
  have n: "is_int64 (sint now)" by (rule sint_int64)
  have e: "is_int64 exp \<Longrightarrow> sint now < saturatingAdd exp 30 \<longleftrightarrow> sint now < min maxInt64 (exp + 30)" for exp
    using n by (auto simp: saturatingAdd_clamp clamp64_def int64_defs)
  have i: "is_int64 iat \<Longrightarrow> iat \<le> saturatingAdd (sint now) 30 \<longleftrightarrow> iat \<le> sint now + 30" for iat
    using n by (auto simp: saturatingAdd_clamp clamp64_def int64_defs)
  have named: "agent_named claims \<longleftrightarrow> prefix ''agent://'' (str_claim claims ''sub'') \<and> 8 < length (str_claim claims ''sub'') \<and>
      str_claim claims ''client_id'' = str_claim claims ''sub'' \<and> str_claim claims ''jti'' \<noteq> [] \<and> map_of claims ''act'' \<in> {None, Some GNull}" for claims
    by (simp add: agent_named_def Let_def not_le)
  show ?thesis (is "?l = ?r")
  proof
    assume ?l
    then obtain claims iat exp where c: "headerTyp token = Some AgentTokenTyp" "ao_Audience opts \<noteq> []" "VerifyToken token (ao_Keys opts) = Inr claims"
      "ao_Issuer opts \<noteq> []" "str_claim claims ''iss'' = ao_Issuer opts" "audienceHas (map_of claims ''aud'') (ao_Audience opts)"
      "wholeSecond (map_of claims ''exp'') = Some exp" "sint now < saturatingAdd exp 30"
      "agent_iat claims = Some iat" "iat \<le> saturatingAdd (sint now) 30" "claim_set claims iat exp = Inr a"
      unfolding agentClaims_steps by blast
    have "is_int64 exp" "is_int64 iat" using c(7,9) wholeSecond_int64 agent_iat_int64 by blast+
    with c show ?r unfolding claim_set_iff named by (intro exI [of _ claims]) (auto simp: e i)
  next
    assume ?r
    then obtain claims where c: "headerTyp token = Some AgentTokenTyp" "VerifyToken token (ao_Keys opts) = Inr claims"
      "ao_Issuer opts \<noteq> []" "str_claim claims ''iss'' = ao_Issuer opts" "ao_Audience opts \<noteq> []"
      "audienceHas (map_of claims ''aud'') (ao_Audience opts)" "wholeSecond (map_of claims ''exp'') = Some (ac_exp a)"
      "is_int64 (ac_exp a)" "sint now < min maxInt64 (ac_exp a + 30)" "agent_iat claims = Some (ac_iat a)" "is_int64 (ac_iat a)"
      "ac_iat a \<le> sint now + 30"
      and rest: "prefix ''agent://'' (ac_sub a)" "8 < length (ac_sub a)" "ac_sub a = str_claim claims ''sub''"
        "ac_sub a = str_claim claims ''client_id''" "map_of claims ''act'' \<in> {None, Some GNull}"
        "ac_jti a = str_claim claims ''jti''" "ac_jti a \<noteq> []" "ac_jkt a = confirmationKey claims" "ac_jkt a \<noteq> []"
        "optionalString claims ''unit'' = Some (ac_unit a)" "optionalString claims ''org'' = Some (ac_org a)"
      by (elim exE conjE)
    have "claim_set claims (ac_iat a) (ac_exp a) = Inr a" unfolding claim_set_iff named using rest by simp
    with c show ?l unfolding agentClaims_steps
      by (intro exI [of _ claims] exI [of _ "ac_iat a"] exI [of _ "ac_exp a"]) (simp add: e i)
  qed
qed

text \<open>One set of options at the two places: with the cache, or at the whole second and without it.\<close>

definition at_door :: "'w AccessOptions \<Rightarrow> ReplayCache \<Rightarrow> 'w hook \<Rightarrow> 'w AccessOptions" where
  "at_door opts c f = opts\<lparr>ao_Proofs := Some c, ao_Revoked := Some f\<rparr>"

definition as_relayed :: "'w AccessOptions \<Rightarrow> 'w hook \<Rightarrow> 'w AccessOptions" where
  "as_relayed opts f = opts\<lparr>ao_Now := door_now opts, ao_Proofs := None, ao_Revoked := Some f\<rparr>"

text \<open>The proof presented is for this request, by this key, beside this token.\<close>

definition proves :: "go_lib \<Rightarrow> string \<Rightarrow> 'w AccessOptions \<Rightarrow> string \<Rightarrow> presentedProof \<Rightarrow> bool" where
  "proves lib token opts jkt p \<longleftrightarrow>
     ao_Proof opts \<noteq> [] \<and> ao_Method opts \<noteq> [] \<and> ao_URL opts \<noteq> [] \<and> request_proof lib (token, opts) = Inr p \<and>
     length (pp_jti p) \<le> 256 \<and> pp_thumb p = jkt \<and> pp_ath p = AccessTokenHash token"

lemma door_options:
  "ao_Proofs (at_door opts c f) = Some c" "ao_Revoked (at_door opts c f) = Some f" "ao_Revoked (as_relayed opts f) = Some f"
  "time_of_unix (time_Unix (ao_Now (at_door opts c f))) = door_now opts"
  "ao_Now (as_relayed opts f) = door_now opts" "door_now (at_door opts c f) = door_now opts"
  "agentClaims token (at_door opts c f) t = agentClaims token opts t"
  "agentClaims token (as_relayed opts f) t = agentClaims token opts t"
  "proof_checked lib token (at_door opts c f) (door_now opts) a = Inr p \<longleftrightarrow> proves lib token opts (ac_jkt a) p"
  by (simp_all add: at_door_def as_relayed_def door_now_def agentClaims_def proof_checked_iff proves_def request_proof_def
      maxProofJTIBytes_def Let_def cong: if_cong sum.case_cong option.case_cong)

lemma at_the_relay:
  "VerifyRelayedAccess token (as_relayed opts f) w = (w', Inr u) \<longleftrightarrow>
     (\<exists>a. agentClaims token opts (time_Unix (door_now opts)) = Inr a \<and> f (ac_jti a) (ac_sub a) (ac_iat a) w = (False, w') \<and> u = verified a [])"
  unfolding VerifyRelayedAccess_steps [OF door_options(3)] door_options by (rule refl)

lemma verified_parts:
  "v = verified a j \<longleftrightarrow> v\<lparr>va_ProofJTI := []\<rparr> = verified a [] \<and> va_ProofJTI v = j" "va_JKT (verified a j) = ac_jkt a"
  by (cases v; auto simp: verified_def)+

lemma door_accepts:
  "VerifyAccess lib token (at_door opts c f) w = (pc, w', Inr v) \<longleftrightarrow>
     (\<exists>p c'. VerifyRelayedAccess token (as_relayed opts f) w = (w', Inr (v\<lparr>va_ProofJTI := []\<rparr>)) \<and>
        proves lib token opts (va_JKT v) p \<and> va_ProofJTI v = pp_jti p \<and>
        CheckAndRecord c (pp_jti p) (door_now opts) = (c', None) \<and> pc = Some c')"
proof -
  have j: "v = verified a j \<and> proves lib token opts (ac_jkt a) p \<longleftrightarrow> v = verified a j \<and> proves lib token opts (va_JKT v) p" for a j p
    by (auto simp: verified_parts(2))
  have "VerifyAccess lib token (at_door opts c f) w = (pc, w', Inr v) \<longleftrightarrow>
      (\<exists>a p c'. agentClaims token opts (time_Unix (door_now opts)) = Inr a \<and> f (ac_jti a) (ac_sub a) (ac_iat a) w = (False, w') \<and>
        CheckAndRecord c (pp_jti p) (door_now opts) = (c', None) \<and> pc = Some c' \<and> (v = verified a (pp_jti p) \<and> proves lib token opts (ac_jkt a) p))"
    unfolding VerifyAccess_steps [OF door_options(1,2)] door_options by auto
  then show ?thesis unfolding j unfolding at_the_relay verified_parts(1) [of v] by blast
qed

lemma door_result:
  assumes "agentClaims token opts (time_Unix (door_now opts)) = Inr a" "proves lib token opts (ac_jkt a) p"
    "f (ac_jti a) (ac_sub a) (ac_iat a) w = (False, w')" "CheckAndRecord c (pp_jti p) (door_now opts) = (c', e)"
  shows "\<exists>r. VerifyAccess lib token (at_door opts c f) w = (Some c', w', r)"
proof -
  have "proof_checked lib token (at_door opts c f) (door_now opts) a = Inr p" using assms(2) by (simp only: door_options)
  then show ?thesis
    unfolding VerifyAccess_def door_options(1,2,4,7) prod.case option.case Let_def
    using assms(1,3,4) by (cases e) simp_all
qed

lemma door_moves:
  assumes "VerifyAccess lib token (at_door opts c f) w = (Some c', w1, r)" "c' \<noteq> c"
  obtains a p w' e where "agentClaims token opts (time_Unix (door_now opts)) = Inr a" "proves lib token opts (ac_jkt a) p"
    "f (ac_jti a) (ac_sub a) (ac_iat a) w = (False, w')" "CheckAndRecord c (pp_jti p) (door_now opts) = (c', e)"
  using assms unfolding VerifyAccess_def door_options prod.case option.case Let_def
  by (auto simp: door_options split: sum.splits prod.splits option.splits if_splits)

lemma door_spends:
  "(\<exists>w1 r. VerifyAccess lib token (at_door opts c f) w = (Some c', w1, r) \<and> c' \<noteq> c) \<longleftrightarrow>
     c' \<noteq> c \<and> (\<exists>u w' p e. VerifyRelayedAccess token (as_relayed opts f) w = (w', Inr u) \<and> proves lib token opts (va_JKT u) p \<and>
        CheckAndRecord c (pp_jti p) (door_now opts) = (c', e))"
  (is "?l \<longleftrightarrow> ?r")
proof
  assume ?l
  then obtain w1 r where v: "VerifyAccess lib token (at_door opts c f) w = (Some c', w1, r)" "c' \<noteq> c" by blast
  then obtain a p w' e where a: "agentClaims token opts (time_Unix (door_now opts)) = Inr a" "proves lib token opts (ac_jkt a) p"
    "f (ac_jti a) (ac_sub a) (ac_iat a) w = (False, w')" "CheckAndRecord c (pp_jti p) (door_now opts) = (c', e)" by (rule door_moves)
  have "VerifyRelayedAccess token (as_relayed opts f) w = (w', Inr (verified a []))" unfolding at_the_relay using a by blast
  moreover have "proves lib token opts (va_JKT (verified a [])) p" using a(2) by (simp only: verified_parts(2))
  ultimately show ?r using a(4) v(2) by blast
next
  assume ?r
  then obtain u w' p e where r: "VerifyRelayedAccess token (as_relayed opts f) w = (w', Inr u)" "proves lib token opts (va_JKT u) p"
    "CheckAndRecord c (pp_jti p) (door_now opts) = (c', e)" "c' \<noteq> c" by blast
  obtain a where a: "agentClaims token opts (time_Unix (door_now opts)) = Inr a" "f (ac_jti a) (ac_sub a) (ac_iat a) w = (False, w')"
    "u = verified a []" using r(1) unfolding at_the_relay by blast
  then have "proves lib token opts (ac_jkt a) p" using r(2) by (simp only: verified_parts(2))
  from door_result [where f = f, OF a(1) this a(2) r(3)] show ?l using r(4) by blast
qed

text \<open>
  C27. A door checks what a relay checks, and the proof, and nothing is spent on a refusal. An agent
  token is accepted at a door exactly when it would be accepted relayed at that whole second - by the
  same list, with the same result but for the proof's identifier - and the proof verifies for the
  door's own request at that second, has an identifier of at most 256 bytes, is signed by the key the
  token is bound to, names this very token in its \<^verbatim>\<open>ath\<close>, and the cache had not
  seen it. Whatever is presented, the cache changes only when all of that but the cache's own answer
  held.
\<close>

theorem door_and_relay:
  "(VerifyAccess lib token (at_door opts c f) w = (pc, w', Inr v) \<longleftrightarrow>
      (\<exists>p c'. VerifyRelayedAccess token (as_relayed opts f) w = (w', Inr (v\<lparr>va_ProofJTI := []\<rparr>)) \<and>
         proves lib token opts (va_JKT v) p \<and> va_ProofJTI v = pp_jti p \<and>
         CheckAndRecord c (pp_jti p) (door_now opts) = (c', None) \<and> pc = Some c')) \<and>
   ((\<exists>w1 r. VerifyAccess lib token (at_door opts c f) w = (Some c1, w1, r) \<and> c1 \<noteq> c) \<longleftrightarrow>
      c1 \<noteq> c \<and> (\<exists>u w2 p e. VerifyRelayedAccess token (as_relayed opts f) w = (w2, Inr u) \<and> proves lib token opts (va_JKT u) p \<and>
         CheckAndRecord c (pp_jti p) (door_now opts) = (c1, e)))"
  by (intro conjI door_accepts door_spends)

text \<open>
  C28. A proof is spent once, whatever door it is presented at. In any run of requests at the doors
  of one process, with one cache from its start: no two requests are accepted with the same proof
  identifier unless, after the first, some door's clock had passed that proof's own window. Refused
  requests, at any door and for any reason, change nothing about it.
\<close>

theorem access_single_use:
  assumes "list_all (\<lambda>(token, opts). clock_time (door_now opts)) reqs"
  shows "\<not> (\<exists>a b p u v. a < b \<and> b < length reqs \<and>
    door_run lib (NewReplayCache n) w reqs ! a = Inr u \<and> door_run lib (NewReplayCache n) w reqs ! b = Inr v \<and>
    va_ProofJTI u = va_ProofJTI v \<and> request_proof lib (reqs ! a) = Inr p \<and> in_window reqs a b (pp_iat p))"
proof -
  have "rc_sound (NewReplayCache n)"
    by (simp add: rc_sound_def NewReplayCache_def int64_defs)
  moreover have "\<forall>(token, opts) \<in> set reqs. clock_time (door_now opts)" using assms by (simp add: list_all_iff)
  ultimately show ?thesis
    by (intro notI) (elim exE conjE, rule door_run_spends_once [THEN notE], assumption+)
qed

definition sample_door :: "unit AccessOptions" where
  "sample_door = \<lparr>ao_Keys = [FromPublic sample_pub ''k''], ao_Issuer = ''https://as'', ao_Audience = ''https://api'', ao_Now = 0,
     ao_Proof = sample_token, ao_Method = ''GET'', ao_URL = ''https://api/x'', ao_Proofs = None, ao_Revoked = Some (\<lambda>j s i w. (False, w))\<rparr>"

theorem access_single_use_witness:
  "\<not> (\<exists>a b p u v. a < b \<and> b < length [(sample_token, sample_door), (sample_token, sample_door)] \<and>
    door_run plain_lib (NewReplayCache 8) () [(sample_token, sample_door), (sample_token, sample_door)] ! a = Inr u \<and>
    door_run plain_lib (NewReplayCache 8) () [(sample_token, sample_door), (sample_token, sample_door)] ! b = Inr v \<and>
    va_ProofJTI u = va_ProofJTI v \<and>
    request_proof plain_lib ([(sample_token, sample_door), (sample_token, sample_door)] ! a) = Inr p \<and>
    in_window [(sample_token, sample_door), (sample_token, sample_door)] a b (pp_iat p))"
proof (rule access_single_use)
  show "list_all (\<lambda>(token, opts). clock_time (door_now opts)) [(sample_token, sample_door), (sample_token, sample_door)]"
    by (simp add: sample_door_def door_now_def clock_time_def time_of_unix_def time_Unix_def Second_def wrap64_def unixToInternal_def
        int64_defs)
qed

end
