(* ===== verification/Revoked_Doors.thy ===== *)
theory Revoked_Doors
  imports Access_Door
begin

text \<open>
  The revocation hook as the verifiers know it (\<^verbatim>\<open>Options.Revoked\<close> and
  \<^verbatim>\<open>AccessOptions.Revoked\<close>), and the package's own list behind it: a party the list names
  is turned away at every door, whatever the list went through in between.
\<close>

section \<open>A hook whose verdict is its list's\<close>

text \<open>What is kept of the observer's state does not matter: the verdict is a function of the question.\<close>

definition answers :: "'w hook \<Rightarrow> (string \<Rightarrow> string \<Rightarrow> int \<Rightarrow> bool) \<Rightarrow> bool" where
  "answers hook verdict \<longleftrightarrow> (\<forall>jti party iat w. fst (hook jti party iat w) = verdict jti party iat)"

lemma asks_answers: "answers hook verdict \<Longrightarrow> fst (asks hook jti iat ps w) = list_ex (\<lambda>p. verdict jti p iat) ps"
proof (induction ps arbitrary: w)
  case (Cons p ps)
  obtain hit w' where h: "hook jti p iat w = (hit, w')" by fastforce
  with Cons.prems have "hit = verdict jti p iat" unfolding answers_def by (metis fst_conv)
  with Cons h show ?case by simp
qed simp

lemma Hook_answers: "answers (Hook r now obs) (\<lambda>jti party iat. ans_Revoked (Check r jti party iat now))"
  by (simp add: answers_def Hook_def Let_def)

text \<open>An accepted token is one about none of whose parties the hook said yes.\<close>

lemma Verify_unrevoked:
  assumes "Verify lib token opts w = (vs, w', Inr v)" "op_Revoked opts = Some hook" "answers hook verdict"
  shows "\<forall>party \<in> set (vf_Chain v). \<not> verdict (vf_JTI v) party (vf_IssuedAt v)"
proof -
  from assms(1,2) have "fst (asks hook (vf_JTI v) (vf_IssuedAt v) (vf_Chain v) w) = False"
    unfolding Verify_iff by auto
  with asks_answers [OF assms(3)] show ?thesis by (simp add: list_ex_iff)
qed

lemma VerifyRelayedAccess_unrevoked:
  assumes "VerifyRelayedAccess token opts w = (w', Inr a)" "ao_Revoked opts = Some hook" "answers hook verdict"
  shows "\<not> verdict (va_JTI a) (va_Subject a) (va_IssuedAt a)"
proof -
  obtain c where "hook (ac_jti c) (ac_sub c) (ac_iat c) w = (False, w')" "a = verified c []"
    using assms(1) unfolding VerifyRelayedAccess_steps [OF assms(2)] by blast
  with assms(3) show ?thesis unfolding answers_def verified_def by (metis VerifiedAgent.select_convs fst_conv)
qed

lemma VerifyAccess_unrevoked:
  assumes "VerifyAccess lib token opts w = (pc, w', Inr a)" "ao_Revoked opts = Some hook" "answers hook verdict"
  shows "\<not> verdict (va_JTI a) (va_Subject a) (va_IssuedAt a)"
proof -
  from assms(1) obtain cache where c: "ao_Proofs opts = Some cache" unfolding VerifyAccess_def by (cases "ao_Proofs opts") auto
  obtain c and p :: presentedProof where "hook (ac_jti c) (ac_sub c) (ac_iat c) w = (False, w')" "a = verified c (pp_jti p)"
    using assms(1) unfolding VerifyAccess_steps [OF c assms(2)] by blast
  with assms(3) show ?thesis unfolding answers_def verified_def by (metis VerifiedAgent.select_convs fst_conv)
qed

section \<open>The contract of a revocation list\<close>

text \<open>
  A list answers a question, takes updates, and names entries; an update that does not withdraw an
  entry keeps it, and an entry that is named and concerns the token is a yes.
\<close>

locale revocation_list =
  fixes verdict :: "'r \<Rightarrow> gtime \<Rightarrow> string \<Rightarrow> string \<Rightarrow> int \<Rightarrow> bool"
    and update :: "'r \<Rightarrow> 'c \<Rightarrow> 'r"
    and names :: "'r \<Rightarrow> 'e \<Rightarrow> bool"
    and withdraws :: "'c \<Rightarrow> 'e \<Rightarrow> bool"
    and concerns :: "'e \<Rightarrow> gtime \<Rightarrow> string \<Rightarrow> string \<Rightarrow> int \<Rightarrow> bool"
  assumes keeps: "names r e \<Longrightarrow> \<not> withdraws c e \<Longrightarrow> names (update r c) e"
    and says_yes: "names r e \<Longrightarrow> concerns e now jti party iat \<Longrightarrow> verdict r now jti party iat"
begin

lemma run_keeps: "names r e \<Longrightarrow> list_all (\<lambda>c. \<not> withdraws c e) cs \<Longrightarrow> names (foldl update r cs) e"
  by (induction cs arbitrary: r) (auto intro: keeps)

lemma Verify_turns_away:
  assumes "names r e" "list_all (\<lambda>c. \<not> withdraws c e) cs"
    and "answers hook (verdict (foldl update r cs) now)" "op_Revoked opts = Some hook"
    and "Verify lib token opts w = (vs, w', Inr v)" "party \<in> set (vf_Chain v)"
  shows "\<not> concerns e now (vf_JTI v) party (vf_IssuedAt v)"
  using Verify_unrevoked [OF assms(5,4,3)] assms(6) says_yes [OF run_keeps [OF assms(1,2)]] by blast

lemma doors_turn_away:
  assumes "names r e" "list_all (\<lambda>c. \<not> withdraws c e) cs"
    and "answers hook (verdict (foldl update r cs) now)" "ao_Revoked opts = Some hook"
    and "VerifyAccess lib token opts w = (pc, w', Inr a) \<or> VerifyRelayedAccess token opts w = (w', Inr a)"
  shows "\<not> concerns e now (va_JTI a) (va_Subject a) (va_IssuedAt a)"
  using assms(5) VerifyAccess_unrevoked [OF _ assms(4,3)] VerifyRelayedAccess_unrevoked [OF _ assms(4,3)]
    says_yes [OF run_keeps [OF assms(1,2)]] by blast

end

section \<open>The package's list\<close>

definition list_names :: "Revocations \<Rightarrow> Revocation \<Rightarrow> bool" where
  "list_names r e \<longleftrightarrow> (\<exists>h. held r = Some h \<and> e \<in> set (snap_Revocations h))"

definition withdrawn_by :: "cache_op \<Rightarrow> Revocation \<Rightarrow> bool" where
  "withdrawn_by c e \<longleftrightarrow> (\<exists>s. offered c = Some s \<and> e \<notin> set (snap_Revocations s))"

definition entry_concerns :: "Revocation \<Rightarrow> gtime \<Rightarrow> string \<Rightarrow> string \<Rightarrow> int \<Rightarrow> bool" where
  "entry_concerns e now jti party iat \<longleftrightarrow> liveAt e now \<and> covers e jti party iat"

interpretation polled: revocation_list
    "\<lambda>r now jti party iat. ans_Revoked (Check r jti party iat now)" cache_step list_names withdrawn_by entry_concerns
proof unfold_locales
  fix r e c
  assume "list_names r e" "\<not> withdrawn_by c e"
  then obtain h where h: "held r = Some h" "e \<in> set (snap_Revocations h)" "\<forall>s. offered c = Some s \<longrightarrow> e \<in> set (snap_Revocations s)"
    by (auto simp: list_names_def withdrawn_by_def)
  obtain h' where "held (cache_step r c) = Some h'" using cache_step_cursor [OF h(1)] by blast
  with cache_step_held [of r c] h show "list_names (cache_step r c) e" by (auto simp: list_names_def)
next
  fix r e now jti party iat
  assume "list_names r e" "entry_concerns e now jti party iat"
  then show "ans_Revoked (Check r jti party iat now)"
    by (auto simp: list_names_def entry_concerns_def refused_by_iff refused_by_def live_hit_def)
qed

text \<open>
  C7. A revoked party is turned away at every door. Once the held list names an entry, and while
  every snapshot offered since still does, no order of installs, failed polls, refused cursors and
  age settings, under either fail mode and at any age, lets a token through that a live entry covers:
  not a delegation token with that party anywhere in its chain, not an agent token of that agent,
  neither at a door that sees its proof nor at one it is relayed to, whatever the observer does.
\<close>

theorem revoked_turned_away:
  assumes "held r = Some h" "e \<in> set (snap_Revocations h)" "liveAt e now"
    and "\<forall>c \<in> set ops. \<forall>s. offered c = Some s \<longrightarrow> e \<in> set (snap_Revocations s)"
    and "hook = Hook (cache_run r ops) now obs"
  shows
    "(Verify lib token (dopts\<lparr>op_Revoked := Some hook\<rparr>) w = (vs, w', Inr v) \<longrightarrow>
        (\<forall>party \<in> set (vf_Chain v). \<not> covers e (vf_JTI v) party (vf_IssuedAt v))) \<and>
     (VerifyAccess lib token (aopts\<lparr>ao_Revoked := Some hook\<rparr>) w = (pc, w', Inr a) \<or>
      VerifyRelayedAccess token (aopts\<lparr>ao_Revoked := Some hook\<rparr>) w = (w', Inr a) \<longrightarrow>
        \<not> covers e (va_JTI a) (va_Subject a) (va_IssuedAt a))"
proof (intro conjI impI ballI)
  have named: "list_names r e" "list_all (\<lambda>c. \<not> withdrawn_by c e) ops"
    using assms(1,2,4) by (auto simp: list_names_def withdrawn_by_def list_all_iff)
  have verdict: "answers hook (\<lambda>jti party iat. ans_Revoked (Check (foldl cache_step r ops) jti party iat now))"
    unfolding assms(5) cache_run_def by (rule Hook_answers)
  note live = assms(3)
  show "\<not> covers e (vf_JTI v) party (vf_IssuedAt v)"
    if "Verify lib token (dopts\<lparr>op_Revoked := Some hook\<rparr>) w = (vs, w', Inr v)" "party \<in> set (vf_Chain v)" for party
    using polled.Verify_turns_away [OF named verdict _ that] live by (simp add: entry_concerns_def)
  show "\<not> covers e (va_JTI a) (va_Subject a) (va_IssuedAt a)"
    if "VerifyAccess lib token (aopts\<lparr>ao_Revoked := Some hook\<rparr>) w = (pc, w', Inr a) \<or>
        VerifyRelayedAccess token (aopts\<lparr>ao_Revoked := Some hook\<rparr>) w = (w', Inr a)"
    using polled.doors_turn_away [OF named verdict _ that] live by (simp add: entry_concerns_def)
qed

definition turned_away :: "Revocation \<Rightarrow> unit hook \<Rightarrow> bool" where
  "turned_away e hook \<longleftrightarrow>
     (\<forall>lib token aopts pc w a.
        VerifyAccess lib token (aopts\<lparr>ao_Revoked := Some hook\<rparr>) () = (pc, w, Inr a) \<longrightarrow>
        \<not> covers e (va_JTI a) (va_Subject a) (va_IssuedAt a))"

theorem revoked_turned_away_witness:
  "turned_away example_entry (Hook (cache_run example_cache [OpRefresh (Inl ErrOther) 4, OpSetMaxAge 0]) Minute None)"
  unfolding turned_away_def
proof (intro allI impI)
  fix lib token pc a and w :: unit and aopts :: "unit AccessOptions"
  let ?hook = "Hook (cache_run example_cache [OpRefresh (Inl ErrOther) 4, OpSetMaxAge 0]) Minute None :: unit hook"
  assume acc: "VerifyAccess lib token (aopts\<lparr>ao_Revoked := Some ?hook\<rparr>) () = (pc, w, Inr a)"
  have cache: "held example_cache = Some \<lparr>snap_Revocations = [example_entry], snap_AsOf = 5\<rparr>" by (simp add: example_cache_def)
  have live: "liveAt example_entry Minute"
    by (simp add: example_entry_def liveAt_def Minute_def Second_def time_Unix_def)
  show "\<not> covers example_entry (va_JTI a) (va_Subject a) (va_IssuedAt a)"
    using revoked_turned_away [OF cache _ live, of "[OpRefresh (Inl ErrOther) 4, OpSetMaxAge 0]" ?hook None,
        THEN conjunct2] acc by auto
qed

end
