(* ===== verification/Watch_Read.thy ===== *)
theory Watch_Read
  imports Event_Chain
begin

text \<open>
  cmd/agent-conform/watchdir.go, reading one stream of the bus: the two readers that bound what the
  library's verifier is handed, call by call, and \<open>verifyStream\<close>. A file is what is left of its
  bytes and whether reading past them fails; each call may return fewer bytes than it was asked for.
\<close>

section \<open>Reads\<close>

datatype read_stop = StopEOF | StopErr | StopLong nat

type_synonym os_file = "bytes \<times> bool"

text \<open>\<^verbatim>\<open>os.File.Read\<close>: at most \<open>want\<close> bytes, and at most \<open>k + 1\<close> of them this time.\<close>

definition os_read :: "os_file \<Rightarrow> nat \<Rightarrow> nat \<Rightarrow> os_file \<times> bytes \<times> read_stop option" where
  "os_read f want k =
     (case f of (rest, bad) \<Rightarrow>
        let m = min want (Suc k) in
        ((drop m rest, bad), take m rest, if rest = [] then Some (if bad then StopErr else StopEOF) else None))"

record byteCapReader =
  bc_r :: os_file
  bc_max :: int
  bc_n :: int
  bc_truncated :: bool

definition byteCap_Read :: "byteCapReader \<Rightarrow> nat \<Rightarrow> nat \<Rightarrow> byteCapReader \<times> bytes \<times> read_stop option" where
  "byteCap_Read b want k =
     (if bc_n b \<ge> bc_max b then
        (case os_read (bc_r b) 1 k of
           (f', one, _) \<Rightarrow> (b\<lparr>bc_r := f', bc_truncated := (if one \<noteq> [] then True else bc_truncated b)\<rparr>, [], Some StopEOF))
      else
        let rem = bc_max b - bc_n b; want' = (if int want > rem then nat rem else want) in
        (case os_read (bc_r b) want' k of
           (f', p, stop) \<Rightarrow> (b\<lparr>bc_r := f', bc_n := bc_n b + int (length p)\<rparr>, p, stop)))"

record lineCapReader =
  lc_r :: byteCapReader
  lc_max :: nat
  lc_run :: nat
  lc_line :: nat

fun lineCap_loop :: "nat \<Rightarrow> nat \<times> nat \<Rightarrow> bytes \<Rightarrow> bytes \<times> (nat \<times> nat) \<times> read_stop option" where
  "lineCap_loop cap (run, line) [] = ([], (run, line), None)"
| "lineCap_loop cap (run, line) (c # cs) =
     (if c = LF then (case lineCap_loop cap (0, line + 1) cs of (d, st, stop) \<Rightarrow> (c # d, st, stop))
      else if run + 1 > cap then ([], (run + 1, line), Some (StopLong line))
      else (case lineCap_loop cap (run + 1, line) cs of (d, st, stop) \<Rightarrow> (c # d, st, stop)))"

definition lineCap_Read :: "lineCapReader \<Rightarrow> nat \<Rightarrow> nat \<Rightarrow> lineCapReader \<times> bytes \<times> read_stop option" where
  "lineCap_Read l want k =
     (case byteCap_Read (lc_r l) want k of
        (b', p, stop) \<Rightarrow>
          (case lineCap_loop (lc_max l) (lc_run l, lc_line l) p of
             (d, (run, line), long) \<Rightarrow>
               (l\<lparr>lc_r := b', lc_run := run, lc_line := line\<rparr>, d, if long \<noteq> None then long else stop)))"

text \<open>Calls until one of them stops: what was handed over, why it stopped, and the reader left.\<close>

fun read_all :: "lineCapReader \<Rightarrow> (nat \<times> nat) list \<Rightarrow> bytes \<times> read_stop option \<times> lineCapReader" where
  "read_all l [] = ([], None, l)"
| "read_all l ((want, k) # calls) =
     (case lineCap_Read l want k of
        (l', d, Some stop) \<Rightarrow> (d, Some stop, l')
      | (l', d, None) \<Rightarrow> (case read_all l' calls of (ds, r) \<Rightarrow> (d @ ds, r)))"

section \<open>One stream\<close>

text \<open>What the two readers hand over, however the reads are cut: the bytes, why they end, and whether the byte cap cut them.\<close>

definition capped :: "os_file \<Rightarrow> nat \<Rightarrow> int \<Rightarrow> bytes \<times> read_stop \<times> bool" where
  "capped f lineMax fileMax =
     (case f of (content, bad) \<Rightarrow>
        let m = nat fileMax in
        (case lineCap_loop lineMax (0, 1) (take m content) of
           (d, _, Some stop) \<Rightarrow> (d, stop, False)
         | (d, _, None) \<Rightarrow> (d, if bad \<and> length content < m then StopErr else StopEOF, m < length content)))"

record stream =
  sm_name :: string
  sm_path :: string

text \<open>What the file system answers for one path.\<close>

record file_answer =
  fa_Lstat :: "bool option"
  fa_Open :: bool
  fa_SameFile :: bool
  fa_File :: os_file

datatype stream_error =
    StreamLstat | StreamNotRegular | StreamOpen | StreamIdentity | StreamLong nat | StreamChain event_error | StreamFileCap

record verdict =
  vd_stream :: stream
  vd_report :: ChainReport
  vd_restarts :: "Restart list"
  vd_err :: "stream_error option"
  vd_events :: int

definition empty_report :: ChainReport where
  "empty_report = \<lparr>cr_Lines = 0, cr_Malformed = 0, cr_Chained = 0, cr_HeadLines = [], cr_Unverifiable = [], cr_Breaks = []\<rparr>"

definition failed_verdict :: "stream \<Rightarrow> stream_error \<Rightarrow> verdict" where
  "failed_verdict s e = \<lparr>vd_stream = s, vd_report = empty_report, vd_restarts = [], vd_err = Some e, vd_events = 0\<rparr>"

definition read_verdict :: "(bytes \<Rightarrow> bytes option) \<Rightarrow> stream \<Rightarrow> os_file \<Rightarrow> nat \<Rightarrow> int \<Rightarrow> verdict" where
  "read_verdict jcs s f lineMax fileMax =
     (case capped f lineMax fileMax of
        (d, stop, truncated) \<Rightarrow>
          (case VerifyChainRestarts jcs d (stop \<noteq> StopEOF) of
             (report, restarts, err) \<Rightarrow>
               let e = (case err of
                      Some ErrRead \<Rightarrow> Some (case stop of StopLong n \<Rightarrow> StreamLong n | _ \<Rightarrow> StreamChain ErrRead)
                    | Some x \<Rightarrow> Some (StreamChain x)
                    | None \<Rightarrow> None)
               in \<lparr>vd_stream = s, vd_report = report, vd_restarts = restarts,
                   vd_err = (if truncated \<and> e = None then Some StreamFileCap else e),
                   vd_events = int (cr_Lines report) - int (cr_Malformed report)\<rparr>))"

definition verifyStream :: "(bytes \<Rightarrow> bytes option) \<Rightarrow> (string \<Rightarrow> file_answer) \<Rightarrow> stream \<Rightarrow> nat \<Rightarrow> int \<Rightarrow> verdict" where
  "verifyStream jcs fs s lineMax fileMax =
     (let a = fs (sm_path s) in
      case fa_Lstat a of
        None \<Rightarrow> failed_verdict s StreamLstat
      | Some regular \<Rightarrow>
          if \<not> regular then failed_verdict s StreamNotRegular
          else if \<not> fa_Open a then failed_verdict s StreamOpen
          else if \<not> fa_SameFile a then failed_verdict s StreamIdentity
          else read_verdict jcs s (fa_File a) lineMax fileMax)"

definition isUnchained :: "verdict \<Rightarrow> bool" where
  "isUnchained v \<longleftrightarrow> vd_events v \<ge> 2 \<and> int (length (cr_HeadLines (vd_report v))) = vd_events v"

section \<open>The readers together\<close>

lemma lineCap_append:
  "lineCap_loop cap st (p @ q) =
     (case lineCap_loop cap st p of
        (d, st', Some stop) \<Rightarrow> (d, st', Some stop)
      | (d, st', None) \<Rightarrow> (case lineCap_loop cap st' q of (e, r) \<Rightarrow> (d @ e, r)))"
  by (induction cap st p rule: lineCap_loop.induct) (auto split: prod.splits option.splits)

text \<open>What is left to hand over, from any state of the readers.\<close>

definition pending :: "lineCapReader \<Rightarrow> bytes \<times> read_stop \<times> bool" where
  "pending l =
     (let b = lc_r l; content = fst (bc_r b); m = nat (bc_max b - bc_n b) in
      case lineCap_loop (lc_max l) (lc_run l, lc_line l) (take m content) of
        (d, _, Some stop) \<Rightarrow> (d, stop, False)
      | (d, _, None) \<Rightarrow> (d, if snd (bc_r b) \<and> length content < m then StopErr else StopEOF, m < length content))"

lemma read_step:
  assumes "lineCap_Read l want k = (l', d, stop)" "0 < want" "\<not> bc_truncated (lc_r l)" "pending l = (D, S, T)"
  shows "(case stop of
      Some s \<Rightarrow> d = D \<and> s = S \<and> bc_truncated (lc_r l') = T
    | None \<Rightarrow> \<not> bc_truncated (lc_r l') \<and> (\<exists>D'. D = d @ D' \<and> pending l' = (D', S, T)))"
proof -
  obtain rest bad where f: "bc_r (lc_r l) = (rest, bad)" by (cases "bc_r (lc_r l)")
  define m where "m = nat (bc_max (lc_r l) - bc_n (lc_r l))"
  show ?thesis
  proof (cases "bc_n (lc_r l) \<ge> bc_max (lc_r l)")
    case True
    then have "m = 0" by (simp add: m_def)
    with True assms f show ?thesis
      by (auto simp: lineCap_Read_def byteCap_Read_def os_read_def pending_def Let_def m_def [symmetric])
  next
    case False
    define w where "w = min (if int want > bc_max (lc_r l) - bc_n (lc_r l) then m else want) (Suc k)"
    have w: "0 < w" "w \<le> m" using False assms(2) by (auto simp: w_def m_def)
    obtain e run line long where lp: "lineCap_loop (lc_max l) (lc_run l, lc_line l) (take w rest) = (e, (run, line), long)"
      by (metis prod_cases3 prod.exhaust)
    have tm: "take m rest = take w rest @ take (m - w) (drop w rest)" using w by (simp add: take_add [symmetric])
    let ?b = "(lc_r l)\<lparr>bc_r := (drop w rest, bad), bc_n := bc_n (lc_r l) + int (length (take w rest))\<rparr>"
    let ?s = "if rest = [] then Some (if bad then StopErr else StopEOF) else None"
    have bc: "byteCap_Read (lc_r l) want k = (?b, take w rest, ?s)"
      unfolding byteCap_Read_def os_read_def f using False by (simp add: Let_def w_def m_def)
    have l': "l' = l\<lparr>lc_r := ?b, lc_run := run, lc_line := line\<rparr>" "d = e" "stop = (if long \<noteq> None then long else ?s)"
      using assms(1) unfolding lineCap_Read_def bc prod.case lp by simp_all
    have pd: "pending l = (case long of
        Some stop \<Rightarrow> (e, stop, False)
      | None \<Rightarrow> (case lineCap_loop (lc_max l) (run, line) (take (m - w) (drop w rest)) of
          (d', _, Some stop) \<Rightarrow> (e @ d', stop, False)
        | (d', _, None) \<Rightarrow> (e @ d', if bad \<and> length rest < m then StopErr else StopEOF, m < length rest)))"
      unfolding pending_def Let_def f fst_conv snd_conv m_def [symmetric] tm lineCap_append lp
      by (simp split: option.split prod.split)
    show ?thesis
    proof (cases long)
      case (Some s)
      with pd assms(3,4) l' show ?thesis by auto
    next
      case None
      show ?thesis
      proof (cases "rest = []")
        case True
        with None pd lp assms(3,4) l' w show ?thesis by auto
      next
        case False
        have n: "nat (bc_max (lc_r l) - (bc_n (lc_r l) + int (length (take w rest)))) = m - length (take w rest)" by (simp add: m_def nat_diff_distrib')
        have q: "take (m - w) (drop w rest) = take (m - length (take w rest)) (drop w rest)" by (cases "w \<le> length rest") simp_all
        have len: "length (drop w rest) < m - length (take w rest) \<longleftrightarrow> length rest < m" "m - length (take w rest) < length (drop w rest) \<longleftrightarrow> m < length rest"
          using w by auto
        obtain d' st stp where lq: "lineCap_loop (lc_max l) (run, line) (take (m - w) (drop w rest)) = (d', st, stp)" by (metis prod_cases3)
        have "pending l' = (case stp of Some stop \<Rightarrow> (d', stop, False) | None \<Rightarrow> (d', if bad \<and> length rest < m then StopErr else StopEOF, m < length rest))"
        proof -
          have fl: "lc_max l' = lc_max l" "lc_run l' = run" "lc_line l' = line" "bc_r (lc_r l') = (drop w rest, bad)"
            "nat (bc_max (lc_r l') - bc_n (lc_r l')) = m - length (take w rest)" using n unfolding l'(1) by simp_all
          show ?thesis unfolding pending_def Let_def fl fst_conv snd_conv lq [unfolded q] len prod.case by (rule refl)
        qed
        moreover have "pending l = (case stp of Some stop \<Rightarrow> (e @ d', stop, False) | None \<Rightarrow> (e @ d', if bad \<and> length rest < m then StopErr else StopEOF, m < length rest))"
          unfolding pd None option.case lq prod.case ..
        ultimately show ?thesis using assms(3,4) l' None False by (auto split: option.splits)
      qed
    qed
  qed
qed

lemma read_all_pending:
  assumes "read_all l calls = (d, Some stop, l')" "list_all (\<lambda>(want, k). 0 < want) calls" "\<not> bc_truncated (lc_r l)"
  shows "pending l = (d, stop, bc_truncated (lc_r l'))"
  using assms
proof (induction l calls arbitrary: d rule: read_all.induct)
  case (2 l want k calls)
  obtain l1 d1 st where r: "lineCap_Read l want k = (l1, d1, st)" by (metis prod_cases3)
  obtain D S T where pd: "pending l = (D, S, T)" by (metis prod_cases3)
  have w: "0 < want" using "2.prems"(2) by simp
  note step = read_step [OF r w "2.prems"(3) pd]
  show ?case
  proof (cases st)
    case (Some s)
    with "2.prems"(1) r step pd show ?thesis by simp
  next
    case None
    from step [unfolded None option.case] obtain D' where D': "\<not> bc_truncated (lc_r l1)" "D = d1 @ D'" "pending l1 = (D', S, T)" by blast
    obtain ds where ds: "read_all l1 calls = (ds, Some stop, l')" "d = d1 @ ds"
      using "2.prems"(1) r None by (auto split: prod.splits)
    have "pending l1 = (ds, stop, bc_truncated (lc_r l'))"
      by (rule "2.IH" [OF r [symmetric] refl None ds(1)]) (use "2.prems"(2) D'(1) in simp_all)
    with D' ds pd show ?thesis by simp
  qed
qed simp

lemma lineCap_bounds:
  "lineCap_loop cap (run, line) p = (d, st, stop) \<Longrightarrow> run \<le> cap \<Longrightarrow>
     prefix d p \<and> (case pieces d of [] \<Rightarrow> True | q # qs \<Rightarrow> run + length q \<le> cap \<and> list_all (\<lambda>q. length q \<le> cap) qs)"
proof (induction p arbitrary: run line d st stop)
  case (Cons c p)
  show ?case
  proof (cases "c = LF")
    case True
    then obtain e where e: "lineCap_loop cap (0, line + 1) p = (e, st, stop)" "d = c # e" using Cons.prems(1) by (auto split: prod.splits)
    from Cons.IH [OF e(1)] have "prefix e p" "case pieces e of [] \<Rightarrow> True | q # qs \<Rightarrow> 0 + length q \<le> cap \<and> list_all (\<lambda>q. length q \<le> cap) qs" by simp_all
    with e True Cons.prems(2) show ?thesis by (auto split: list.splits)
  next
    case False
    show ?thesis
    proof (cases "run + 1 > cap")
      case True
      with False Cons.prems show ?thesis by auto
    next
      case fits: False
      then obtain e where e: "lineCap_loop cap (run + 1, line) p = (e, st, stop)" "d = c # e" using Cons.prems(1) False by (auto split: prod.splits)
      from Cons.IH [OF e(1)] fits
      have "prefix e p" "case pieces e of [] \<Rightarrow> True | q # qs \<Rightarrow> run + 1 + length q \<le> cap \<and> list_all (\<lambda>q. length q \<le> cap) qs" by simp_all
      with e False fits show ?thesis by (auto split: list.splits)
    qed
  qed
qed simp

text \<open>The readers as \<^verbatim>\<open>verifyStream\<close> builds them.\<close>

definition open_capped :: "os_file \<Rightarrow> nat \<Rightarrow> int \<Rightarrow> lineCapReader" where
  "open_capped f lineMax fileMax =
     \<lparr>lc_r = \<lparr>bc_r = f, bc_max = fileMax, bc_n = 0, bc_truncated = False\<rparr>, lc_max = lineMax, lc_run = 0, lc_line = 1\<rparr>"

lemma pending_open: "pending (open_capped f lineMax fileMax) = capped f lineMax fileMax"
  by (simp add: pending_def capped_def open_capped_def Let_def split: prod.split)



end
