(* ===== verification/Watch_State.thy ===== *)
theory Watch_State
  imports Checkpoint_Written
begin

text \<open>
  cmd/agent-conform/watchdir.go, the memory between runs: the state file, how it is read and how it
  is written. What was saved is what the next run loads, entry for entry.
\<close>

section \<open>Indented text\<close>

text \<open>\<^verbatim>\<open>json.Indent\<close> with two blanks, over the tokens of a compact document.\<close>

definition newline :: "nat \<Rightarrow> string" where
  "newline d = LF # replicate (2 * d) CHR '' ''"

fun indent_from :: "bool \<Rightarrow> nat \<Rightarrow> token list \<Rightarrow> string" where
  "indent_from need d [] = []"
| "indent_from need d (t # ts) =
     (let closes = (t = TObjClose \<or> t = TArrClose); d1 = (if need \<and> \<not> closes then d + 1 else d);
          lead = (if need \<and> \<not> closes then newline d1 else [])
      in lead @
        (if t = TObjOpen \<or> t = TArrOpen then spell t @ indent_from True d1 ts
         else if t = TComma then spell t @ newline d1 @ indent_from False d1 ts
         else if t = TColon then spell t @ '' '' @ indent_from False d1 ts
         else if closes then
           (if need then spell t @ indent_from False d1 ts
            else newline (d1 - 1) @ spell t @ indent_from False (d1 - 1) ts)
         else spell t @ indent_from False d1 ts))"

definition indent_json :: "cst \<Rightarrow> string" where
  "indent_json c = indent_from False 0 (toks c)"

section \<open>The state\<close>

definition watchSource :: string where "watchSource = ''agent-conform''"
definition stateSchema :: string where "stateSchema = ''agent-conform/watch-state/v1''"
definition maxStateBytes :: nat where "maxStateBytes = 4194304"

record reported =
  rp_File :: string
  rp_Type :: string
  rp_Line :: int
  rp_At :: string

record watchState =
  ws_Schema :: string
  ws_Reported :: "reported list"

definition finding_key :: "string \<Rightarrow> string \<Rightarrow> int \<Rightarrow> string" where
  "finding_key file kind line = file @ [CHR 0x00] @ kind @ [CHR 0x00] @ int_text line"

definition reported_key :: "reported \<Rightarrow> string" where
  "reported_key r = finding_key (rp_File r) (rp_Type r) (rp_Line r)"

definition known_keys :: "watchState \<Rightarrow> string set" where
  "known_keys st = reported_key ` set (ws_Reported st)"

section \<open>Saving\<close>

definition reported_doc :: "reported \<Rightarrow> cst" where
  "reported_doc r =
     CObj ([(''file'', CStr (enc_str (rp_File r))), (''type'', CStr (enc_str (rp_Type r)))] @
       (if rp_Line r = 0 then [] else [(''line'', CNum (int_text (rp_Line r)))]) @ [(''at'', CStr (enc_str (rp_At r)))])"

definition state_doc :: "watchState \<Rightarrow> cst" where
  "state_doc st =
     CObj [(''schema'', CStr (enc_str (ws_Schema st))),
       (''reported'', if ws_Reported st = [] then CNull else CArr (map reported_doc (ws_Reported st)))]"

definition state_bytes :: "watchState \<Rightarrow> bytes" where
  "state_bytes st = indent_json (state_doc (st\<lparr>ws_Schema := stateSchema\<rparr>)) @ [LF]"

text \<open>The state file as a run finds it, and what saving leaves: the old one or, after the rename, the new.\<close>

datatype state_file = NoState | StateOpenFails | StateReadFails | StateIs bytes

definition saveWatchState :: "watchState \<Rightarrow> state_file \<Rightarrow> bool \<Rightarrow> bool \<Rightarrow> state_file \<times> bool" where
  "saveWatchState st old written renamed = (if written \<and> renamed then (StateIs (state_bytes st), True) else (old, False))"

section \<open>Loading\<close>

definition reported_names :: "string list" where
  "reported_names = [''file'', ''type'', ''line'', ''at'']"

definition zero_reported :: reported where
  "zero_reported = \<lparr>rp_File = [], rp_Type = [], rp_Line = 0, rp_At = []\<rparr>"

definition set_reported :: "reported setter" where
  "set_reported n c r =
     (if n = ''file'' then map_option (\<lambda>s. r\<lparr>rp_File := s\<rparr>) (set_string c (rp_File r))
      else if n = ''type'' then map_option (\<lambda>s. r\<lparr>rp_Type := s\<rparr>) (set_string c (rp_Type r))
      else if n = ''line'' then map_option (\<lambda>i. r\<lparr>rp_Line := i\<rparr>) (set_int c (rp_Line r))
      else if n = ''at'' then map_option (\<lambda>s. r\<lparr>rp_At := s\<rparr>) (set_string c (rp_At r))
      else Some r)"

text \<open>One element into its slot of the array already there; null leaves it.\<close>

definition set_element :: "cst \<Rightarrow> reported \<Rightarrow> reported option" where
  "set_element c r =
     (case c of
        CNull \<Rightarrow> Some r
      | CObj ms \<Rightarrow> (case dec_struct reported_names set_reported ms r of (r', ok) \<Rightarrow> if ok then Some r' else None)
      | _ \<Rightarrow> None)"

fun fill_reported :: "reported list \<Rightarrow> nat \<Rightarrow> cst list \<Rightarrow> reported list option" where
  "fill_reported slots i [] = Some slots"
| "fill_reported slots i (c # cs) =
     (case set_element c (if i < length slots then slots ! i else zero_reported) of
        None \<Rightarrow> None
      | Some r \<Rightarrow> fill_reported (if i < length slots then slots[i := r] else slots @ [r]) (Suc i) cs)"

definition set_reported_list :: "cst \<Rightarrow> reported list \<Rightarrow> (reported list \<times> nat) option" where
  "set_reported_list c slots =
     (case c of
        CNull \<Rightarrow> Some ([], 0)
      | CArr cs \<Rightarrow> if cs = [] then Some ([], 0) else map_option (\<lambda>b. (b, length cs)) (fill_reported slots 0 cs)
      | _ \<Rightarrow> None)"

definition set_state :: "(watchState \<times> reported list) setter" where
  "set_state n c st =
     (case st of (w, slots) \<Rightarrow>
        if n = ''schema'' then map_option (\<lambda>s. (w\<lparr>ws_Schema := s\<rparr>, slots)) (set_string c (ws_Schema w))
        else map_option (\<lambda>(b, k). (w\<lparr>ws_Reported := take k b\<rparr>, b)) (set_reported_list c slots))"

datatype state_error = StateNotOpened | StateNotRead | StateTooLarge | StateInvalid | StateOtherSchema

definition loadWatchState :: "state_file \<Rightarrow> state_error + watchState" where
  "loadWatchState f =
     (case f of
        NoState \<Rightarrow> Inr \<lparr>ws_Schema = stateSchema, ws_Reported = []\<rparr>
      | StateOpenFails \<Rightarrow> Inl StateNotOpened
      | StateReadFails \<Rightarrow> Inl StateNotRead
      | StateIs raw \<Rightarrow>
          if length raw > maxStateBytes then Inl StateTooLarge
          else case json_struct [''schema'', ''reported''] set_state raw (\<lparr>ws_Schema = [], ws_Reported = []\<rparr>, []) of
              None \<Rightarrow> Inl StateInvalid
            | Some (st, _) \<Rightarrow> if ws_Schema st \<noteq> stateSchema then Inl StateOtherSchema else Inr st)"

section \<open>Indented text is read back\<close>

lemma lex_spaces: "list_all json_space w \<Longrightarrow> lex_json (w @ s) = lex_json s"
  by (induction w) (simp_all add: lex_json.simps [of "_ # _"])

lemma newline_space: "list_all json_space (newline d)"
  by (simp add: newline_def json_space_def list_all_iff)

lemma lex_token:
  "token_ok t \<Longrightarrow> (\<And>w. t = TWord w \<Longrightarrow> word_free s) \<Longrightarrow> lex_json (spell t @ s) = map_option ((#) t) (lex_json s)"
  by (cases t) (auto simp: lex_word lex_json.simps [of "_ # _"] json_space_def punct_def lex_str_raw split: option.split)

lemma lex_punct:
  "lex_json (CHR ''{'' # s) = map_option ((#) TObjOpen) (lex_json s)" "lex_json (CHR ''}'' # s) = map_option ((#) TObjClose) (lex_json s)"
  "lex_json (CHR ''['' # s) = map_option ((#) TArrOpen) (lex_json s)" "lex_json (CHR '']'' # s) = map_option ((#) TArrClose) (lex_json s)"
  "lex_json (CHR '','' # s) = map_option ((#) TComma) (lex_json s)" "lex_json (CHR '':'' # s) = map_option ((#) TColon) (lex_json s)"
  "lex_json (CHR '' '' # s) = lex_json s"
  using lex_token [of TObjOpen s] lex_token [of TObjClose s] lex_token [of TArrOpen s] lex_token [of TArrClose s]
    lex_token [of TComma s] lex_token [of TColon s] lex_spaces [of "[CHR '' '']" s]
  by (simp_all add: json_space_def)

lemma indent_word_free: "\<not> starts_word ts \<Longrightarrow> word_free (indent_from False d ts @ [LF])"
  by (cases ts rule: starts_word.cases) (auto simp: word_free_def word_char_def is_digit_def newline_def Let_def)

lemma lex_indent:
  "list_all token_ok ts \<Longrightarrow> spaced ts \<Longrightarrow> lex_json (indent_from need d ts @ [LF]) = Some ts"
proof (induction need d ts rule: indent_from.induct)
  case (1 need d)
  then show ?case by (simp add: lex_json.simps json_space_def)
next
  case (2 need d t ts)
  have sp: "spaced ts" using "2.prems"(2) by (cases t) auto
  have ok: "token_ok t" "list_all token_ok ts" using "2.prems"(1) by simp_all
  have w: "word_free (indent_from False d' ts @ [LF])" if "t = TWord v" for v d'
    using that "2.prems"(2) by (intro indent_word_free) simp
  note IH = "2.IH" [OF refl refl refl]
  show ?case
    using IH sp ok w
    by (auto simp: Let_def lex_spaces newline_space lex_token lex_punct)
qed

lemma indent_parses: "wf_cst c \<Longrightarrow> cdepth c \<le> maxNestingDepth \<Longrightarrow> parse_json (indent_json c @ [LF]) = Some c"
  using pruns_toks(1) [of c "[]" "[]"] lex_indent [of "toks c" False 0]
  by (simp add: parse_json_def parse_tokens_def indent_json_def toks_ok toks_spaced)

section \<open>What was saved is what is loaded\<close>

lemma dec_digits_head: "0 < n \<Longrightarrow> hd (dec_digits n) \<noteq> CHR ''0''"
proof (induction n rule: dec_digits.induct)
  case (1 n)
  show ?case
  proof (cases "n < 10")
    case True
    then have "(of_char (digit_char n) :: nat) \<noteq> of_char CHR ''0''" using 1 by (simp add: digit_char_val)
    then have "digit_char n \<noteq> CHR ''0''" by metis
    with True show ?thesis by (subst dec_digits.simps) simp
  next
    case False
    then have "hd (dec_digits (n div 10)) \<noteq> CHR ''0''" "dec_digits (n div 10) \<noteq> []" using 1 dec_digits_all by auto
    with False show ?thesis by (subst dec_digits.simps) simp
  qed
qed

lemma int_text_number: "0 \<le> n \<Longrightarrow> is_number (int_text n)"
proof -
  assume n: "0 \<le> n"
  let ?d = "dec_digits (nat n)"
  have d: "?d \<noteq> []" "list_all is_digit ?d" using dec_digits_all by auto
  then have tw: "takeWhile is_digit ?d = ?d" "dropWhile is_digit ?d = []" by (auto simp: takeWhile_eq_all_conv dropWhile_eq_Nil_conv list_all_iff)
  have "int_part_ok ?d"
  proof (cases "nat n = 0")
    case True
    then show ?thesis by (simp add: int_part_ok_def dec_digits.simps [of 0])
  next
    case False
    then have "hd ?d \<noteq> CHR ''0''" by (intro dec_digits_head) simp
    with d show ?thesis by (auto simp: int_part_ok_def split: list.splits)
  qed
  moreover have "hd ?d \<noteq> CHR ''-''" using d by (cases ?d) (auto simp: is_digit_def)
  then have "(case ?d of [] \<Rightarrow> [] | c # cs \<Rightarrow> if c = CHR ''-'' then cs else ?d) = ?d" by (cases ?d) auto
  moreover have "frac_exp_ok []" by (simp add: frac_exp_ok_def)
  moreover have "int_text n = ?d" using n by (simp add: int_text_def)
  ultimately show ?thesis unfolding is_number_def Let_def by (simp only: tw simp_thms)
qed

definition clean_reported :: "reported \<Rightarrow> reported" where
  "clean_reported r = r\<lparr>rp_File := to_valid (rp_File r), rp_Type := to_valid (rp_Type r), rp_At := to_valid (rp_At r)\<rparr>"

definition line_ok :: "reported \<Rightarrow> bool" where
  "line_ok r \<longleftrightarrow> 0 \<le> rp_Line r \<and> is_int64 (rp_Line r)"

lemma reported_fields:
  "field_for reported_names (dec_str ''file'') = Some ''file''" "field_for reported_names (dec_str ''type'') = Some ''type''"
  "field_for reported_names (dec_str ''line'') = Some ''line''" "field_for reported_names (dec_str ''at'') = Some ''at''"
  "field_for [''schema'', ''reported''] (dec_str ''schema'') = Some ''schema''"
  "field_for [''schema'', ''reported''] (dec_str ''reported'') = Some ''reported''"
  by (simp_all add: plain_dec plain_name_def field_for_def reported_names_def)

lemma element_read: "line_ok r \<Longrightarrow> set_element (reported_doc r) zero_reported = Some (clean_reported r)"
  by (cases r) (simp add: line_ok_def set_element_def reported_doc_def reported_fields set_reported_def set_string_def set_int_def
      dec_enc_str json_int64_text zero_reported_def clean_reported_def)

lemma fill_read: "list_all line_ok rs \<Longrightarrow> fill_reported acc (length acc) (map reported_doc rs) = Some (acc @ map clean_reported rs)"
proof (induction rs arbitrary: acc)
  case (Cons r rs)
  then have "fill_reported (acc @ [clean_reported r]) (length (acc @ [clean_reported r])) (map reported_doc rs) =
      Some ((acc @ [clean_reported r]) @ map clean_reported rs)" by (intro Cons.IH) simp
  with Cons.prems show ?case by (simp add: element_read)
qed simp

lemma state_doc_wf: "list_all line_ok (ws_Reported st) \<Longrightarrow> wf_cst (state_doc st)"
  by (auto simp: state_doc_def reported_doc_def list_all_iff line_ok_def int_text_number plain_raw plain_name_def)

lemma state_doc_depth: "cdepth (state_doc st) \<le> 3"
proof -
  have "foldr (\<lambda>v d. max (cdepth v) d) (map reported_doc rs) 0 \<le> 1" for rs
    by (induction rs) (auto simp: reported_doc_def)
  from this [of "ws_Reported st"] show ?thesis by (auto simp: state_doc_def)
qed

lemma state_loaded:
  assumes "list_all line_ok (ws_Reported st)" "length (state_bytes st) \<le> maxStateBytes"
  shows "loadWatchState (StateIs (state_bytes st)) =
    Inr \<lparr>ws_Schema = stateSchema, ws_Reported = map clean_reported (ws_Reported st)\<rparr>"
proof -
  let ?st = "st\<lparr>ws_Schema := stateSchema\<rparr>"
  have "cdepth (state_doc ?st) \<le> maxNestingDepth" using state_doc_depth [of ?st] by (simp add: maxNestingDepth_def)
  then have p: "parse_json (state_bytes st) = Some (state_doc ?st)"
    unfolding state_bytes_def by (intro indent_parses state_doc_wf) (simp_all add: assms(1))
  have v: "to_valid stateSchema = stateSchema"
    by (rule to_valid_id, rule ascii_valid) (simp add: stateSchema_def ascii_def)
  have "json_struct [''schema'', ''reported''] set_state (state_bytes st) (\<lparr>ws_Schema = [], ws_Reported = []\<rparr>, []) =
      Some (\<lparr>ws_Schema = stateSchema, ws_Reported = map clean_reported (ws_Reported st)\<rparr>, map clean_reported (ws_Reported st))"
    using fill_read [OF assms(1), of "[]"]
    by (auto simp: json_struct_defs p state_doc_def reported_fields set_state_def set_string_def dec_enc_str v set_reported_list_def)
  with assms(2) show ?thesis by (simp add: loadWatchState_def)
qed

text \<open>
  C34. The memory survives a restart. Whatever a run saved - every finding it reported, lines within
  64 bits, at most 4 MiB of text - is what the next run loads, entry for entry and in order, but for
  bytes of a name that are not UTF-8, which come back as the replacement character; a save that does
  not complete leaves what was there.
\<close>

theorem state_survives:
  assumes "list_all line_ok (ws_Reported st)" "length (state_bytes st) \<le> maxStateBytes"
  shows "loadWatchState (fst (saveWatchState st old written renamed)) =
    (if written \<and> renamed then Inr \<lparr>ws_Schema = stateSchema, ws_Reported = map clean_reported (ws_Reported st)\<rparr>
     else loadWatchState old)"
  by (simp add: saveWatchState_def state_loaded [OF assms])

definition sample_state :: watchState where
  "sample_state = \<lparr>ws_Schema = [], ws_Reported = [\<lparr>rp_File = [CHR 0xFF], rp_Type = ''t'', rp_Line = 12, rp_At = []\<rparr>]\<rparr>"

theorem state_survives_witness:
  "loadWatchState (fst (saveWatchState sample_state NoState True True)) =
     Inr \<lparr>ws_Schema = stateSchema, ws_Reported = [\<lparr>rp_File = replacement, rp_Type = ''t'', rp_Line = 12, rp_At = []\<rparr>]\<rparr>"
proof -
  have 1: "list_all line_ok (ws_Reported sample_state)" by (simp add: sample_state_def line_ok_def int64_defs)
  have "length (state_bytes sample_state) < 256" by code_simp
  then have 2: "length (state_bytes sample_state) \<le> maxStateBytes" by (simp add: maxStateBytes_def)
  have 3: "map clean_reported (ws_Reported sample_state) = [\<lparr>rp_File = replacement, rp_Type = ''t'', rp_Line = 12, rp_At = []\<rparr>]" by code_simp
  show ?thesis using state_survives [OF 1 2, of NoState True True] unfolding 3 by simp
qed

end
