(* ===== verification/Watch_Pass.thy ===== *)
theory Watch_Pass
  imports Watch_Read Watch_State Checkpoint_Verify
begin

text \<open>
  cmd/agent-conform/watchdir.go: one pass over the bus and the loop around it; checkpoints.go for
  the sidecars. What the file system answers during a pass is a record; what a pass changes is its
  own stream, to which alerts are written, and its state file. What is printed is left out.
\<close>

section \<open>Names and limits\<close>

definition watchOutputName :: string where "watchOutputName = watchSource @ ''.ndjson''"
definition watchAgentID :: string where "watchAgentID = ''agent://agent-conform.internal/verifier''"
definition typeChainBroken :: string where "typeChainBroken = ''chain_broken''"
definition typeChainUnchained :: string where "typeChainUnchained = ''chain_unchained''"
definition typeChainRestarted :: string where "typeChainRestarted = ''chain_restarted''"
definition typeCheckpointRefused :: string where "typeCheckpointRefused = ''checkpoint_refused''"
definition kindRestart :: string where "kindRestart = ''restart''"
definition kindMismatch :: string where "kindMismatch = ''prev_hash_mismatch''"
definition kindUnchained :: string where "kindUnchained = ''no_prev_hash''"
definition maxClippedField :: nat where "maxClippedField = 96"

section \<open>Paths\<close>

text \<open>\<^verbatim>\<open>filepath.Clean\<close>, \<^verbatim>\<open>Join\<close> and \<^verbatim>\<open>Dir\<close> on Unix.\<close>

fun clean_parts :: "bool \<Rightarrow> string list \<Rightarrow> string list \<Rightarrow> string list" where
  "clean_parts rooted acc [] = acc"
| "clean_parts rooted acc (p # ps) =
     (if p = [] \<or> p = ''.'' then clean_parts rooted acc ps
      else if p = ''..'' then
        (if acc \<noteq> [] \<and> last acc \<noteq> ''..'' then clean_parts rooted (butlast acc) ps
         else if rooted then clean_parts rooted acc ps
         else clean_parts rooted (acc @ [''..'']) ps)
      else clean_parts rooted (acc @ [p]) ps)"

definition filepath_Clean :: "string \<Rightarrow> string" where
  "filepath_Clean p =
     (let rooted = (p \<noteq> [] \<and> hd p = CHR ''/''); s = join_with ''/'' (clean_parts rooted [] (split_at CHR ''/'' p))
      in if rooted then ''/'' @ s else if s = [] then ''.'' else s)"

definition filepath_Join :: "string \<Rightarrow> string \<Rightarrow> string" where
  "filepath_Join dir name =
     (if dir = [] then (if name = [] then [] else filepath_Clean name)
      else filepath_Clean (dir @ ''/'' @ name))"

definition filepath_Dir :: "string \<Rightarrow> string" where
  "filepath_Dir p = filepath_Clean (rev (dropWhile (\<lambda>c. c \<noteq> CHR ''/'') (rev p)))"

section \<open>Findings and alerts\<close>

record finding =
  fd_file :: string
  fd_typ :: string
  fd_line :: nat
  fd_brk :: ChainBreak
  fd_verdict :: verdict
  fd_after :: nat
  fd_explained :: bool
  fd_refusal :: "refusal option"

definition zero_break :: ChainBreak where
  "zero_break = \<lparr>cb_Line = 0, cb_Expected = [], cb_Found = []\<rparr>"

definition found :: "verdict \<Rightarrow> string \<Rightarrow> nat \<Rightarrow> finding" where
  "found v kind line =
     \<lparr>fd_file = sm_name (vd_stream v), fd_typ = kind, fd_line = line, fd_brk = zero_break, fd_verdict = v,
      fd_after = 0, fd_explained = False, fd_refusal = None\<rparr>"

definition key_of :: "finding \<Rightarrow> string" where
  "key_of f = finding_key (fd_file f) (fd_typ f) (int (fd_line f))"

definition clip :: "string \<Rightarrow> nat \<Rightarrow> string" where
  "clip s n = (if length s \<le> n then s else take n s @ ''...'')"

text \<open>\<^verbatim>\<open>GInt\<close>: an int in a map of untyped values.\<close>

definition GInt :: "int \<Rightarrow> gval" where
  "GInt n = GNum (int_text n)"

definition alertFor :: "string \<Rightarrow> string \<Rightarrow> finding \<Rightarrow> Event" where
  "alertFor version now f =
     (let r = vd_report (fd_verdict f);
          data = m_collect [] [(''file'', GStr (fd_file f)), (''verifier'', GStr (''agent-conform '' @ version)),
            (''malformed_lines'', GInt (int (cr_Malformed r))), (''unverifiable_links'', GInt (int (length (cr_Unverifiable r))))];
          e = \<lparr>ev_Schema = SchemaV10, ev_TS = now, ev_Source = watchSource, ev_Type = fd_typ f, ev_AgentID = watchAgentID,
            ev_Severity = [], ev_RunID = [], ev_OnBehalfOf = [], ev_Data = data, ev_PrevHash = []\<rparr>
      in if fd_typ f = typeChainBroken then
           e\<lparr>ev_Severity := ''high'',
             ev_Data := m_collect data [(''line'', GInt (int (cb_Line (fd_brk f)))), (''kind'', GStr kindMismatch),
               (''breaks'', GInt (int (length (cr_Breaks r)))), (''restarts'', GInt (max (int (length (cr_HeadLines r)) - 1) 0)),
               (''expected'', GStr (clip (cb_Expected (fd_brk f)) maxClippedField)),
               (''found'', GStr (clip (cb_Found (fd_brk f)) maxClippedField))]\<rparr>
         else if fd_typ f = typeChainUnchained then
           e\<lparr>ev_Severity := ''low'',
             ev_Data := m_collect data [(''kind'', GStr kindUnchained), (''events'', GInt (vd_events (fd_verdict f)))]\<rparr>
         else if fd_typ f = typeChainRestarted then
           e\<lparr>ev_Severity := (if fd_explained f then ''medium'' else ''high''),
             ev_Data := m_collect data [(''kind'', GStr kindRestart), (''line'', GInt (int (fd_line f))),
               (''after_line'', GInt (int (fd_after f))), (''explained'', GBool (fd_explained f))]\<rparr>
         else e)"

section \<open>What a pass is told and what it meets\<close>

record watchConfig =
  wc_dir :: string
  wc_outPath :: string
  wc_statePath :: string
  wc_maxLine :: nat
  wc_maxFile :: int
  wc_every :: duration
  wc_ckDir :: string
  wc_keys :: "string \<Rightarrow> ec_key option"

record sidecar_answer =
  sa_Open :: "bool option"
  sa_Regular :: bool
  sa_File :: os_file

text \<open>
  What becomes of an alert handed to \<^verbatim>\<open>Write\<close>: its line is on the bus; it is there
  although \<^verbatim>\<open>Write\<close> returned an error, as \<^verbatim>\<open>ChainedWriter.Write\<close> does when the unlock after
  the append fails; or it is not.
\<close>

datatype write_answer = Written | Unconfirmed | NotWritten

text \<open>
  The answers of one pass: the directory and its entries with whether each is a regular file, its
  own output's \<^verbatim>\<open>Lstat\<close>, every stream as it is read for its chain and again for its
  checkpoints, the sidecars, what becomes of each call that writes, the clock - it reads the same for
  the whole pass - and the version stamped into the program.
\<close>

record world =
  wo_Stat :: "bool option"
  wo_ReadDir :: "(string \<times> bool) list option"
  wo_Own :: "bool option"
  wo_Files :: "string \<Rightarrow> file_answer"
  wo_Again :: "string \<Rightarrow> os_file option"
  wo_Sidecars :: "string \<Rightarrow> sidecar_answer"
  wo_OpenOut :: bool
  wo_Write :: "nat \<Rightarrow> Event \<Rightarrow> write_answer"
  wo_Save :: "nat \<Rightarrow> bool \<times> bool"
  wo_Close :: bool
  wo_Now :: string
  wo_Version :: string

section \<open>The streams\<close>

definition listStreams :: "string \<Rightarrow> (string \<times> bool) list option \<Rightarrow> (stream list \<times> string list) option" where
  "listStreams dir entries =
     map_option (\<lambda>es.
       let nd = filter (\<lambda>(name, regular). suffix ''.ndjson'' name) es
       in (sort_key sm_name (map (\<lambda>(name, regular). \<lparr>sm_name = name, sm_path = filepath_Join dir name\<rparr>) (filter snd nd)),
           map fst (filter (\<lambda>(name, regular). \<not> regular) nd))) entries"

definition cap_chunks :: "os_file \<Rightarrow> int \<Rightarrow> bytes list \<times> ck_error option" where
  "cap_chunks f fileMax =
     (case f of (content, bad) \<Rightarrow> let m = nat fileMax in ([take m content], if bad \<and> length content < m then Some CkRead else None))"

definition cap_cut :: "os_file \<Rightarrow> int \<Rightarrow> bool" where
  "cap_cut f fileMax \<longleftrightarrow> nat fileMax < length (fst f)"

text \<open>\<open>None\<close>: no sidecar; otherwise an error or what the library reports.\<close>

definition checkStreamCheckpoints :: "(bytes \<Rightarrow> bytes option) \<Rightarrow> world \<Rightarrow> watchConfig \<Rightarrow> stream \<Rightarrow> (unit + CheckpointReport) option" where
  "checkStreamCheckpoints jcs w cfg s =
     (let side = wo_Sidecars w (filepath_Join (wc_ckDir cfg) (CheckpointFileName (sm_name s))) in
      case sa_Open side of
        None \<Rightarrow> None
      | Some opened \<Rightarrow> Some
          (if \<not> opened \<or> \<not> sa_Regular side then Inl ()
           else case wo_Again w (sm_path s) of
               None \<Rightarrow> Inl ()
             | Some f \<Rightarrow>
                 (case VerifyCheckpoints jcs (cap_chunks f (wc_maxFile cfg)) (cap_chunks (sa_File side) (wc_maxFile cfg)) (sm_name s) (wc_keys cfg) of
                    Inl err \<Rightarrow> Inl ()
                  | Inr rep \<Rightarrow> if cap_cut f (wc_maxFile cfg) \<or> cap_cut (sa_File side) (wc_maxFile cfg) then Inl () else Inr rep)))"

definition explainedBy :: "int list \<Rightarrow> nat \<Rightarrow> bool" where
  "explainedBy resumes after \<longleftrightarrow> (if int after \<le> 0 then False else int after \<in> set resumes)"

text \<open>What one stream gives: whether something failed, the refusals and the findings, known or not.\<close>

definition refusals_of :: "stream \<Rightarrow> verdict \<Rightarrow> CheckpointReport \<Rightarrow> finding list" where
  "refusals_of s v rep =
     map (\<lambda>r. (found v typeCheckpointRefused (cx_Index r))\<lparr>fd_refusal := cx_Refusal r\<rparr>)
       (filter (\<lambda>r. cx_Status r = CheckpointRefused) (cp_Records rep))"

definition chain_findings :: "verdict \<Rightarrow> finding list" where
  "chain_findings v =
     (case cr_Breaks (vd_report v) of
        b # _ \<Rightarrow> [(found v typeChainBroken (cb_Line b))\<lparr>fd_brk := b\<rparr>]
      | [] \<Rightarrow> if isUnchained v then [found v typeChainUnchained 0] else [])"

definition restart_findings :: "int list \<Rightarrow> verdict \<Rightarrow> finding list" where
  "restart_findings resumes v =
     (if isUnchained v then []
      else map (\<lambda>rs. (found v typeChainRestarted (rs_Line rs))\<lparr>fd_after := rs_After rs, fd_explained := explainedBy resumes (rs_After rs)\<rparr>)
        (vd_restarts v))"

definition examine :: "(bytes \<Rightarrow> bytes option) \<Rightarrow> world \<Rightarrow> watchConfig \<Rightarrow> stream \<Rightarrow> bool \<times> finding list \<times> finding list" where
  "examine jcs w cfg s =
     (let v = verifyStream jcs (wo_Files w) s (wc_maxLine cfg) (wc_maxFile cfg); failed = (vd_err v \<noteq> None) in
      case (if wc_ckDir cfg \<noteq> [] then checkStreamCheckpoints jcs w cfg s else None) of
        None \<Rightarrow> (failed, [], chain_findings v @ restart_findings [] v)
      | Some (Inl err) \<Rightarrow> (True, [], chain_findings v @ restart_findings [] v)
      | Some (Inr rep) \<Rightarrow> (failed, refusals_of s v rep, chain_findings v @ restart_findings (ResumeCounts rep) v))"

section \<open>Delivery\<close>

definition remembered :: "string \<Rightarrow> finding \<Rightarrow> reported" where
  "remembered now f = \<lparr>rp_File = fd_file f, rp_Type = fd_typ f, rp_Line = int (fd_line f), rp_At = now\<rparr>"

text \<open>
  The state of the delivery loop: what is remembered, the state file, the alerts on the bus, those
  of them whose \<^verbatim>\<open>Write\<close> returned no error, the number of saves so far and whether something failed.
\<close>

record delivery =
  dl_state :: watchState
  dl_file :: state_file
  dl_alerts :: "finding list"
  dl_written :: "finding list"
  dl_saves :: nat
  dl_failed :: bool

definition first_delivery :: "watchState \<Rightarrow> state_file \<Rightarrow> delivery" where
  "first_delivery st file =
     \<lparr>dl_state = st, dl_file = file, dl_alerts = [], dl_written = [], dl_saves = 0, dl_failed = False\<rparr>"

definition save_step :: "world \<Rightarrow> delivery \<Rightarrow> delivery" where
  "save_step w d =
     (case wo_Save w (dl_saves d) of (written, renamed) \<Rightarrow>
        (case saveWatchState (dl_state d) (dl_file d) written renamed of
           (file, ok) \<Rightarrow> d\<lparr>dl_file := file, dl_saves := dl_saves d + 1, dl_failed := (if ok then dl_failed d else True)\<rparr>))"

definition write_of :: "world \<Rightarrow> nat \<Rightarrow> finding \<Rightarrow> write_answer" where
  "write_of w i f = wo_Write w i (alertFor (wo_Version w) (wo_Now w) f)"

text \<open>The call of \<^verbatim>\<open>Write\<close>, and what the loop does once it has returned.\<close>

definition bus_step :: "world \<Rightarrow> nat \<Rightarrow> finding \<Rightarrow> delivery \<Rightarrow> delivery" where
  "bus_step w i f d = (if write_of w i f = NotWritten then d else d\<lparr>dl_alerts := dl_alerts d @ [f]\<rparr>)"

definition after_write :: "world \<Rightarrow> nat \<Rightarrow> finding \<Rightarrow> delivery \<Rightarrow> delivery" where
  "after_write w i f d =
     (if write_of w i f \<noteq> Written then d\<lparr>dl_failed := True\<rparr>
      else save_step w (d\<lparr>dl_state := (dl_state d)\<lparr>ws_Reported := ws_Reported (dl_state d) @ [remembered (wo_Now w) f]\<rparr>,
        dl_written := dl_written d @ [f]\<rparr>))"

fun deliver :: "world \<Rightarrow> nat \<Rightarrow> finding list \<Rightarrow> delivery \<Rightarrow> delivery" where
  "deliver w i [] d = d"
| "deliver w i (f # fs) d = deliver w (i + 1) fs (after_write w i f (bus_step w i f d))"

section \<open>One pass\<close>

record pass =
  pa_code :: nat
  pa_alerts :: "finding list"
  pa_written :: "finding list"
  pa_refused :: "finding list"
  pa_saves :: nat
  pa_file :: state_file

definition failed_pass :: "state_file \<Rightarrow> pass" where
  "failed_pass file = \<lparr>pa_code = 2, pa_alerts = [], pa_written = [], pa_refused = [], pa_saves = 0, pa_file = file\<rparr>"

text \<open>The streams of a pass: those of the directory, and its own output when that lies elsewhere.\<close>

definition with_own :: "world \<Rightarrow> watchConfig \<Rightarrow> stream list \<Rightarrow> stream list" where
  "with_own w cfg streams =
     (if watchOutputName \<notin> sm_name ` set streams \<and> filepath_Dir (wc_outPath cfg) \<noteq> filepath_Clean (wc_dir cfg) \<and> wo_Own w = Some True
      then streams @ [\<lparr>sm_name = watchOutputName, sm_path = wc_outPath cfg\<rparr>]
      else streams)"

definition unknown :: "watchState \<Rightarrow> finding list \<Rightarrow> finding list" where
  "unknown st fs = filter (\<lambda>f. key_of f \<notin> known_keys st) fs"

definition finish_pass :: "world \<Rightarrow> bool \<Rightarrow> finding list \<Rightarrow> delivery \<Rightarrow> pass" where
  "finish_pass w failed refusals d =
     (let d = (if refusals = [] then d
               else save_step w (d\<lparr>dl_state := (dl_state d)\<lparr>ws_Reported := ws_Reported (dl_state d) @ map (remembered (wo_Now w)) refusals\<rparr>\<rparr>))
      in \<lparr>pa_code = (if failed \<or> dl_failed d then 2
            else if (\<exists>f \<in> set (dl_alerts d). fd_typ f = typeChainBroken) \<or> refusals \<noteq> [] then 1 else 0),
          pa_alerts = dl_alerts d, pa_written = dl_written d, pa_refused = refusals, pa_saves = dl_saves d, pa_file = dl_file d\<rparr>)"

text \<open>
  The pass up to its first write: \<open>None\<close> for each early return, otherwise whether something failed,
  the state, and the refusals and findings that are new.
\<close>

definition pass_plan ::
  "(bytes \<Rightarrow> bytes option) \<Rightarrow> watchConfig \<Rightarrow> world \<Rightarrow> state_file \<Rightarrow> (bool \<times> watchState \<times> finding list \<times> finding list) option" where
  "pass_plan jcs cfg w file =
     (if wo_Stat w \<noteq> Some True then None
      else case loadWatchState file of
          Inl err \<Rightarrow> None
        | Inr st \<Rightarrow>
            (case listStreams (wc_dir cfg) (wo_ReadDir w) of
               None \<Rightarrow> None
             | Some (streams, skipped) \<Rightarrow>
                 if list_all (\<lambda>s. sm_name s = watchOutputName) streams then None
                 else
                   let seen = map (examine jcs w cfg) (with_own w cfg streams);
                       findings = unknown st (concat (map (snd \<circ> snd) seen))
                   in if findings \<noteq> [] \<and> \<not> wo_OpenOut w then None
                      else Some (list_ex fst seen, st, unknown st (concat (map (fst \<circ> snd) seen)), findings)))"

definition watchPass :: "(bytes \<Rightarrow> bytes option) \<Rightarrow> watchConfig \<Rightarrow> world \<Rightarrow> state_file \<Rightarrow> pass" where
  "watchPass jcs cfg w file =
     (case pass_plan jcs cfg w file of
        None \<Rightarrow> failed_pass file
      | Some (failed, st, refusals, findings) \<Rightarrow>
          finish_pass w (failed \<or> findings \<noteq> [] \<and> \<not> wo_Close w) refusals (deliver w 0 findings (first_delivery st file)))"

text \<open>
  The same pass in a process that is killed: \<open>k\<close> alerts are written and their saves made; with \<open>mid\<close>
  the next \<^verbatim>\<open>Write\<close> is made too, and nothing after it. (A kill during a save is one of
  these: a save is its rename.) Its code is the shell's for a process killed by signal 9.
\<close>

definition killed_pass :: "(bytes \<Rightarrow> bytes option) \<Rightarrow> watchConfig \<Rightarrow> world \<Rightarrow> nat \<Rightarrow> bool \<Rightarrow> state_file \<Rightarrow> pass" where
  "killed_pass jcs cfg w k mid file =
     (case pass_plan jcs cfg w file of
        None \<Rightarrow> (failed_pass file)\<lparr>pa_code := 137\<rparr>
      | Some (failed, st, refusals, findings) \<Rightarrow>
          let d0 = deliver w 0 (take k findings) (first_delivery st file);
              d = (if mid \<and> k < length findings then bus_step w k (findings ! k) d0 else d0)
          in \<lparr>pa_code = 137, pa_alerts = dl_alerts d, pa_written = dl_written d, pa_refused = [], pa_saves = dl_saves d,
              pa_file = dl_file d\<rparr>)"

section \<open>The loop\<close>

text \<open>
  Passes over the worlds the process meets, the state file carried from one to the next; \<open>sleeps i\<close>
  is whether the wait after pass \<open>i\<close> ran its course. The value is the exit code and the passes made.
\<close>

partial_function (option) watchLoop ::
  "(bytes \<Rightarrow> bytes option) \<Rightarrow> watchConfig \<Rightarrow> (nat \<Rightarrow> world) \<Rightarrow> (nat \<Rightarrow> bool) \<Rightarrow> nat \<Rightarrow> state_file \<Rightarrow> (nat \<times> nat) option" where
  "watchLoop jcs cfg worlds sleeps i file =
     (let p = watchPass jcs cfg (worlds i) file in
      if pa_code p = 2 then Some (2, i + 1)
      else if \<not> sleeps i then Some (0, i + 1)
      else watchLoop jcs cfg worlds sleeps (i + 1) (pa_file p))"

end
