(* ===== verification/Watch_Sound.thy ===== *)
theory Watch_Sound
  imports Watch_Pass
begin

text \<open>
  What a run of passes promises: a finding is put on the bus, and once; an exit code of zero hides
  nothing; the loop ends when it is told to or when a pass could not do its job.
\<close>

section \<open>Keys\<close>

lemma int_text_inj: "0 \<le> a \<Longrightarrow> 0 \<le> b \<Longrightarrow> int_text a = int_text b \<Longrightarrow> a = b"
  by (simp add: int_text_def) (metis digits_value_dec int_nat_eq)

lemma split_NUL: "CHR 0x00 \<notin> set a \<Longrightarrow> CHR 0x00 \<notin> set b \<Longrightarrow> a @ CHR 0x00 # x = b @ CHR 0x00 # y \<Longrightarrow> a = b \<and> x = y"
proof (induction a arbitrary: b)
  case Nil
  then show ?case by (cases b) auto
next
  case (Cons c a)
  then show ?case by (cases b) auto
qed

lemma finding_key_inj:
  assumes "CHR 0x00 \<notin> set f" "CHR 0x00 \<notin> set g" "CHR 0x00 \<notin> set k" "CHR 0x00 \<notin> set l" "0 \<le> m" "0 \<le> n"
    "finding_key f k m = finding_key g l n"
  shows "f = g \<and> k = l \<and> m = n"
proof -
  have "f @ CHR 0x00 # (k @ CHR 0x00 # int_text m) = g @ CHR 0x00 # (l @ CHR 0x00 # int_text n)"
    using assms(7) by (simp add: finding_key_def)
  from split_NUL [OF assms(1,2) this] have "f = g" "k @ CHR 0x00 # int_text m = l @ CHR 0x00 # int_text n" by simp_all
  with split_NUL [OF assms(3,4) this(2)] int_text_inj assms(5,6) show ?thesis by blast
qed

definition finding_types :: "string set" where
  "finding_types = {typeChainBroken, typeChainUnchained, typeChainRestarted, typeCheckpointRefused}"

lemma types_differ:
  "typeChainBroken \<noteq> typeChainUnchained" "typeChainBroken \<noteq> typeChainRestarted" "typeChainUnchained \<noteq> typeChainRestarted"
  "typeCheckpointRefused \<noteq> typeChainBroken" "typeCheckpointRefused \<noteq> typeChainUnchained" "typeCheckpointRefused \<noteq> typeChainRestarted"
  by (simp_all add: typeChainBroken_def typeChainUnchained_def typeChainRestarted_def typeCheckpointRefused_def)

lemma types_plain: "t \<in> finding_types \<Longrightarrow> CHR 0x00 \<notin> set t \<and> to_valid t = t"
  by (auto simp: finding_types_def typeChainBroken_def typeChainUnchained_def typeChainRestarted_def typeCheckpointRefused_def
      intro!: to_valid_id ascii_valid simp: ascii_def)

section \<open>The findings of one stream\<close>

lemma verify_line_restarts:
  "sorted_wrt (<) (map rs_Line (v_restarts st)) \<and> (\<forall>r \<in> set (v_restarts st). rs_Line r \<le> v_lineNo st) \<Longrightarrow>
   sorted_wrt (<) (map rs_Line (v_restarts (verify_line jcs st t))) \<and>
     (\<forall>r \<in> set (v_restarts (verify_line jcs st t)). rs_Line r \<le> v_lineNo (verify_line jcs st t))"
  by (auto simp: verify_line_def judge_def Let_def sorted_wrt_append less_Suc_eq_le split: sum.splits)

lemma restarts_sorted: "sorted_wrt (<) (map rs_Line (v_restarts (verify_run jcs ts)))"
proof -
  have "sorted_wrt (<) (map rs_Line (v_restarts (verify_run jcs ts))) \<and>
      (\<forall>r \<in> set (v_restarts (verify_run jcs ts)). rs_Line r \<le> v_lineNo (verify_run jcs ts))"
    by (induction ts rule: rev_induct) (simp_all add: verify_run_def v_init_def verify_line_restarts)
  then show ?thesis by simp
qed

lemma verdict_restarts: "distinct (map rs_Line (vd_restarts (verifyStream jcs fs s lineMax fileMax)))"
proof -
  have "distinct (map rs_Line (v_restarts (verify_run jcs ts)))" for ts
    using restarts_sorted strict_sorted_iff by blast
  then show ?thesis
    by (auto simp: verifyStream_def failed_verdict_def read_verdict_def VerifyChainRestarts_def verifyChain_def Let_def
        split: option.split prod.split)
qed

lemma verdict_stream [simp]: "vd_stream (verifyStream jcs fs s lineMax fileMax) = s"
  by (auto simp: verifyStream_def failed_verdict_def read_verdict_def Let_def split: option.split prod.split)

definition pair_of :: "finding \<Rightarrow> string \<times> nat" where
  "pair_of f = (fd_typ f, fd_line f)"

lemma found_simps [simp]:
  "fd_file (found v k n) = sm_name (vd_stream v)" "fd_typ (found v k n) = k" "fd_line (found v k n) = n"
  by (simp_all add: found_def)

lemma stream_findings_distinct:
  assumes "distinct (map rs_Line (vd_restarts v))"
  shows "distinct (map pair_of (chain_findings v @ restart_findings resumes v))"
proof -
  have "map pair_of (restart_findings resumes v) = (if isUnchained v then [] else map (\<lambda>n. (typeChainRestarted, n)) (map rs_Line (vd_restarts v)))"
    by (simp add: restart_findings_def pair_of_def)
  then have "distinct (map pair_of (restart_findings resumes v))" "fst ` set (map pair_of (restart_findings resumes v)) \<subseteq> {typeChainRestarted}"
    using assms by (auto simp: distinct_map inj_on_def)
  moreover have "distinct (map pair_of (chain_findings v))" "typeChainRestarted \<notin> fst ` set (map pair_of (chain_findings v))"
    using types_differ by (auto simp: chain_findings_def pair_of_def split: list.split)
  moreover have "set (map pair_of (chain_findings v)) \<inter> set (map pair_of (restart_findings resumes v)) = {}"
  proof -
    have "fst q = typeChainRestarted" if "q \<in> set (map pair_of (restart_findings resumes v))" for q using that calculation(2) by blast
    moreover have "fst q \<noteq> typeChainRestarted" if "q \<in> set (map pair_of (chain_findings v))" for q
      using that \<open>typeChainRestarted \<notin> fst ` set (map pair_of (chain_findings v))\<close> by (metis image_eqI)
    ultimately show ?thesis by blast
  qed
  ultimately show ?thesis unfolding map_append distinct_append by blast
qed

lemma examine_cases:
  obtains v resumes where "v = verifyStream jcs (wo_Files w) s (wc_maxLine cfg) (wc_maxFile cfg)" "vd_stream v = s"
    "snd (snd (examine jcs w cfg s)) = chain_findings v @ restart_findings resumes v"
    "fst (snd (examine jcs w cfg s)) = [] \<or> (\<exists>rep. fst (snd (examine jcs w cfg s)) = refusals_of s v rep)"
    "vd_err v \<noteq> None \<Longrightarrow> fst (examine jcs w cfg s)"
proof -
  define v where "v = verifyStream jcs (wo_Files w) s (wc_maxLine cfg) (wc_maxFile cfg)"
  define side where "side = (if wc_ckDir cfg \<noteq> [] then checkStreamCheckpoints jcs w cfg s else None)"
  have e: "examine jcs w cfg s = (case side of
        None \<Rightarrow> (vd_err v \<noteq> None, [], chain_findings v @ restart_findings [] v)
      | Some (Inl err) \<Rightarrow> (True, [], chain_findings v @ restart_findings [] v)
      | Some (Inr rep) \<Rightarrow> (vd_err v \<noteq> None, refusals_of s v rep, chain_findings v @ restart_findings (ResumeCounts rep) v))"
    unfolding examine_def Let_def v_def [symmetric] side_def [symmetric] by (rule refl)
  have s: "vd_stream v = s" by (simp add: v_def)
  show thesis
  proof (cases side)
    case None
    show thesis by (rule that [OF v_def s, of "[]"]) (simp_all add: e None)
  next
    case (Some r)
    show thesis
    proof (cases r)
      case (Inl u)
      show thesis by (rule that [OF v_def s, of "[]"]) (simp_all add: e Some Inl)
    next
      case (Inr rep)
      show thesis by (rule that [OF v_def s, of "ResumeCounts rep"]) (auto simp: e Some Inr)
    qed
  qed
qed

lemma examine_sound:
  "\<not> fst (examine jcs w cfg s) \<Longrightarrow> vd_err (verifyStream jcs (wo_Files w) s (wc_maxLine cfg) (wc_maxFile cfg)) = None \<and>
     (if wc_ckDir cfg = [] then True else checkStreamCheckpoints jcs w cfg s \<noteq> Some (Inl ()))"
  by (auto simp: examine_def Let_def split: option.splits sum.splits if_splits)

lemma findings_of_stream:
  assumes "f \<in> set (snd (snd (examine jcs w cfg s)))"
  shows "fd_file f = sm_name s \<and> fd_typ f \<in> finding_types"
proof (rule examine_cases [of jcs w s cfg])
  fix v r
  assume "vd_stream v = s" "snd (snd (examine jcs w cfg s)) = chain_findings v @ restart_findings r v"
  with assms show ?thesis
    by (auto simp: chain_findings_def restart_findings_def finding_types_def split: list.splits if_splits)
qed

lemma refusals_of_stream:
  assumes "f \<in> set (fst (snd (examine jcs w cfg s)))"
  shows "fd_file f = sm_name s \<and> fd_typ f = typeCheckpointRefused"
proof (rule examine_cases [of jcs w s cfg])
  fix v r
  assume "vd_stream v = s"
    "fst (snd (examine jcs w cfg s)) = [] \<or> (\<exists>rep. fst (snd (examine jcs w cfg s)) = refusals_of s v rep)"
  with assms show ?thesis by (auto simp: refusals_of_def)
qed

section \<open>What a saved state is loaded as\<close>

text \<open>Entries whose names survive the text: lines are counts, the names are UTF-8.\<close>

definition kept_text :: "reported list \<Rightarrow> bool" where
  "kept_text rs \<longleftrightarrow> list_all (\<lambda>r. 0 \<le> rp_Line r \<and> to_valid (rp_File r) = rp_File r \<and> to_valid (rp_Type r) = rp_Type r) rs"

lemma json_int64_wide: "0 \<le> n \<Longrightarrow> \<not> is_int64 n \<Longrightarrow> json_int64 (int_text n) = None"
proof -
  assume n: "0 \<le> n" "\<not> is_int64 n"
  have d: "dec_digits (nat n) \<noteq> []" "list_all is_digit (dec_digits (nat n))" using dec_digits_all by auto
  then have "hd (dec_digits (nat n)) \<noteq> CHR ''-''" by (cases "dec_digits (nat n)") (auto dest: digit_not_minus)
  with n d show ?thesis by (simp add: json_int64_def int_text_def Let_def digits_value_dec)
qed

lemma element_wide: "0 \<le> rp_Line r \<Longrightarrow> \<not> line_ok r \<Longrightarrow> set_element (reported_doc r) s = None"
proof -
  assume r: "0 \<le> rp_Line r" "\<not> line_ok r"
  then have "json_int64 (int_text (rp_Line r)) = None" "rp_Line r \<noteq> 0"
    using json_int64_wide by (auto simp: line_ok_def int64_defs)
  then show ?thesis
    by (simp add: set_element_def reported_doc_def reported_fields set_reported_def set_string_def set_int_def dec_enc_str split: prod.split)
qed

lemma fill_wide:
  "list_all (\<lambda>r. 0 \<le> rp_Line r) rs \<Longrightarrow> \<not> list_all line_ok rs \<Longrightarrow> fill_reported acc (length acc) (map reported_doc rs) = None"
proof (induction rs arbitrary: acc)
  case (Cons r rs)
  show ?case
  proof (cases "line_ok r")
    case True
    with Cons have "fill_reported (acc @ [clean_reported r]) (length (acc @ [clean_reported r])) (map reported_doc rs) = None"
      by (intro Cons.IH) simp_all
    with True show ?thesis by (simp add: element_read)
  qed (use Cons.prems in \<open>simp add: element_wide\<close>)
qed simp

lemma state_wide:
  assumes "list_all (\<lambda>r. 0 \<le> rp_Line r) (ws_Reported st)" "\<not> list_all line_ok (ws_Reported st)"
  shows "\<exists>e. loadWatchState (StateIs (state_bytes st)) = Inl e"
proof -
  let ?st = "st\<lparr>ws_Schema := stateSchema\<rparr>"
  have "cdepth (state_doc ?st) \<le> maxNestingDepth" using state_doc_depth [of ?st] by (simp add: maxNestingDepth_def)
  moreover have "wf_cst (state_doc ?st)"
    using assms(1) by (auto simp: state_doc_def reported_doc_def list_all_iff int_text_number plain_raw plain_name_def)
  ultimately have p: "parse_json (state_bytes st) = Some (state_doc ?st)" unfolding state_bytes_def by (intro indent_parses)
  have f: "fill_reported [] 0 (map reported_doc (ws_Reported st)) = None" using fill_wide [OF assms, of "[]"] by simp
  have "ws_Reported st \<noteq> []" using assms(2) by auto
  then have "json_struct [''schema'', ''reported''] set_state (state_bytes st) (\<lparr>ws_Schema = [], ws_Reported = []\<rparr>, []) = None"
    using f by (simp add: json_struct_defs p state_doc_def reported_fields set_state_def set_string_def set_reported_list_def)
  then show ?thesis by (simp add: loadWatchState_def)
qed

lemma kept_clean: "kept_text rs \<Longrightarrow> reported_key ` set (map clean_reported rs) = reported_key ` set rs \<and> kept_text (map clean_reported rs)"
  by (induction rs) (auto simp: kept_text_def clean_reported_def reported_key_def)

lemma kept_loaded:
  assumes "kept_text (ws_Reported st)" "loadWatchState (StateIs (state_bytes st)) = Inr st'"
  shows "known_keys st' = known_keys st \<and> kept_text (ws_Reported st')"
proof -
  have n: "list_all (\<lambda>r. 0 \<le> rp_Line r) (ws_Reported st)" using assms(1) by (auto simp: kept_text_def list_all_iff)
  have "list_all line_ok (ws_Reported st)" using state_wide [OF n] assms(2) by force
  moreover have "length (state_bytes st) \<le> maxStateBytes" using assms(2) by (auto simp: loadWatchState_def split: if_splits)
  ultimately have "ws_Reported st' = map clean_reported (ws_Reported st)" using state_loaded assms(2) by fastforce
  then show ?thesis using kept_clean [OF assms(1)] by (simp add: known_keys_def)
qed

section \<open>Delivery\<close>

text \<open>The last of the saves a pass made completed, where it made one.\<close>

definition last_saved :: "world \<Rightarrow> nat \<Rightarrow> bool" where
  "last_saved w n \<longleftrightarrow> n = 0 \<or> wo_Save w (n - 1) = (True, True)"

text \<open>A state file that remembers, of these entries, a beginning; all of them if the last save completed.\<close>

definition holds_entries :: "watchState \<Rightarrow> state_file \<Rightarrow> reported list \<Rightarrow> bool \<Rightarrow> state_file \<Rightarrow> bool" where
  "holds_entries st old es all file \<longleftrightarrow>
     file = old \<and> (all \<longrightarrow> es = []) \<or>
     (\<exists>bs. prefix bs es \<and> (all \<longrightarrow> bs = es) \<and> file = StateIs (state_bytes (st\<lparr>ws_Reported := ws_Reported st @ bs\<rparr>)))"

lemma holds_weaken: "holds_entries st old es a file \<Longrightarrow> (b \<Longrightarrow> a) \<Longrightarrow> holds_entries st old es b file"
  unfolding holds_entries_def by blast

text \<open>Where a delivery that began with \<open>st\<close> and \<open>old\<close> stands: \<open>es\<close> is what it has to remember.\<close>

definition delivering :: "world \<Rightarrow> watchState \<Rightarrow> state_file \<Rightarrow> reported list \<Rightarrow> delivery \<Rightarrow> bool" where
  "delivering w st old es d \<longleftrightarrow>
     dl_state d = st\<lparr>ws_Reported := ws_Reported st @ es\<rparr> \<and>
     holds_entries st old es (last_saved w (dl_saves d)) (dl_file d) \<and>
     (dl_failed d \<or> last_saved w (dl_saves d))"

lemma first_delivering: "delivering w st old [] (first_delivery st old)"
  by (simp add: delivering_def first_delivery_def holds_entries_def last_saved_def)

lemma save_holds:
  fixes w d ns ws
  assumes "delivering w st old es d"
  defines "d1 \<equiv> save_step w (d\<lparr>dl_state := (dl_state d)\<lparr>ws_Reported := ws_Reported (dl_state d) @ ns\<rparr>, dl_written := ws\<rparr>)"
  shows "delivering w st old (es @ ns) d1 \<and> dl_alerts d1 = dl_alerts d \<and> dl_written d1 = ws \<and> (\<not> dl_failed d1 \<longrightarrow> \<not> dl_failed d)"
proof -
  obtain wr rn where sv: "wo_Save w (dl_saves d) = (wr, rn)" by fastforce
  have s: "d1 = d\<lparr>dl_state := st\<lparr>ws_Reported := ws_Reported st @ es @ ns\<rparr>, dl_written := ws,
      dl_file := (if wr \<and> rn then StateIs (state_bytes (st\<lparr>ws_Reported := ws_Reported st @ es @ ns\<rparr>)) else dl_file d),
      dl_saves := dl_saves d + 1, dl_failed := (if wr \<and> rn then dl_failed d else True)\<rparr>"
    using assms(1) by (simp add: d1_def save_step_def sv saveWatchState_def delivering_def)
  have l: "last_saved w (dl_saves d + 1) \<longleftrightarrow> wr \<and> rn" by (simp add: last_saved_def sv)
  show ?thesis
  proof (cases "wr \<and> rn")
    case True
    then show ?thesis unfolding s delivering_def using l by (auto simp: holds_entries_def)
  next
    case False
    with assms(1) show ?thesis unfolding s delivering_def using l by (auto simp: holds_entries_def intro: prefix_prefix)
  qed
qed

text \<open>An alert whose line landed although \<^verbatim>\<open>Write\<close> returned an error.\<close>

definition unconfirmed :: "world \<Rightarrow> finding \<Rightarrow> bool" where
  "unconfirmed w f \<longleftrightarrow> (\<exists>i. write_of w i f = Unconfirmed)"

lemma after_write_holds:
  fixes w i f d
  assumes "delivering w st old es d"
  defines "d1 \<equiv> after_write w i f (bus_step w i f d)"
  shows "delivering w st old (es @ (if write_of w i f = Written then [remembered (wo_Now w) f] else [])) d1"
    "dl_alerts d1 = dl_alerts d @ (if write_of w i f = NotWritten then [] else [f])"
    "dl_written d1 = dl_written d @ (if write_of w i f = Written then [f] else [])"
    "\<not> dl_failed d1 \<Longrightarrow> write_of w i f = Written \<and> \<not> dl_failed d"
proof -
  let ?b = "bus_step w i f d"
  have b: "delivering w st old es ?b" "dl_written ?b = dl_written d" "dl_failed ?b = dl_failed d"
    "dl_alerts ?b = dl_alerts d @ (if write_of w i f = NotWritten then [] else [f])"
    using assms(1) by (simp_all add: bus_step_def delivering_def)
  have "delivering w st old (es @ (if write_of w i f = Written then [remembered (wo_Now w) f] else [])) d1 \<and>
    dl_alerts d1 = dl_alerts ?b \<and> dl_written d1 = dl_written d @ (if write_of w i f = Written then [f] else []) \<and>
    (\<not> dl_failed d1 \<longrightarrow> write_of w i f = Written \<and> \<not> dl_failed d)"
  proof (cases "write_of w i f = Written")
    case True
    then show ?thesis
      using save_holds [OF b(1), of "[remembered (wo_Now w) f]" "dl_written d @ [f]"] b(2,3) by (simp add: d1_def after_write_def)
  next
    case False
    then show ?thesis using b by (simp add: d1_def after_write_def delivering_def)
  qed
  then show "delivering w st old (es @ (if write_of w i f = Written then [remembered (wo_Now w) f] else [])) d1"
    "dl_alerts d1 = dl_alerts d @ (if write_of w i f = NotWritten then [] else [f])"
    "dl_written d1 = dl_written d @ (if write_of w i f = Written then [f] else [])"
    "\<not> dl_failed d1 \<Longrightarrow> write_of w i f = Written \<and> \<not> dl_failed d" using b(4) by simp_all
qed

lemma deliver_result:
  assumes "delivering w st old es d"
  shows "\<exists>as ws. subseq as fs \<and> subseq ws as \<and> dl_alerts (deliver w i fs d) = dl_alerts d @ as \<and>
    dl_written (deliver w i fs d) = dl_written d @ ws \<and> (\<forall>f \<in> set as. f \<in> set ws \<or> unconfirmed w f) \<and>
    delivering w st old (es @ map (remembered (wo_Now w)) ws) (deliver w i fs d) \<and>
    (\<not> dl_failed (deliver w i fs d) \<longrightarrow> as = fs \<and> ws = fs \<and> \<not> dl_failed d)"
  using assms
proof (induction fs arbitrary: i d es)
  case Nil
  then show ?case by (intro exI [of _ "[]"]) simp
next
  case (Cons f fs)
  define d1 where "d1 = after_write w i f (bus_step w i f d)"
  define a where "a = (if write_of w i f = NotWritten then [] else [f])"
  define v where "v = (if write_of w i f = Written then [f] else [])"
  have rem: "(if write_of w i f = Written then [remembered (wo_Now w) f] else []) = map (remembered (wo_Now w)) v"
    by (simp add: v_def)
  note d1 = after_write_holds [OF Cons.prems, of i f, folded d1_def a_def v_def, unfolded rem]
  from Cons.IH [OF d1(1), of "i + 1"] obtain as ws where as: "subseq as fs" "subseq ws as"
    "dl_alerts (deliver w (i + 1) fs d1) = dl_alerts d1 @ as" "dl_written (deliver w (i + 1) fs d1) = dl_written d1 @ ws"
    "\<forall>f \<in> set as. f \<in> set ws \<or> unconfirmed w f"
    "delivering w st old ((es @ map (remembered (wo_Now w)) v) @ map (remembered (wo_Now w)) ws) (deliver w (i + 1) fs d1)"
    "\<not> dl_failed (deliver w (i + 1) fs d1) \<longrightarrow> as = fs \<and> ws = fs \<and> \<not> dl_failed d1" by blast
  have e: "deliver w i (f # fs) d = deliver w (i + 1) fs d1" by (simp add: d1_def)
  have "subseq (a @ as) (f # fs)" "subseq (v @ ws) (a @ as)" using as(1,2) by (auto simp: a_def v_def)
  moreover have "\<forall>g \<in> set (a @ as). g \<in> set (v @ ws) \<or> unconfirmed w g"
    using as(5) unfolding a_def v_def unconfirmed_def by (cases "write_of w i f") auto
  moreover have "\<not> dl_failed (deliver w (i + 1) fs d1) \<longrightarrow> a @ as = f # fs \<and> v @ ws = f # fs \<and> \<not> dl_failed d"
    using as(7) d1(4) by (auto simp: a_def v_def)
  ultimately show ?case
    unfolding e using as(3,4,6) d1(2,3) by (intro exI [of _ "a @ as"] exI [of _ "v @ ws"]) simp
qed

section \<open>One pass\<close>

text \<open>Everything a pass examined, in its order.\<close>

definition pass_streams :: "world \<Rightarrow> watchConfig \<Rightarrow> stream list" where
  "pass_streams w cfg =
     (case listStreams (wc_dir cfg) (wo_ReadDir w) of None \<Rightarrow> [] | Some (streams, skipped) \<Rightarrow> with_own w cfg streams)"

definition pass_findings :: "(bytes \<Rightarrow> bytes option) \<Rightarrow> watchConfig \<Rightarrow> world \<Rightarrow> finding list" where
  "pass_findings jcs cfg w = concat (map (snd \<circ> snd) (map (examine jcs w cfg) (pass_streams w cfg)))"

definition pass_refusals :: "(bytes \<Rightarrow> bytes option) \<Rightarrow> watchConfig \<Rightarrow> world \<Rightarrow> finding list" where
  "pass_refusals jcs cfg w = concat (map (fst \<circ> snd) (map (examine jcs w cfg) (pass_streams w cfg)))"

text \<open>What the early returns leave, and what the plan of a pass is made of.\<close>

lemma plan_cases:
  obtains "pass_plan jcs cfg w store = None"
  | failed st where "loadWatchState store = Inr st"
    "pass_plan jcs cfg w store = Some (failed, st, unknown st (pass_refusals jcs cfg w), unknown st (pass_findings jcs cfg w))"
    "failed \<longleftrightarrow> (\<exists>s \<in> set (pass_streams w cfg). fst (examine jcs w cfg s))"
proof (cases "pass_plan jcs cfg w store")
  case (Some q)
  obtain st where st: "loadWatchState store = Inr st" using Some by (cases "loadWatchState store") (auto simp: pass_plan_def split: if_splits)
  obtain streams skipped where ls: "listStreams (wc_dir cfg) (wo_ReadDir w) = Some (streams, skipped)"
    using Some by (cases "listStreams (wc_dir cfg) (wo_ReadDir w)") (auto simp: pass_plan_def st split: if_splits)
  have ps: "pass_streams w cfg = with_own w cfg streams" by (simp add: pass_streams_def ls)
  have q: "q = (list_ex fst (map (examine jcs w cfg) (pass_streams w cfg)), st, unknown st (pass_refusals jcs cfg w), unknown st (pass_findings jcs cfg w))"
    using Some unfolding pass_plan_def st ls sum.case option.case prod.case Let_def ps [symmetric] pass_refusals_def pass_findings_def
    by (simp split: if_splits)
  show thesis by (rule that(2) [OF st Some [unfolded q]]) (auto simp: list_ex_iff)
qed (rule that(1))

lemma finish_result:
  fixes failed refusals w d
  defines "p \<equiv> finish_pass w failed refusals d"
  assumes "delivering w st old es d"
  shows "pa_alerts p = dl_alerts d \<and> pa_written p = dl_written d \<and> pa_refused p = refusals \<and>
    holds_entries st old (es @ map (remembered (wo_Now w)) refusals) (last_saved w (pa_saves p)) (pa_file p) \<and>
    (pa_code p \<noteq> 2 \<longrightarrow> \<not> failed \<and> \<not> dl_failed d \<and> last_saved w (pa_saves p)) \<and>
    pa_code p = (if pa_code p = 2 then 2 else if (\<exists>f \<in> set (dl_alerts d). fd_typ f = typeChainBroken) \<or> refusals \<noteq> [] then 1 else 0)"
proof (cases "refusals = []")
  case True
  with assms(2) show ?thesis by (auto simp: p_def finish_pass_def Let_def delivering_def)
next
  case False
  define d1 where "d1 = save_step w (d\<lparr>dl_state := (dl_state d)\<lparr>ws_Reported := ws_Reported (dl_state d) @ map (remembered (wo_Now w)) refusals\<rparr>\<rparr>)"
  have d1: "delivering w st old (es @ map (remembered (wo_Now w)) refusals) d1"
    "dl_alerts d1 = dl_alerts d" "dl_written d1 = dl_written d" "\<not> dl_failed d1 \<longrightarrow> \<not> dl_failed d"
    using save_holds [OF assms(2), of "map (remembered (wo_Now w)) refusals" "dl_written d"] by (simp_all add: d1_def)
  have "p = \<lparr>pa_code = (if failed \<or> dl_failed d1 then 2 else 1), pa_alerts = dl_alerts d1, pa_written = dl_written d1,
      pa_refused = refusals, pa_saves = dl_saves d1, pa_file = dl_file d1\<rparr>"
    using False by (simp add: p_def finish_pass_def Let_def d1_def)
  with d1 False show ?thesis by (auto simp: delivering_def)
qed

text \<open>A pass that got past its early returns, and the same for one that was killed.\<close>

lemma pass_result:
  assumes "watchPass jcs cfg w store \<noteq> failed_pass store"
  obtains st where "loadWatchState store = Inr st"
    "subseq (pa_alerts (watchPass jcs cfg w store)) (unknown st (pass_findings jcs cfg w))"
    "subseq (pa_written (watchPass jcs cfg w store)) (pa_alerts (watchPass jcs cfg w store))"
    "\<forall>f \<in> set (pa_alerts (watchPass jcs cfg w store)). f \<in> set (pa_written (watchPass jcs cfg w store)) \<or> unconfirmed w f"
    "pa_refused (watchPass jcs cfg w store) = unknown st (pass_refusals jcs cfg w)"
    "holds_entries st store (map (remembered (wo_Now w)) (pa_written (watchPass jcs cfg w store) @ pa_refused (watchPass jcs cfg w store)))
       (last_saved w (pa_saves (watchPass jcs cfg w store))) (pa_file (watchPass jcs cfg w store))"
    "pa_code (watchPass jcs cfg w store) \<noteq> 2 \<Longrightarrow> pa_alerts (watchPass jcs cfg w store) = unknown st (pass_findings jcs cfg w) \<and>
       (\<forall>s \<in> set (pass_streams w cfg). \<not> fst (examine jcs w cfg s)) \<and>
       pa_code (watchPass jcs cfg w store) =
         (if (\<exists>f \<in> set (pa_alerts (watchPass jcs cfg w store)). fd_typ f = typeChainBroken) \<or> pa_refused (watchPass jcs cfg w store) \<noteq> [] then 1 else 0)"
proof (rule plan_cases [of jcs cfg w store])
  assume "pass_plan jcs cfg w store = None"
  with assms show thesis by (simp add: watchPass_def)
next
  fix failed st
  let ?p = "watchPass jcs cfg w store" and ?rem = "map (remembered (wo_Now w))"
  define R where "R = unknown st (pass_refusals jcs cfg w)"
  define F where "F = unknown st (pass_findings jcs cfg w)"
  assume st: "loadWatchState store = Inr st"
    and plan: "pass_plan jcs cfg w store = Some (failed, st, unknown st (pass_refusals jcs cfg w), unknown st (pass_findings jcs cfg w))"
    and failed: "failed \<longleftrightarrow> (\<exists>s \<in> set (pass_streams w cfg). fst (examine jcs w cfg s))"
  define d where "d = deliver w 0 F (first_delivery st store)"
  have p: "?p = finish_pass w (failed \<or> F \<noteq> [] \<and> \<not> wo_Close w) R d"
    unfolding watchPass_def plan by (simp add: d_def F_def R_def)
  obtain as ws where d: "subseq as F" "subseq ws as" "dl_alerts d = as" "dl_written d = ws"
    "\<forall>f \<in> set as. f \<in> set ws \<or> unconfirmed w f" "delivering w st store (?rem ws) d" "\<not> dl_failed d \<longrightarrow> as = F"
    using deliver_result [OF first_delivering [of w st store], of F 0] by (auto simp: d_def first_delivery_def)
  note fin = finish_result [OF d(6), of "failed \<or> F \<noteq> [] \<and> \<not> wo_Close w" R, folded p, unfolded d(3,4)]
  show thesis
  proof (rule that [OF st])
    show "holds_entries st store (?rem (pa_written ?p @ pa_refused ?p)) (last_saved w (pa_saves ?p)) (pa_file ?p)" using fin by simp
    show "pa_alerts ?p = unknown st (pass_findings jcs cfg w) \<and> (\<forall>s \<in> set (pass_streams w cfg). \<not> fst (examine jcs w cfg s)) \<and>
       pa_code ?p = (if (\<exists>f \<in> set (pa_alerts ?p). fd_typ f = typeChainBroken) \<or> pa_refused ?p \<noteq> [] then 1 else 0)"
      if c: "pa_code ?p \<noteq> 2"
    proof -
      have "\<not> failed" "as = F" using fin c d(7) by blast+
      moreover have "pa_code ?p = (if (\<exists>f \<in> set as. fd_typ f = typeChainBroken) \<or> R \<noteq> [] then 1 else 0)" using fin c by metis
      ultimately show ?thesis using fin failed by (auto simp: F_def)
    qed
  qed (use fin d in \<open>simp_all add: F_def R_def\<close>)
qed

lemma killed_result:
  fixes jcs cfg w k mid store
  defines "p \<equiv> killed_pass jcs cfg w k mid store"
  assumes "p \<noteq> (failed_pass store)\<lparr>pa_code := 137\<rparr>"
  obtains st where "loadWatchState store = Inr st" "subseq (pa_alerts p) (unknown st (pass_findings jcs cfg w))"
    "subseq (pa_written p) (pa_alerts p)"
    "\<forall>f \<in> set (pa_alerts p). f \<in> set (pa_written p) \<or> unconfirmed w f \<or> mid \<and> f = last (pa_alerts p)"
    "holds_entries st store (map (remembered (wo_Now w)) (pa_written p)) (last_saved w (pa_saves p)) (pa_file p)"
proof (rule plan_cases [of jcs cfg w store])
  assume "pass_plan jcs cfg w store = None"
  with assms show thesis by (simp add: killed_pass_def)
next
  fix failed st
  define F where "F = unknown st (pass_findings jcs cfg w)"
  define d0 where "d0 = deliver w 0 (take k F) (first_delivery st store)"
  define d where "d = (if mid \<and> k < length F then bus_step w k (F ! k) d0 else d0)"
  assume st: "loadWatchState store = Inr st"
    and plan: "pass_plan jcs cfg w store = Some (failed, st, unknown st (pass_refusals jcs cfg w), unknown st (pass_findings jcs cfg w))"
  have p: "p = \<lparr>pa_code = 137, pa_alerts = dl_alerts d, pa_written = dl_written d, pa_refused = [], pa_saves = dl_saves d, pa_file = dl_file d\<rparr>"
    unfolding p_def killed_pass_def plan by (simp add: d_def d0_def F_def Let_def)
  obtain as ws where as: "subseq as (take k F)" "subseq ws as" "dl_alerts d0 = as" "dl_written d0 = ws"
    "\<forall>f \<in> set as. f \<in> set ws \<or> unconfirmed w f" "delivering w st store (map (remembered (wo_Now w)) ws) d0"
    using deliver_result [OF first_delivering [of w st store], of "take k F" 0] by (auto simp: d0_def first_delivery_def)
  define a where "a = (if mid \<and> k < length F \<and> write_of w k (F ! k) \<noteq> NotWritten then [F ! k] else [])"
  have d: "dl_alerts d = as @ a" "dl_written d = ws" "delivering w st store (map (remembered (wo_Now w)) ws) d"
    using as by (auto simp: d_def a_def bus_step_def delivering_def)
  have "subseq a (drop k F)" by (auto simp: a_def Cons_nth_drop_Suc [symmetric])
  then have "subseq (as @ a) (take k F @ drop k F)" using as(1) by (rule list_emb_append_mono [rotated])
  then have sub: "subseq (as @ a) F" by simp
  show thesis
  proof (rule that [OF st])
    show "\<forall>f \<in> set (pa_alerts p). f \<in> set (pa_written p) \<or> unconfirmed w f \<or> mid \<and> f = last (pa_alerts p)"
      using as(5) unfolding p d by (auto simp: a_def split: if_splits)
    show "subseq (pa_written p) (pa_alerts p)" using list_emb_append2 [OF as(2)] list_emb_append_mono [OF as(2), of "[]" a] by (simp add: p d)
  qed (use sub d in \<open>simp_all add: p F_def delivering_def\<close>)
qed

end
