(* ===== verification/Watch_Run.thy ===== *)
theory Watch_Run
  imports Watch_Sound
begin

text \<open>
  Passes one after the other, the state file carried along: a finding reaches the bus, and once;
  what an exit code of zero says; when the loop returns. Any of the passes may be killed on the way.
\<close>

section \<open>Passes in a row\<close>

text \<open>
  How a pass ends: it returns, or its process is killed after so many of its alerts, with or without
  one more line written. The watcher that is started next finds the state file as it was left.
\<close>

datatype ending = RunsOut | Killed nat bool

fun ended_pass :: "(bytes \<Rightarrow> bytes option) \<Rightarrow> watchConfig \<Rightarrow> world \<times> ending \<Rightarrow> state_file \<Rightarrow> pass" where
  "ended_pass jcs cfg (w, RunsOut) store = watchPass jcs cfg w store"
| "ended_pass jcs cfg (w, Killed k mid) store = killed_pass jcs cfg w k mid store"

fun watch_run :: "(bytes \<Rightarrow> bytes option) \<Rightarrow> watchConfig \<Rightarrow> (world \<times> ending) list \<Rightarrow> state_file \<Rightarrow> pass list" where
  "watch_run jcs cfg [] store = []"
| "watch_run jcs cfg (we # ws) store = (let p = ended_pass jcs cfg we store in p # watch_run jcs cfg ws (pa_file p))"

lemma length_run [simp]: "length (watch_run jcs cfg ws store) = length ws"
  by (induction ws arbitrary: store) (simp_all add: Let_def)

text \<open>A directory as an operating system lists one: each name once, without NUL; and the names are UTF-8.\<close>

definition plain_text :: "string \<Rightarrow> bool" where
  "plain_text s \<longleftrightarrow> CHR 0x00 \<notin> set s \<and> to_valid s = s"

definition plain_dir :: "world \<Rightarrow> bool" where
  "plain_dir w \<longleftrightarrow> (case wo_ReadDir w of None \<Rightarrow> True | Some es \<Rightarrow> distinct (map fst es) \<and> list_all (plain_text \<circ> fst) es)"

lemma own_plain: "plain_text watchOutputName"
  unfolding plain_text_def
  by (auto simp: watchOutputName_def watchSource_def ascii_def intro!: to_valid_id ascii_valid)

lemma types_plain_text: "t \<in> finding_types \<Longrightarrow> plain_text t"
  using types_plain by (simp add: plain_text_def)

lemma listed_names:
  assumes "listStreams dir (Some es) = Some (streams, skipped)" "distinct (map fst es)" "list_all (plain_text \<circ> fst) es"
  shows "distinct (map sm_name streams) \<and> list_all (plain_text \<circ> sm_name) streams"
proof -
  let ?nd = "filter snd (filter (\<lambda>(name, regular). suffix ''.ndjson'' name) es)"
  let ?l = "map (\<lambda>(name, regular). \<lparr>sm_name = name, sm_path = filepath_Join dir name\<rparr>) ?nd"
  have s: "streams = sort_key sm_name ?l" using assms(1) by (simp add: listStreams_def Let_def)
  have n: "map sm_name ?l = map fst ?nd" by (simp add: case_prod_beta)
  have "distinct (map fst ?nd)" using assms(2) by (intro distinct_map_filter)
  then have "distinct (map sm_name ?l)" by (simp only: n)
  then have "distinct (map sm_name streams)"
    unfolding s by (simp only: distinct_map set_sort distinct_sort)
  moreover have "plain_text (sm_name x)" if "x \<in> set streams" for x
    using that assms(3) unfolding s by (auto simp: list_all_iff)
  ultimately show ?thesis by (simp add: list_all_iff)
qed

lemma pass_names:
  assumes "plain_dir w"
  shows "distinct (map sm_name (pass_streams w cfg)) \<and> list_all (plain_text \<circ> sm_name) (pass_streams w cfg)"
proof (cases "wo_ReadDir w")
  case None
  then show ?thesis by (simp add: pass_streams_def listStreams_def)
next
  case (Some es)
  then obtain streams skipped where ls: "listStreams (wc_dir cfg) (Some es) = Some (streams, skipped)" by (simp add: listStreams_def Let_def)
  from listed_names [OF this] assms Some own_plain ls show ?thesis
    by (auto simp: pass_streams_def plain_dir_def with_own_def)
qed

lemma distinct_subseq: "subseq xs ys \<Longrightarrow> distinct ys \<Longrightarrow> distinct xs"
proof (induction rule: list_emb.induct)
  case (list_emb_Cons2 x y xs ys)
  then show ?case using list_emb_set [of "(=)" xs ys] by auto
qed simp_all

section \<open>Keys tell findings apart\<close>

definition plain_finding :: "finding \<Rightarrow> bool" where
  "plain_finding f \<longleftrightarrow> plain_text (fd_file f) \<and> plain_text (fd_typ f)"

lemma key_of_eq:
  "plain_finding f \<Longrightarrow> plain_finding g \<Longrightarrow> key_of f = key_of g \<Longrightarrow> fd_file f = fd_file g \<and> fd_typ f = fd_typ g \<and> fd_line f = fd_line g"
  using finding_key_inj [of "fd_file f" "fd_file g" "fd_typ f" "fd_typ g" "int (fd_line f)" "int (fd_line g)"]
  by (simp add: plain_finding_def plain_text_def key_of_def)

lemma findings_plain:
  assumes "plain_dir w"
  shows "f \<in> set (pass_findings jcs cfg w) \<Longrightarrow> plain_finding f \<and> fd_typ f \<noteq> typeCheckpointRefused"
    and "f \<in> set (pass_refusals jcs cfg w) \<Longrightarrow> plain_finding f \<and> fd_typ f = typeCheckpointRefused"
proof -
  note names = pass_names [OF assms, of cfg, THEN conjunct2]
  show "plain_finding f \<and> fd_typ f \<noteq> typeCheckpointRefused" if f: "f \<in> set (pass_findings jcs cfg w)"
  proof -
    from f obtain s where s: "s \<in> set (pass_streams w cfg)" "f \<in> set (snd (snd (examine jcs w cfg s)))"
      by (auto simp: pass_findings_def)
    moreover have "fd_typ f \<noteq> typeCheckpointRefused"
    proof (rule examine_cases [of jcs w s cfg])
      fix v r
      assume "snd (snd (examine jcs w cfg s)) = chain_findings v @ restart_findings r v"
      with s(2) show ?thesis
        using types_differ by (auto simp: chain_findings_def restart_findings_def split: list.splits if_splits)
    qed
    ultimately show ?thesis
      using findings_of_stream [OF s(2)] names types_plain_text by (auto simp: plain_finding_def list_all_iff)
  qed
  show "plain_finding f \<and> fd_typ f = typeCheckpointRefused" if f: "f \<in> set (pass_refusals jcs cfg w)"
  proof -
    from f obtain s where s: "s \<in> set (pass_streams w cfg)" "f \<in> set (fst (snd (examine jcs w cfg s)))"
      by (auto simp: pass_refusals_def)
    from refusals_of_stream [OF s(2)] s(1) names show ?thesis
      by (auto simp: plain_finding_def list_all_iff finding_types_def intro: types_plain_text)
  qed
qed

lemma stream_keys_distinct:
  assumes "plain_text (sm_name s)"
  shows "distinct (map key_of (snd (snd (examine jcs w cfg s))))"
proof (rule examine_cases [of jcs w s cfg])
  fix v r
  assume v: "v = verifyStream jcs (wo_Files w) s (wc_maxLine cfg) (wc_maxFile cfg)" "vd_stream v = s"
    "snd (snd (examine jcs w cfg s)) = chain_findings v @ restart_findings r v"
  let ?fs = "snd (snd (examine jcs w cfg s))"
  have d: "distinct (map pair_of ?fs)" unfolding v(3) by (rule stream_findings_distinct) (simp add: v(1) verdict_restarts)
  have pl: "plain_finding f" if "f \<in> set ?fs" for f
    using findings_of_stream [OF that] assms types_plain_text by (simp add: plain_finding_def)
  have "pair_of f = pair_of g" if "f \<in> set ?fs" "g \<in> set ?fs" "key_of f = key_of g" for f g
    using key_of_eq [OF pl [OF that(1)] pl [OF that(2)] that(3)] by (simp add: pair_of_def)
  with d show ?thesis unfolding distinct_map inj_on_def by blast
qed

lemma pass_keys_distinct:
  assumes "plain_dir w"
  shows "distinct (map key_of (pass_findings jcs cfg w))"
proof -
  have "distinct (map key_of (concat (map (\<lambda>s. snd (snd (examine jcs w cfg s))) ss)))"
    if "distinct (map sm_name ss)" "list_all (plain_text \<circ> sm_name) ss" for ss
    using that
  proof (induction ss)
    case (Cons s ss)
    let ?F = "\<lambda>s. snd (snd (examine jcs w cfg s))"
    have "key_of f \<noteq> key_of g" if fg: "f \<in> set (?F s)" "t \<in> set ss" "g \<in> set (?F t)" for f g t
    proof -
      have pt: "plain_text (sm_name s)" "plain_text (sm_name t)" using Cons.prems(2) fg(2) by (auto simp: list_all_iff)
      have n: "fd_file f = sm_name s" "fd_file g = sm_name t" "plain_finding f" "plain_finding g"
        using findings_of_stream [OF fg(1)] findings_of_stream [OF fg(3)] pt types_plain_text by (simp_all add: plain_finding_def)
      moreover have "sm_name s \<noteq> sm_name t" using Cons.prems(1) fg(2) by auto
      ultimately show ?thesis using key_of_eq by metis
    qed
    moreover have "distinct (map key_of (?F s))" using Cons.prems(2) by (intro stream_keys_distinct) simp
    moreover have "distinct (map key_of (concat (map ?F ss)))" using Cons by simp
    ultimately show ?case by (auto simp: image_iff)
  qed simp
  from this [of "pass_streams w cfg"] pass_names [OF assms, of cfg] show ?thesis
    by (simp add: pass_findings_def comp_def)
qed

section \<open>What the state file holds from pass to pass\<close>

definition remembers :: "state_file \<Rightarrow> string set \<Rightarrow> bool" where
  "remembers store ks \<longleftrightarrow>
     store = NoState \<and> ks = {} \<or>
     (\<exists>st. store = StateIs (state_bytes st) \<and> kept_text (ws_Reported st) \<and> known_keys st = ks)"

lemma remembers_load:
  assumes "remembers store ks" "loadWatchState store = Inr st"
  shows "known_keys st = ks \<and> kept_text (ws_Reported st)"
proof -
  from assms(1) consider "store = NoState" "ks = {}"
    | s0 where "store = StateIs (state_bytes s0)" "kept_text (ws_Reported s0)" "known_keys s0 = ks" by (auto simp: remembers_def)
  then show ?thesis
  proof cases
    case 1
    with assms(2) show ?thesis by (auto simp: loadWatchState_def known_keys_def kept_text_def)
  next
    case 2
    with assms(2) kept_loaded [OF 2(2), of st] show ?thesis by simp
  qed
qed

lemma remembered_key [simp]: "reported_key (remembered now f) = key_of f"
  by (simp add: reported_key_def remembered_def key_of_def)

lemma kept_more: "kept_text rs \<Longrightarrow> list_all plain_finding fs \<Longrightarrow> kept_text (rs @ map (remembered now) fs)"
  by (auto simp: kept_text_def list_all_iff remembered_def plain_finding_def plain_text_def)

lemma kept_app: "kept_text (a @ b) \<longleftrightarrow> kept_text a \<and> kept_text b" by (simp add: kept_text_def)

lemma remembers_held:
  assumes "remembers store ks" "loadWatchState store = Inr st" "holds_entries st store (map (remembered now) fs) all new"
    "list_all plain_finding fs"
  obtains ks' where "remembers new ks'" "ks \<subseteq> ks'" "ks' \<subseteq> ks \<union> key_of ` set fs" "all \<Longrightarrow> ks' = ks \<union> key_of ` set fs"
proof -
  note k = remembers_load [OF assms(1,2)]
  let ?es = "map (remembered now) fs"
  have ke: "kept_text (ws_Reported st @ ?es)" using kept_more k assms(4) by simp
  have new: "key_of ` set fs = reported_key ` set ?es" by (simp add: image_image)
  from assms(3) consider "new = store" "all \<longrightarrow> ?es = []"
    | bs where "prefix bs ?es" "all \<longrightarrow> bs = ?es" "new = StateIs (state_bytes (st\<lparr>ws_Reported := ws_Reported st @ bs\<rparr>))"
    unfolding holds_entries_def by blast
  then show thesis
  proof cases
    case 1
    show thesis by (rule that [of ks]) (use 1 assms(1) in auto)
  next
    case 2
    have kb: "kept_text (ws_Reported st @ bs)" using ke 2(1) kept_app by (metis prefixE append.assoc)
    have kk: "known_keys (st\<lparr>ws_Reported := ws_Reported st @ bs\<rparr>) = ks \<union> reported_key ` set bs"
      using k by (auto simp: known_keys_def)
    show thesis
    proof (rule that [of "ks \<union> reported_key ` set bs"])
      show "remembers new (ks \<union> reported_key ` set bs)" using kb kk 2(3) unfolding remembers_def by auto
      show "ks \<union> reported_key ` set bs \<subseteq> ks \<union> key_of ` set fs" using set_mono_prefix [OF 2(1)] unfolding new by blast
      show "ks \<union> reported_key ` set bs = ks \<union> key_of ` set fs" if all using 2(2) that unfolding new by simp
    qed simp
  qed
qed

text \<open>
  An alert the state file may forget: its \<^verbatim>\<open>Write\<close> returned an error though the line landed, or
  the process was killed between that \<^verbatim>\<open>Write\<close> and the save, so that it is the last one; or the
  last save of the pass failed.
\<close>

fun forgotten :: "world \<times> ending \<Rightarrow> pass \<Rightarrow> finding \<Rightarrow> bool" where
  "forgotten (w, e) p f \<longleftrightarrow>
     f \<notin> set (pa_written p) \<and> (unconfirmed w f \<or> (\<exists>k. e = Killed k True) \<and> f = last (pa_alerts p)) \<or>
     \<not> last_saved w (pa_saves p)"

lemma unknown_keys:
  assumes "plain_dir w" "subseq as (unknown st (pass_findings jcs cfg w))"
  shows "distinct (map key_of as)" "key_of ` set as \<inter> known_keys st = {}" "set as \<subseteq> set (pass_findings jcs cfg w)"
    "list_all plain_finding as"
proof -
  have "subseq (map key_of as) (map key_of (pass_findings jcs cfg w))"
    using assms(2) unfolding unknown_def by (meson subseq_filter_left subseq_map subseq_order.trans)
  then show "distinct (map key_of as)" using pass_keys_distinct [OF assms(1)] distinct_subseq by blast
  show "key_of ` set as \<inter> known_keys st = {}" "set as \<subseteq> set (pass_findings jcs cfg w)"
    using list_emb_set [OF assms(2)] unfolding unknown_def by auto
  then show "list_all plain_finding as" using findings_plain(1) [OF assms(1)] by (auto simp: list_all_iff)
qed

lemma remembers_pass:
  fixes jcs cfg w e store
  defines "p \<equiv> ended_pass jcs cfg (w, e) store"
  assumes w: "plain_dir w" and store: "remembers store ks"
  obtains ks' where "remembers (pa_file p) ks'" "ks \<subseteq> ks'" "ks' \<subseteq> ks \<union> key_of ` set (pa_alerts p @ pa_refused p)"
    "\<And>f. f \<in> set (pa_alerts p) \<Longrightarrow> \<not> forgotten (w, e) p f \<Longrightarrow> key_of f \<in> ks'"
    "distinct (map key_of (pa_alerts p))" "key_of ` set (pa_alerts p) \<inter> ks = {}"
    "pa_code p < 2 \<Longrightarrow> key_of ` set (pass_findings jcs cfg w) \<subseteq> ks \<union> key_of ` set (pa_alerts p)"
    "set (pa_alerts p) \<subseteq> set (pass_findings jcs cfg w)" "set (pa_refused p) \<subseteq> set (pass_refusals jcs cfg w)"
proof (cases "p = failed_pass store \<or> p = (failed_pass store)\<lparr>pa_code := 137\<rparr>")
  case True
  show thesis by (rule that [of ks]) (use True store in \<open>auto simp: failed_pass_def\<close>)
next
  case False
  have "\<exists>st. loadWatchState store = Inr st \<and> subseq (pa_alerts p) (unknown st (pass_findings jcs cfg w)) \<and>
    subseq (pa_written p) (pa_alerts p) \<and>
    (\<forall>f \<in> set (pa_alerts p). f \<in> set (pa_written p) \<or> unconfirmed w f \<or> (\<exists>k. e = Killed k True) \<and> f = last (pa_alerts p)) \<and>
    set (pa_refused p) \<subseteq> set (pass_refusals jcs cfg w) \<and>
    holds_entries st store (map (remembered (wo_Now w)) (pa_written p @ pa_refused p)) (last_saved w (pa_saves p)) (pa_file p) \<and>
    (pa_code p < 2 \<longrightarrow> pa_alerts p = unknown st (pass_findings jcs cfg w))"
  proof (cases e)
    case RunsOut
    have p: "p = watchPass jcs cfg w store" by (simp add: p_def RunsOut)
    from False have "p \<noteq> failed_pass store" by simp
    then show ?thesis
    proof (rule pass_result [where jcs = jcs and cfg = cfg and w = w and store = store, folded p])
      fix st
      assume "loadWatchState store = Inr st" "subseq (pa_alerts p) (unknown st (pass_findings jcs cfg w))"
        "subseq (pa_written p) (pa_alerts p)" "\<forall>f \<in> set (pa_alerts p). f \<in> set (pa_written p) \<or> unconfirmed w f"
        "pa_refused p = unknown st (pass_refusals jcs cfg w)"
        "holds_entries st store (map (remembered (wo_Now w)) (pa_written p @ pa_refused p)) (last_saved w (pa_saves p)) (pa_file p)"
        "pa_code p \<noteq> 2 \<Longrightarrow> pa_alerts p = unknown st (pass_findings jcs cfg w) \<and>
           (\<forall>s \<in> set (pass_streams w cfg). \<not> fst (examine jcs w cfg s)) \<and>
           pa_code p = (if (\<exists>f \<in> set (pa_alerts p). fd_typ f = typeChainBroken) \<or> pa_refused p \<noteq> [] then 1 else 0)"
      moreover from this(5) have "set (pa_refused p) \<subseteq> set (pass_refusals jcs cfg w)" by (auto simp: unknown_def)
      ultimately show ?thesis by (intro exI [of _ st]) auto
    qed
  next
    case (Killed k mid)
    have p: "p = killed_pass jcs cfg w k mid store" by (simp add: p_def Killed)
    have c: "pa_code p = 137" "pa_refused p = []"
      unfolding p killed_pass_def by (auto simp: failed_pass_def Let_def split: option.split prod.split)
    from False have "p \<noteq> (failed_pass store)\<lparr>pa_code := 137\<rparr>" by simp
    then show ?thesis
    proof (rule killed_result [where jcs = jcs and cfg = cfg and w = w and store = store and k = k and mid = mid, folded p])
      fix st
      assume "loadWatchState store = Inr st" "subseq (pa_alerts p) (unknown st (pass_findings jcs cfg w))"
        "subseq (pa_written p) (pa_alerts p)"
        "\<forall>f \<in> set (pa_alerts p). f \<in> set (pa_written p) \<or> unconfirmed w f \<or> mid \<and> f = last (pa_alerts p)"
        "holds_entries st store (map (remembered (wo_Now w)) (pa_written p)) (last_saved w (pa_saves p)) (pa_file p)"
      then show ?thesis using c Killed by (intro exI [of _ st]) auto
    qed
  qed
  then obtain st where st: "loadWatchState store = Inr st" "subseq (pa_alerts p) (unknown st (pass_findings jcs cfg w))"
    "subseq (pa_written p) (pa_alerts p)"
    "\<forall>f \<in> set (pa_alerts p). f \<in> set (pa_written p) \<or> unconfirmed w f \<or> (\<exists>k. e = Killed k True) \<and> f = last (pa_alerts p)"
    "set (pa_refused p) \<subseteq> set (pass_refusals jcs cfg w)"
    "holds_entries st store (map (remembered (wo_Now w)) (pa_written p @ pa_refused p)) (last_saved w (pa_saves p)) (pa_file p)"
    "pa_code p < 2 \<longrightarrow> pa_alerts p = unknown st (pass_findings jcs cfg w)" by blast
  have k: "known_keys st = ks" using remembers_load [OF store st(1)] by blast
  note al = unknown_keys [OF w st(2)]
  have wr: "set (pa_written p) \<subseteq> set (pa_alerts p)" using list_emb_set [OF st(3)] by auto
  have pl: "list_all plain_finding (pa_written p @ pa_refused p)"
    using al(4) wr st(5) findings_plain(2) [OF w] by (auto simp: list_all_iff)
  obtain ks' where ks': "remembers (pa_file p) ks'" "ks \<subseteq> ks'" "ks' \<subseteq> ks \<union> key_of ` set (pa_written p @ pa_refused p)"
    "last_saved w (pa_saves p) \<Longrightarrow> ks' = ks \<union> key_of ` set (pa_written p @ pa_refused p)"
    using remembers_held [OF store st(1,6) pl] by blast
  show thesis
  proof (rule that [OF ks'(1,2) _ _ al(1) _ _ al(3) st(5)])
    show "ks' \<subseteq> ks \<union> key_of ` set (pa_alerts p @ pa_refused p)" using ks'(3) wr by auto
    show "key_of f \<in> ks'" if "f \<in> set (pa_alerts p)" "\<not> forgotten (w, e) p f" for f
      using that st(4) ks'(4) by auto
    show "key_of ` set (pa_alerts p) \<inter> ks = {}" using al(2) k by simp
    show "key_of ` set (pass_findings jcs cfg w) \<subseteq> ks \<union> key_of ` set (pa_alerts p)" if "pa_code p < 2"
      using st(7) that k unfolding unknown_def by auto
  qed
qed

section \<open>Alerts over the passes\<close>

definition triple_of :: "finding \<Rightarrow> string \<times> string \<times> nat" where
  "triple_of f = (fd_file f, fd_typ f, fd_line f)"

text \<open>What was found by the passes that returned, and said they could do their job.\<close>

definition reliable_findings :: "(bytes \<Rightarrow> bytes option) \<Rightarrow> watchConfig \<Rightarrow> (world \<times> ending) list \<Rightarrow> pass list \<Rightarrow> finding list" where
  "reliable_findings jcs cfg ws ps =
     concat (map2 (\<lambda>we p. if pa_code p < 2 then pass_findings jcs cfg (fst we) else []) ws ps)"

text \<open>What is remembered before a pass is not on the bus after it, and each pass names a finding once.\<close>

lemma run_new:
  assumes "remembers store ks" "list_all (plain_dir \<circ> fst) ws" "p \<in> set (watch_run jcs cfg ws store)"
  shows "distinct (map key_of (pa_alerts p)) \<and> key_of ` set (pa_alerts p) \<inter> ks = {}"
  using assms
proof (induction ws arbitrary: store ks)
  case (Cons we ws)
  obtain w e where we: "we = (w, e)" by fastforce
  let ?p = "ended_pass jcs cfg (w, e) store"
  have w: "plain_dir w" "list_all (plain_dir \<circ> fst) ws" using Cons.prems by (simp_all add: we comp_def)
  obtain ks' where ks': "remembers (pa_file ?p) ks'" "ks \<subseteq> ks'" "distinct (map key_of (pa_alerts ?p))"
    "key_of ` set (pa_alerts ?p) \<inter> ks = {}"
    using remembers_pass [OF w(1) Cons.prems(1), of jcs cfg e] by metis
  from Cons.IH [OF ks'(1) w(2)] ks'(2-4) Cons.prems(3) show ?case by (auto simp: we Let_def)
qed simp

lemma run_once:
  assumes "remembers store ks" "list_all (plain_dir \<circ> fst) ws" "i < j" "j < length ws"
    "f \<in> set (pa_alerts (watch_run jcs cfg ws store ! i))" "g \<in> set (pa_alerts (watch_run jcs cfg ws store ! j))"
    "key_of f = key_of g"
  shows "forgotten (ws ! i) (watch_run jcs cfg ws store ! i) f"
  using assms
proof (induction ws arbitrary: store ks i j)
  case (Cons we ws)
  obtain w e where we: "we = (w, e)" by fastforce
  let ?p = "ended_pass jcs cfg (w, e) store"
  have w: "plain_dir w" "list_all (plain_dir \<circ> fst) ws" using Cons.prems by (simp_all add: we comp_def)
  obtain ks' where ks': "remembers (pa_file ?p) ks'"
    "\<And>f. f \<in> set (pa_alerts ?p) \<Longrightarrow> \<not> forgotten (w, e) ?p f \<Longrightarrow> key_of f \<in> ks'"
    using remembers_pass [OF w(1) Cons.prems(1), of jcs cfg e] by metis
  obtain j' where j: "j = Suc j'" using Cons.prems(3) by (cases j) auto
  have g: "j' < length ws" "g \<in> set (pa_alerts (watch_run jcs cfg ws (pa_file ?p) ! j'))"
    using Cons.prems(4,6) by (simp_all add: j we Let_def)
  show ?case
  proof (cases i)
    case 0
    have "watch_run jcs cfg ws (pa_file ?p) ! j' \<in> set (watch_run jcs cfg ws (pa_file ?p))" using g(1) by simp
    from run_new [OF ks'(1) w(2) this] g(2) have "key_of g \<notin> ks'" by blast
    then show ?thesis using ks'(2) [of f] Cons.prems(5,7) by (auto simp: 0 we Let_def)
  next
    case (Suc i')
    have "i' < j'" "f \<in> set (pa_alerts (watch_run jcs cfg ws (pa_file ?p) ! i'))"
      using Cons.prems(3,5) by (simp_all add: Suc j we Let_def)
    from Cons.IH [OF ks'(1) w(2) this(1) g(1) this(2) g(2) Cons.prems(7)] show ?thesis by (simp add: Suc we Let_def)
  qed
qed simp

lemma run_delivers:
  assumes "remembers store ks" "list_all (plain_dir \<circ> fst) ws"
  shows "key_of ` set (reliable_findings jcs cfg ws (watch_run jcs cfg ws store)) \<subseteq>
    ks \<union> key_of ` set (concat (map (\<lambda>p. pa_alerts p @ pa_refused p) (watch_run jcs cfg ws store)))"
  using assms
proof (induction ws arbitrary: store ks)
  case (Cons we ws)
  obtain w e where we: "we = (w, e)" by fastforce
  let ?p = "ended_pass jcs cfg (w, e) store" and ?new = "\<lambda>p. key_of ` set (pa_alerts p @ pa_refused p)"
  have w: "plain_dir w" "list_all (plain_dir \<circ> fst) ws" using Cons.prems by (simp_all add: we comp_def)
  obtain ks' where ks': "remembers (pa_file ?p) ks'" "ks' \<subseteq> ks \<union> ?new ?p"
    "pa_code ?p < 2 \<Longrightarrow> key_of ` set (pass_findings jcs cfg w) \<subseteq> ks \<union> key_of ` set (pa_alerts ?p)"
    using remembers_pass [OF w(1) Cons.prems(1), of jcs cfg e] by metis
  let ?out = "\<lambda>p. pa_alerts p @ pa_refused p"
  let ?rest = "concat (map ?out (watch_run jcs cfg ws (pa_file ?p)))" and ?found = "reliable_findings jcs cfg ws (watch_run jcs cfg ws (pa_file ?p))"
  have all: "concat (map ?out (watch_run jcs cfg (we # ws) store)) = ?out ?p @ ?rest"
    "reliable_findings jcs cfg (we # ws) (watch_run jcs cfg (we # ws) store) = (if pa_code ?p < 2 then pass_findings jcs cfg w else []) @ ?found"
    by (simp_all add: we Let_def reliable_findings_def)
  have "key_of ` set (if pa_code ?p < 2 then pass_findings jcs cfg w else []) \<subseteq> ks \<union> ?new ?p" using ks'(3) by auto
  moreover have "key_of ` set ?found \<subseteq> ks' \<union> key_of ` set ?rest" by (rule Cons.IH [OF ks'(1) w(2)])
  ultimately show ?case using ks'(2) unfolding all set_append image_Un by blast
qed (simp add: reliable_findings_def)

lemma run_findings_plain:
  "list_all (plain_dir \<circ> fst) ws \<Longrightarrow> f \<in> set (reliable_findings jcs cfg ws ps) \<Longrightarrow> plain_finding f \<and> fd_typ f \<noteq> typeCheckpointRefused"
  by (auto simp: reliable_findings_def list_all_iff split: if_splits dest!: set_zip_leftD dest!: bspec findings_plain(1) [rotated])

lemma run_output_plain:
  assumes "remembers store ks" "list_all (plain_dir \<circ> fst) ws" "p \<in> set (watch_run jcs cfg ws store)"
  shows "(\<forall>f \<in> set (pa_alerts p). plain_finding f) \<and>
    (\<forall>f \<in> set (pa_refused p). plain_finding f \<and> fd_typ f = typeCheckpointRefused)"
  using assms
proof (induction ws arbitrary: store ks)
  case (Cons we ws)
  obtain w e where we: "we = (w, e)" by fastforce
  let ?p = "ended_pass jcs cfg (w, e) store"
  have w: "plain_dir w" "list_all (plain_dir \<circ> fst) ws" using Cons.prems by (simp_all add: we comp_def)
  obtain ks' where ks': "remembers (pa_file ?p) ks'" "set (pa_alerts ?p) \<subseteq> set (pass_findings jcs cfg w)"
      "set (pa_refused ?p) \<subseteq> set (pass_refusals jcs cfg w)"
    using remembers_pass [OF w(1) Cons.prems(1), of jcs cfg e] by metis
  from ks'(2,3) findings_plain [OF w(1), where jcs = jcs and cfg = cfg] Cons.IH [OF ks'(1) w(2)] Cons.prems(3) show ?case
    by (auto simp: we Let_def)
qed simp

section \<open>A bus nobody chains\<close>

definition sample_watch :: watchConfig where
  "sample_watch = \<lparr>wc_dir = ''d'', wc_outPath = ''out'', wc_statePath = ''st'', wc_maxLine = 100, wc_maxFile = 1000,
     wc_every = 0, wc_ckDir = [], wc_keys = (\<lambda>k. None)\<rparr>"

definition sample_line :: bytes where
  "sample_line = ''{\"schema\":\"v\",\"ts\":\"t\",\"source\":\"s\",\"type\":\"a\",\"agent_id\":\"b\"}''"

definition sample_world :: world where
  "sample_world =
     \<lparr>wo_Stat = Some True, wo_ReadDir = Some [(''a.ndjson'', True)], wo_Own = None,
      wo_Files = (\<lambda>p. \<lparr>fa_Lstat = Some True, fa_Open = True, fa_SameFile = True,
        fa_File = (sample_line @ [LF] @ sample_line @ [LF], False)\<rparr>),
      wo_Again = (\<lambda>p. None), wo_Sidecars = (\<lambda>p. \<lparr>sa_Open = None, sa_Regular = True, sa_File = ([], False)\<rparr>),
      wo_OpenOut = True, wo_Write = (\<lambda>i e. Written), wo_Save = (\<lambda>i. (True, True)), wo_Close = True, wo_Now = ''t'', wo_Version = ''dev''\<rparr>"

lemma sample_plain: "plain_dir sample_world"
  by (auto simp: plain_dir_def sample_world_def plain_text_def ascii_def intro!: to_valid_id ascii_valid)

definition sample_report :: ChainReport where
  "sample_report = \<lparr>cr_Lines = 2, cr_Malformed = 0, cr_Chained = 0, cr_HeadLines = [1, 2], cr_Unverifiable = [], cr_Breaks = []\<rparr>"

lemma sample_streams: "pass_streams sample_world sample_watch = [\<lparr>sm_name = ''a.ndjson'', sm_path = ''d/a.ndjson''\<rparr>]"
  by code_simp

lemma sample_read:
  "TrimSpace sample_line = sample_line" "sample_line \<noteq> []"
  "Unmarshal sample_line = Inr (zero_event\<lparr>ev_Schema := ''v'', ev_TS := ''t'', ev_Source := ''s'', ev_Type := ''a'', ev_AgentID := ''b''\<rparr>)"
  "ChainHashRaw (\<lambda>x. None) sample_line = Inl ErrCanonicalize"
  by code_simp+

lemma sample_verdict:
  "verifyStream (\<lambda>x. None) (wo_Files sample_world) s 100 1000 =
     \<lparr>vd_stream = s, vd_report = sample_report, vd_restarts = [\<lparr>rs_Line = 2, rs_After = 1\<rparr>], vd_err = None, vd_events = 2\<rparr>"
proof -
  let ?f = "sample_line @ [LF] @ sample_line @ [LF]"
  have c: "lineCap_loop 100 (0, 1) ?f = (?f, (0, 3), None)" by code_simp
  have l: "length ?f = 126" "length sample_line = 62" by code_simp+
  have p: "pieces ?f = [sample_line, sample_line]" "drop_cr sample_line = sample_line" by code_simp+
  have r: "v_report (verify_run (\<lambda>x. None) [sample_line, sample_line]) = sample_report"
    "v_restarts (verify_run (\<lambda>x. None) [sample_line, sample_line]) = [\<lparr>rs_Line = 2, rs_After = 1\<rparr>]"
    by (simp_all add: verify_run_def v_init_def verify_line_def judge_def sample_read Let_def sample_report_def zero_event_def)
  have cp: "capped (?f, False) 100 1000 = (?f, StopEOF, False)" unfolding capped_def using c l by simp
  have "VerifyChainRestarts (\<lambda>x. None) ?f False = (sample_report, [\<lparr>rs_Line = 2, rs_After = 1\<rparr>], None)"
    unfolding VerifyChainRestarts_def verifyChain_def scan_tokens_def p using l p r by (simp add: maxLine_def)
  then have "read_verdict (\<lambda>x. None) s (?f, False) 100 1000 =
      \<lparr>vd_stream = s, vd_report = sample_report, vd_restarts = [\<lparr>rs_Line = 2, rs_After = 1\<rparr>], vd_err = None, vd_events = 2\<rparr>"
    unfolding read_verdict_def cp by (simp add: sample_report_def)
  then show ?thesis by (simp add: verifyStream_def sample_world_def)
qed

lemma sample_findings: "map triple_of (pass_findings (\<lambda>x. None) sample_watch sample_world) = [(''a.ndjson'', typeChainUnchained, 0)]"
  unfolding pass_findings_def sample_streams
  by (simp add: examine_def sample_watch_def sample_verdict chain_findings_def restart_findings_def
      isUnchained_def sample_report_def triple_of_def)

section \<open>The promises\<close>

text \<open>
  C30. An alert is written once. Over any number of passes and restarts of the watcher, each run to
  its end or killed at any of its steps, starting without a state file and over directories whose
  names are UTF-8: no pass puts two alerts for the same file, kind and line on the bus, and where a
  later pass repeats an alert, the earlier one's \<^verbatim>\<open>Write\<close> had returned an error although the
  line landed, or its process was killed between that \<^verbatim>\<open>Write\<close> and the save, which can be
  so of the last alert of the pass only, or the last save of its pass had failed. A crash costs one
  duplicate at worst.
\<close>

theorem alert_once:
  assumes "list_all (plain_dir \<circ> fst) ws"
  shows "list_all (\<lambda>p. distinct (map triple_of (pa_alerts p))) (watch_run jcs cfg ws NoState) \<and>
    (\<forall>i j f g. i < j \<and> j < length ws \<and>
       f \<in> set (pa_alerts (watch_run jcs cfg ws NoState ! i)) \<and> g \<in> set (pa_alerts (watch_run jcs cfg ws NoState ! j)) \<and>
       triple_of f = triple_of g \<longrightarrow>
       forgotten (ws ! i) (watch_run jcs cfg ws NoState ! i) f)"
proof -
  have r: "remembers NoState {}" by (simp add: remembers_def)
  have k: "key_of f = key_of g" if "triple_of f = triple_of g" for f g using that by (simp add: triple_of_def key_of_def)
  have "distinct (map triple_of (pa_alerts p))" if "p \<in> set (watch_run jcs cfg ws NoState)" for p
    using run_new [OF r assms that] k unfolding distinct_map inj_on_def by metis
  then show ?thesis using run_once [OF r assms] k unfolding list_all_iff by blast
qed

text \<open>A pass killed between its only \<^verbatim>\<open>Write\<close> and the save, one that returns, and one more.\<close>

lemma pass_found: "set (pa_alerts (watchPass jcs cfg w store)) \<subseteq> set (pass_findings jcs cfg w)"
proof (cases "watchPass jcs cfg w store = failed_pass store")
  case False
  then show ?thesis
  proof (rule pass_result)
    fix st
    assume "subseq (pa_alerts (watchPass jcs cfg w store)) (unknown st (pass_findings jcs cfg w))"
    from list_emb_set [OF this] show ?thesis by (auto simp: unknown_def)
  qed
qed (simp add: failed_pass_def)

lemma sample_examine:
  "\<not> fst (examine (\<lambda>x. None) sample_world sample_watch s)" "fst (snd (examine (\<lambda>x. None) sample_world sample_watch s)) = []"
  by (simp_all add: examine_def sample_watch_def sample_verdict Let_def)

lemma sample_plan:
  "pass_plan (\<lambda>x. None) sample_watch sample_world store =
     (case loadWatchState store of
        Inl err \<Rightarrow> None
      | Inr st \<Rightarrow> Some (False, st, [], unknown st (pass_findings (\<lambda>x. None) sample_watch sample_world)))"
proof (cases "loadWatchState store")
  case (Inr st)
  have ne: "pass_plan (\<lambda>x. None) sample_watch sample_world store \<noteq> None"
    unfolding pass_plan_def Inr by (simp add: sample_world_def sample_watch_def listStreams_def watchOutputName_def watchSource_def Let_def suffix_def)
  show ?thesis
    by (rule plan_cases [of "\<lambda>x. None" sample_watch sample_world store])
      (use ne Inr in \<open>auto simp: pass_refusals_def sample_streams sample_examine unknown_def\<close>)
qed (simp add: pass_plan_def)

lemma sample_finding:
  obtains f where "pass_findings (\<lambda>x. None) sample_watch sample_world = [f]" "triple_of f = (''a.ndjson'', typeChainUnchained, 0)"
  using sample_findings by (auto simp: Cons_eq_map_conv map_eq_Cons_conv)

lemma sample_first:
  "map triple_of (pa_alerts (killed_pass (\<lambda>x. None) sample_watch sample_world 0 True NoState)) = [(''a.ndjson'', typeChainUnchained, 0)]"
  "pa_file (killed_pass (\<lambda>x. None) sample_watch sample_world 0 True NoState) = NoState"
  "map triple_of (pa_alerts (watchPass (\<lambda>x. None) sample_watch sample_world NoState)) = [(''a.ndjson'', typeChainUnchained, 0)]"
  "pa_written (watchPass (\<lambda>x. None) sample_watch sample_world NoState) = pa_alerts (watchPass (\<lambda>x. None) sample_watch sample_world NoState)"
proof -
  obtain f where f: "pass_findings (\<lambda>x. None) sample_watch sample_world = [f]" "triple_of f = (''a.ndjson'', typeChainUnchained, 0)"
    by (rule sample_finding)
  have w: "write_of sample_world i g = Written" for i g by (simp add: write_of_def sample_world_def)
  show "map triple_of (pa_alerts (killed_pass (\<lambda>x. None) sample_watch sample_world 0 True NoState)) = [(''a.ndjson'', typeChainUnchained, 0)]"
    "pa_file (killed_pass (\<lambda>x. None) sample_watch sample_world 0 True NoState) = NoState"
    "map triple_of (pa_alerts (watchPass (\<lambda>x. None) sample_watch sample_world NoState)) = [(''a.ndjson'', typeChainUnchained, 0)]"
    "pa_written (watchPass (\<lambda>x. None) sample_watch sample_world NoState) = pa_alerts (watchPass (\<lambda>x. None) sample_watch sample_world NoState)"
    by (simp_all add: killed_pass_def watchPass_def sample_plan loadWatchState_def f unknown_def known_keys_def bus_step_def w
        after_write_def save_step_def finish_pass_def first_delivery_def Let_def split: prod.split)
qed

theorem alert_once_witness:
  "map (map triple_of \<circ> pa_alerts) (watch_run (\<lambda>x. None) sample_watch
      [(sample_world, Killed 0 True), (sample_world, RunsOut), (sample_world, RunsOut)] NoState) =
    [[(''a.ndjson'', typeChainUnchained, 0)], [(''a.ndjson'', typeChainUnchained, 0)], []]"
proof -
  let ?ws = "[(sample_world, Killed 0 True), (sample_world, RunsOut), (sample_world, RunsOut)]"
  let ?ps = "watch_run (\<lambda>x. None) sample_watch ?ws NoState"
  have pl: "list_all (plain_dir \<circ> fst) ?ws" by (simp add: sample_plain)
  have p: "?ps ! 1 = watchPass (\<lambda>x. None) sample_watch sample_world NoState" by (simp add: Let_def sample_first)
  have "pa_alerts (?ps ! 2) = []"
  proof (rule ccontr)
    assume "pa_alerts (?ps ! 2) \<noteq> []"
    then obtain g where g: "g \<in> set (pa_alerts (?ps ! 2))" by (meson list.set_sel(1))
    have "?ps ! 2 = watchPass (\<lambda>x. None) sample_watch sample_world (pa_file (watchPass (\<lambda>x. None) sample_watch sample_world NoState))"
      by (simp add: Let_def sample_first)
    with g pass_found have "g \<in> set (pass_findings (\<lambda>x. None) sample_watch sample_world)" by (metis subsetD)
    then have t: "triple_of g = (''a.ndjson'', typeChainUnchained, 0)" using sample_findings by (auto simp: map_eq_Cons_conv)
    obtain f where f: "pa_alerts (?ps ! 1) = [f]" "triple_of f = (''a.ndjson'', typeChainUnchained, 0)"
      using sample_first(3) unfolding p by (auto simp: map_eq_Cons_conv)
    have "forgotten (?ws ! 1) (?ps ! 1) f"
      using alert_once [OF pl, of "\<lambda>x. None" sample_watch, THEN conjunct2, rule_format, of 1 2 f g] f g t by simp
    moreover have "f \<in> set (pa_written (?ps ! 1))" using f(1) sample_first(4) unfolding p by simp
    moreover have "last_saved sample_world n" for n by (simp add: last_saved_def sample_world_def)
    ultimately show False by simp
  qed
  then show ?thesis using sample_first by (simp add: Let_def)
qed

text \<open>
  C31. Nothing found is lost. Over any number of passes and restarts, whatever writes and saves fail
  on the way and wherever a pass is killed, everything a pass found that returned and did not exit
  with 2 is on the bus by the end of that pass: some alert, of it or of an earlier one, is for the same file, kind and line.
\<close>

theorem alert_delivered:
  assumes "list_all (plain_dir \<circ> fst) ws"
  shows "triple_of ` set (reliable_findings jcs cfg ws (watch_run jcs cfg ws NoState))
    \<subseteq> triple_of ` set (concat (map pa_alerts (watch_run jcs cfg ws NoState)))"
proof
  fix t
  let ?ps = "watch_run jcs cfg ws NoState"
  assume "t \<in> triple_of ` set (reliable_findings jcs cfg ws ?ps)"
  then obtain f where f: "f \<in> set (reliable_findings jcs cfg ws ?ps)" "t = triple_of f" by blast
  have r: "remembers NoState {}" by (simp add: remembers_def)
  from run_delivers [OF r assms, of jcs cfg] f(1)
  obtain g p where g: "p \<in> set ?ps" "g \<in> set (pa_alerts p) \<or> g \<in> set (pa_refused p)" "key_of f = key_of g" by force
  note fp = run_findings_plain [OF assms f(1)]
  have gp: "plain_finding g" "g \<in> set (pa_refused p) \<Longrightarrow> fd_typ g = typeCheckpointRefused"
    using run_output_plain [OF r assms g(1)] g(2) by blast+
  have e: "triple_of f = triple_of g" "fd_typ g \<noteq> typeCheckpointRefused"
    using key_of_eq [OF fp [THEN conjunct1] gp(1) g(3)] fp by (simp_all add: triple_of_def)
  with g gp(2) have "g \<in> set (concat (map pa_alerts ?ps))" by auto
  with e(1) f(2) show "t \<in> triple_of ` set (concat (map pa_alerts ?ps))" by blast
qed

theorem alert_delivered_witness:
  "triple_of ` set (reliable_findings (\<lambda>x. None) sample_watch [(sample_world, RunsOut)] (watch_run (\<lambda>x. None) sample_watch [(sample_world, RunsOut)] NoState))
    \<subseteq> triple_of ` set (concat (map pa_alerts (watch_run (\<lambda>x. None) sample_watch [(sample_world, RunsOut)] NoState))) \<and>
   map triple_of (pass_findings (\<lambda>x. None) sample_watch sample_world) = [(''a.ndjson'', typeChainUnchained, 0)]"
proof -
  have "list_all (plain_dir \<circ> fst) [(sample_world, RunsOut)]" by (simp add: sample_plain)
  from alert_delivered [OF this] sample_findings show ?thesis by blast
qed


section \<open>The loop returns\<close>

primrec store_after :: "(bytes \<Rightarrow> bytes option) \<Rightarrow> watchConfig \<Rightarrow> (nat \<Rightarrow> world) \<Rightarrow> state_file \<Rightarrow> nat \<Rightarrow> state_file" where
  "store_after jcs cfg worlds store 0 = store"
| "store_after jcs cfg worlds store (Suc n) = pa_file (watchPass jcs cfg (worlds n) (store_after jcs cfg worlds store n))"

definition pass_code :: "(bytes \<Rightarrow> bytes option) \<Rightarrow> watchConfig \<Rightarrow> (nat \<Rightarrow> world) \<Rightarrow> state_file \<Rightarrow> nat \<Rightarrow> nat" where
  "pass_code jcs cfg worlds store n = pa_code (watchPass jcs cfg (worlds n) (store_after jcs cfg worlds store n))"

text \<open>The loop ends after a pass that could not do its job, or a wait that was interrupted.\<close>

definition loop_ends :: "(bytes \<Rightarrow> bytes option) \<Rightarrow> watchConfig \<Rightarrow> (nat \<Rightarrow> world) \<Rightarrow> (nat \<Rightarrow> bool) \<Rightarrow> state_file \<Rightarrow> nat \<Rightarrow> bool" where
  "loop_ends jcs cfg worlds sleeps store n \<longleftrightarrow> pass_code jcs cfg worlds store n = 2 \<or> \<not> sleeps n"

lemma loop_step:
  "watchLoop jcs cfg worlds sleeps i (store_after jcs cfg worlds store i) =
     (if pass_code jcs cfg worlds store i = 2 then Some (2, i + 1)
      else if \<not> sleeps i then Some (0, i + 1)
      else watchLoop jcs cfg worlds sleeps (i + 1) (store_after jcs cfg worlds store (i + 1)))"
  by (subst watchLoop.simps) (simp add: pass_code_def Let_def)

lemma loop_reaches:
  assumes "\<And>i. i < n \<Longrightarrow> pass_code jcs cfg worlds store i \<noteq> 2 \<and> sleeps i"
  shows "i \<le> n \<Longrightarrow> watchLoop jcs cfg worlds sleeps 0 store = watchLoop jcs cfg worlds sleeps i (store_after jcs cfg worlds store i)"
proof (induction i)
  case (Suc i)
  then have "watchLoop jcs cfg worlds sleeps 0 store = watchLoop jcs cfg worlds sleeps i (store_after jcs cfg worlds store i)" by simp
  with loop_step [of jcs cfg worlds sleeps i store] assms [of i] Suc.prems show ?case by simp
qed simp

lemma loop_returned:
  assumes "watchLoop jcs cfg worlds sleeps i (store_after jcs cfg worlds store i) = Some r"
  shows "\<exists>n. pass_code jcs cfg worlds store n = 2 \<or> \<not> sleeps n"
proof -
  let ?P = "\<lambda>jcs cfg worlds sleeps i st (r :: nat \<times> nat). st = store_after jcs cfg worlds store i \<longrightarrow>
    (\<exists>n. pass_code jcs cfg worlds store n = 2 \<or> \<not> sleeps n)"
  have "?P jcs cfg worlds sleeps i (store_after jcs cfg worlds store i) r"
  proof (rule watchLoop.raw_induct [where P = ?P, OF _ assms])
    fix loop jcs cfg worlds sleeps i st r
    assume IH: "\<And>jcs cfg worlds sleeps i st r. loop jcs cfg worlds sleeps i st = Some r \<Longrightarrow> ?P jcs cfg worlds sleeps i st r"
      and step: "(let p = watchPass jcs cfg (worlds i) st in
        if pa_code p = 2 then Some (2, i + 1) else if \<not> sleeps i then Some (0, i + 1) else loop jcs cfg worlds sleeps (i + 1) (pa_file p)) = Some r"
    show "?P jcs cfg worlds sleeps i st r"
    proof
      assume st: "st = store_after jcs cfg worlds store i"
      show "\<exists>n. pass_code jcs cfg worlds store n = 2 \<or> \<not> sleeps n"
      proof (cases "pass_code jcs cfg worlds store i = 2 \<or> \<not> sleeps i")
        case False
        with step st have "loop jcs cfg worlds sleeps (i + 1) (store_after jcs cfg worlds store (i + 1)) = Some r"
          by (simp add: Let_def pass_code_def)
        from IH [OF this] show ?thesis by blast
      qed blast
    qed
  qed
  then show ?thesis by blast
qed

text \<open>
  C33. The loop returns exactly when it should: at the first pass that exits with 2, with 2, or the
  first wait that is interrupted, with 0; passes with any other code go on, and without either of
  the two it never returns.
\<close>

theorem watchLoop_returns:
  "watchLoop jcs cfg worlds sleeps 0 store =
     (if \<exists>n. loop_ends jcs cfg worlds sleeps store n
      then let n = (LEAST n. loop_ends jcs cfg worlds sleeps store n)
        in Some (if pass_code jcs cfg worlds store n = 2 then 2 else 0, n + 1)
      else None)"
proof (cases "\<exists>n. loop_ends jcs cfg worlds sleeps store n")
  case True
  define n where "n = (LEAST n. loop_ends jcs cfg worlds sleeps store n)"
  have at: "loop_ends jcs cfg worlds sleeps store n" unfolding n_def by (rule LeastI_ex [OF True])
  have before: "pass_code jcs cfg worlds store i \<noteq> 2 \<and> sleeps i" if "i < n" for i
    using not_less_Least [OF that [unfolded n_def]] by (simp add: loop_ends_def)
  have "watchLoop jcs cfg worlds sleeps 0 store = watchLoop jcs cfg worlds sleeps n (store_after jcs cfg worlds store n)"
    by (rule loop_reaches [OF _ order_refl]) (rule before)
  also have "\<dots> = Some (if pass_code jcs cfg worlds store n = 2 then 2 else 0, n + 1)"
    using at by (subst loop_step) (auto simp: loop_ends_def)
  finally have "watchLoop jcs cfg worlds sleeps 0 store = Some (if pass_code jcs cfg worlds store n = 2 then 2 else 0, n + 1)" .
  with True show ?thesis unfolding n_def [symmetric] Let_def by simp
next
  case False
  with loop_returned [of jcs cfg worlds sleeps 0 store] show ?thesis by (cases "watchLoop jcs cfg worlds sleeps 0 store") (auto simp: loop_ends_def)
qed

end
