(* ===== verification/Watch_Keys.thy ===== *)
theory Watch_Keys
  imports Watch_Pass Jose "HOL-Library.AList"
begin

text \<open>
  cmd/agent-conform/checkpoints.go, the keys a verifier of checkpoints trusts, and the whole of the
  watch-dir mode of watchdir.go from its flags to its exit code.
\<close>

section \<open>The keys file\<close>

definition maxKeysBytes :: nat where "maxKeysBytes = 65536"

record key_members =
  km_Crv :: string
  km_Kty :: string
  km_X :: string
  km_Y :: string

definition no_key_members :: key_members where
  "no_key_members = \<lparr>km_Crv = [], km_Kty = [], km_X = [], km_Y = []\<rparr>"

definition set_key_member :: "key_members setter" where
  "set_key_member n c k =
     (if n = ''crv'' then map_option (\<lambda>s. k\<lparr>km_Crv := s\<rparr>) (set_string c (km_Crv k))
      else if n = ''kty'' then map_option (\<lambda>s. k\<lparr>km_Kty := s\<rparr>) (set_string c (km_Kty k))
      else if n = ''x'' then map_option (\<lambda>s. k\<lparr>km_X := s\<rparr>) (set_string c (km_X k))
      else if n = ''y'' then map_option (\<lambda>s. k\<lparr>km_Y := s\<rparr>) (set_string c (km_Y k))
      else Some k)"

text \<open>
  Decoding into a map of structs: every member into a fresh element, a later one of the same name
  in the place of an earlier one; null leaves the element as it is made.
\<close>

definition key_element :: "cst \<Rightarrow> key_members \<times> bool" where
  "key_element c =
     (case c of
        CNull \<Rightarrow> (no_key_members, True)
      | CObj ms \<Rightarrow> dec_struct [''crv'', ''kty'', ''x'', ''y''] set_key_member ms no_key_members
      | _ \<Rightarrow> (no_key_members, False))"

fun key_doc :: "(string \<times> key_members) list \<Rightarrow> (string \<times> cst) list \<Rightarrow> (string \<times> key_members) list \<times> bool" where
  "key_doc doc [] = (doc, True)"
| "key_doc doc ((raw, c) # ms) =
     (case key_element c of
        (k, ok) \<Rightarrow> (case key_doc (AList.update (dec_str raw) k doc) ms of (d, ok') \<Rightarrow> (d, ok \<and> ok')))"

definition rfc7638P256 :: "string \<Rightarrow> string \<Rightarrow> string" where
  "rfc7638P256 x y =
     b64 (sha256 (''{\"crv\":\"P-256\",\"kty\":\"EC\",\"x\":\"'' @ x @ ''\",\"y\":\"'' @ y @ ''\"}''))"

definition checkpoint_key :: "string \<times> key_members \<Rightarrow> (string \<times> ec_key) option" where
  "checkpoint_key entry =
     (case entry of (kid, j) \<Rightarrow>
        if km_Crv j \<noteq> ''P-256'' \<or> km_Kty j \<noteq> ''EC'' then None
        else case unb64 (km_X j) of
            None \<Rightarrow> None
          | Some x \<Rightarrow>
              if length x \<noteq> 32 then None
              else case unb64 (km_Y j) of
                  None \<Rightarrow> None
                | Some y \<Rightarrow>
                    if length y \<noteq> 32 then None
                    else case parse_uncompressed P256 ([CHR 0x04] @ x @ y) of
                        None \<Rightarrow> None
                      | Some pub \<Rightarrow> if rfc7638P256 (km_X j) (km_Y j) \<noteq> kid then None else Some (kid, pub))"

datatype keys_file = KeysOpenFails | KeysReadFails | KeysIs bytes

definition loadCheckpointKeys :: "keys_file \<Rightarrow> (string \<Rightarrow> ec_key option) option" where
  "loadCheckpointKeys f =
     (case f of
        KeysIs raw \<Rightarrow>
          if length raw > maxKeysBytes then None
          else (case parse_json raw of
              Some (CObj ms) \<Rightarrow>
                (case key_doc [] ms of
                   (doc, ok) \<Rightarrow>
                     if \<not> ok \<or> doc = [] then None else map_option map_of (those (map checkpoint_key doc)))
            | _ \<Rightarrow> None)
      | _ \<Rightarrow> None)"

text \<open>Whatever is in the file, a key that is trusted is a point of the curve, filed under the hash of its own text.\<close>

lemma those_member: "those (map f xs) = Some ys \<Longrightarrow> y \<in> set ys \<Longrightarrow> \<exists>x \<in> set xs. f x = Some y"
  by (induction xs arbitrary: ys) (auto split: option.splits)

lemma parse_uncompressed_curve: "parse_uncompressed C raw = Some k \<Longrightarrow> ek_curve k = C \<and> on_curve C (ek_point k)"
  by (auto simp: parse_uncompressed_def Let_def split: if_splits)

lemma checkpoint_key_sound:
  assumes "checkpoint_key (kid, j) = Some (kid', k)"
  shows "kid' = kid \<and> ek_curve k = P256 \<and> on_curve P256 (ek_point k) \<and> kid = rfc7638P256 (km_X j) (km_Y j)"
  using assms by (auto simp: checkpoint_key_def split: option.splits if_splits dest: parse_uncompressed_curve)

lemma trusted_keys:
  assumes "loadCheckpointKeys f = Some keys" "keys kid = Some k"
  shows "ek_curve k = P256 \<and> on_curve P256 (ek_point k) \<and> (\<exists>x y. kid = rfc7638P256 x y)"
proof -
  obtain doc es where d: "those (map checkpoint_key doc) = Some es" "keys = map_of es"
    using assms(1) by (auto simp: loadCheckpointKeys_def split: keys_file.splits if_splits option.splits cst.splits prod.splits)
  then have "(kid, k) \<in> set es" using assms(2) map_of_SomeD by fastforce
  then obtain kid0 j where "checkpoint_key (kid0, j) = Some (kid, k)" using those_member [OF d(1)] by (metis surj_pair)
  from checkpoint_key_sound [OF this] show ?thesis by blast
qed

section \<open>The flags\<close>

definition watchStateName :: string where "watchStateName = watchSource @ ''.state.json''"
definition defaultMaxLine :: int where "defaultMaxLine = 1048576"
definition libraryMaxLine :: int where "libraryMaxLine = 4194304"
definition defaultMaxFile :: int where "defaultMaxFile = 268435456"
definition minEvery :: duration where "minEvery = 10 * Second"

text \<open>What \<^verbatim>\<open>flag.FlagSet.Parse\<close> makes of the arguments: help, an error, or the flags and what follows them.\<close>

record watch_flags =
  wf_out :: string
  wf_state :: string
  wf_maxLine :: int
  wf_maxFile :: int
  wf_every :: duration
  wf_checkpoints :: string
  wf_keys :: string

definition watch_defaults :: watch_flags where
  "watch_defaults = \<lparr>wf_out = [], wf_state = [], wf_maxLine = defaultMaxLine, wf_maxFile = defaultMaxFile, wf_every = 0,
     wf_checkpoints = [], wf_keys = []\<rparr>"

datatype parsed_flags = FlagsHelp | FlagsError | FlagsParsed watch_flags "string list"

text \<open>The configuration the flags resolve to, \<open>None\<close> where the run ends with a complaint and 2.\<close>

definition resolve_paths :: "watch_flags \<Rightarrow> string \<Rightarrow> (string \<times> string) option" where
  "resolve_paths fl dir =
     (let outPath = (if wf_out fl = [] then filepath_Join dir watchOutputName else wf_out fl);
          sPath = (if wf_state fl = [] then filepath_Join (filepath_Dir outPath) watchStateName else wf_state fl)
      in if filepath_Base outPath \<noteq> watchOutputName then None
         else if suffix ''.ndjson'' sPath then None
         else Some (outPath, sPath))"

definition resolve_flags :: "(string \<Rightarrow> bool option) \<Rightarrow> (string \<Rightarrow> keys_file) \<Rightarrow> watch_flags \<Rightarrow> string list \<Rightarrow> watchConfig option" where
  "resolve_flags stat keysFile fl args =
     (case args of
        [dir] \<Rightarrow>
          if wf_maxLine fl < 1 \<or> wf_maxLine fl > libraryMaxLine then None
          else if wf_maxFile fl < 1 then None
          else if wf_every fl < 0 \<or> (wf_every fl > 0 \<and> wf_every fl < minEvery) then None
          else case resolve_paths fl dir of
              None \<Rightarrow> None
            | Some (outPath, sPath) \<Rightarrow>
                let cfg = \<lparr>wc_dir = dir, wc_outPath = outPath, wc_statePath = sPath, wc_maxLine = nat (wf_maxLine fl),
                      wc_maxFile = wf_maxFile fl, wc_every = wf_every fl, wc_ckDir = [], wc_keys = Map.empty\<rparr>
                in if wf_checkpoints fl = [] \<and> wf_keys fl = [] then Some cfg
                   else if wf_checkpoints fl = [] \<or> wf_keys fl = [] then None
                   else if stat (wf_checkpoints fl) \<noteq> Some True then None
                   else map_option (\<lambda>keys. cfg\<lparr>wc_ckDir := wf_checkpoints fl, wc_keys := keys\<rparr>) (loadCheckpointKeys (keysFile (wf_keys fl)))
      | _ \<Rightarrow> None)"

text \<open>The mode: its exit code, \<open>None\<close> for a loop that goes on.\<close>

definition runWatchDir ::
  "(bytes \<Rightarrow> bytes option) \<Rightarrow> (string \<Rightarrow> bool option) \<Rightarrow> (string \<Rightarrow> keys_file) \<Rightarrow> (nat \<Rightarrow> world) \<Rightarrow> (nat \<Rightarrow> bool) \<Rightarrow> state_file \<Rightarrow>
     parsed_flags \<Rightarrow> nat option" where
  "runWatchDir jcs stat keysFile worlds sleeps store parsed =
     (case parsed of
        FlagsHelp \<Rightarrow> Some 0
      | FlagsError \<Rightarrow> Some 2
      | FlagsParsed fl args \<Rightarrow>
          (case resolve_flags stat keysFile fl args of
             None \<Rightarrow> Some 2
           | Some cfg \<Rightarrow>
               if wc_every cfg > 0 then map_option fst (watchLoop jcs cfg worlds sleeps 0 store)
               else Some (pa_code (watchPass jcs cfg (worlds 0) store))))"

text \<open>A configuration that is run never writes to a stream of another name nor keeps its state in a stream.\<close>

lemma resolved:
  assumes "resolve_flags stat keysFile fl args = Some cfg"
  shows "filepath_Base (wc_outPath cfg) = watchOutputName \<and> \<not> suffix ''.ndjson'' (wc_statePath cfg) \<and>
    1 \<le> wc_maxLine cfg \<and> int (wc_maxLine cfg) \<le> libraryMaxLine \<and> 1 \<le> wc_maxFile cfg \<and>
    (wc_every cfg = 0 \<or> minEvery \<le> wc_every cfg) \<and> (wc_ckDir cfg = [] \<longleftrightarrow> wf_checkpoints fl = [])"
  using assms by (auto simp: resolve_flags_def resolve_paths_def Let_def split: list.splits if_splits option.splits prod.splits)

end
