(* ===== verification/Conform.thy ===== *)
theory Conform
  imports Watch_Keys Record_Chain
begin

text \<open>
  cmd/agent-conform/main.go: the conformance check of one file and the command line around it. The
  JSON Schema library is third party: what it makes of a text and what a compiled schema says of the
  result are arguments.
\<close>

section \<open>Schemas\<close>

record 'i compiledSchemas =
  cs_passport :: "'i \<Rightarrow> bool"
  cs_passportV10 :: "'i \<Rightarrow> bool"
  cs_eventV01 :: "'i \<Rightarrow> bool"
  cs_eventV02 :: "'i \<Rightarrow> bool"
  cs_eventV03 :: "'i \<Rightarrow> bool"
  cs_eventV10 :: "'i \<Rightarrow> bool"

text \<open>\<open>decode\<close> is \<^verbatim>\<open>jsonschema.UnmarshalJSON\<close>.\<close>

definition conforms :: "(bytes \<Rightarrow> 'i option) \<Rightarrow> ('i \<Rightarrow> bool) \<Rightarrow> bytes \<Rightarrow> bool" where
  "conforms decode schema raw = (case decode raw of None \<Rightarrow> False | Some inst \<Rightarrow> if schema inst then True else False)"

definition set_schema :: "string setter" where
  "set_schema n c s = set_string c s"

definition schema_field :: "bytes \<Rightarrow> string option" where
  "schema_field raw = json_struct [''schema''] set_schema raw []"

definition passportSchemaName :: "bytes \<Rightarrow> string option" where
  "passportSchemaName raw =
     (case schema_field raw of
        None \<Rightarrow> None
      | Some s \<Rightarrow> if prefix ''taipanbox.dev/agent-passport/'' s then Some s else None)"

section \<open>The three checks of a stream\<close>

definition event_schema :: "'i compiledSchemas \<Rightarrow> string \<Rightarrow> ('i \<Rightarrow> bool) option" where
  "event_schema schemas s =
     (if s = ''taipanbox.dev/agent-event/v0.1'' then Some (cs_eventV01 schemas)
      else if s = ''taipanbox.dev/agent-event/v0.2'' then Some (cs_eventV02 schemas)
      else if s = ''taipanbox.dev/agent-event/v0.3'' then Some (cs_eventV03 schemas)
      else if s = ''taipanbox.dev/agent-event/v1.0'' then Some (cs_eventV10 schemas)
      else None)"

text \<open>One turn of the loop: the lines seen and whether all conformed.\<close>

definition event_step :: "(bytes \<Rightarrow> 'i option) \<Rightarrow> 'i compiledSchemas \<Rightarrow> bytes \<Rightarrow> nat \<times> bool \<Rightarrow> nat \<times> bool" where
  "event_step decode schemas tok st =
     (case st of (lineNo, allOK) \<Rightarrow>
        let line = TrimSpace tok in
        if line = [] then (lineNo + 1, allOK)
        else case schema_field line of
            None \<Rightarrow> (lineNo + 1, False)
          | Some s \<Rightarrow>
              (case event_schema schemas s of
                 None \<Rightarrow> (lineNo + 1, False)
               | Some schema \<Rightarrow> (lineNo + 1, if \<not> conforms decode schema line then False else allOK)))"

definition checkEventStream :: "(bytes \<Rightarrow> 'i option) \<Rightarrow> 'i compiledSchemas \<Rightarrow> bytes \<Rightarrow> bool" where
  "checkEventStream decode schemas raw =
     (case scan_tokens maxLine raw of
        (ts, long) \<Rightarrow>
          (case fold (event_step decode schemas) ts (0, True) of
             (lineNo, allOK) \<Rightarrow> if long then False else if lineNo = 0 then False else allOK))"

definition checkChain :: "(bytes \<Rightarrow> bytes option) \<Rightarrow> bytes \<Rightarrow> bool" where
  "checkChain jcs raw =
     (case VerifyChain jcs raw False of
        (report, Some err) \<Rightarrow> False
      | (report, None) \<Rightarrow> if \<not> cr_Ok report then False else True)"

record delegation_scan =
  ds_allOK :: bool
  ds_events :: nat
  ds_withChain :: nat
  ds_deepest :: nat

definition delegation_step :: "bytes \<Rightarrow> delegation_scan \<Rightarrow> delegation_scan" where
  "delegation_step tok st =
     (let line = TrimSpace tok in
      if line = [] then st
      else case Unmarshal line of
          Inl err \<Rightarrow> st
        | Inr e \<Rightarrow>
            let st = st\<lparr>ds_events := ds_events st + 1\<rparr> in
            if ev_OnBehalfOf e = [] then st
            else
              let st = st\<lparr>ds_withChain := ds_withChain st + 1,
                    ds_deepest := (if length (ev_OnBehalfOf e) > ds_deepest st then length (ev_OnBehalfOf e) else ds_deepest st)\<rparr>
              in case chain_Validate (ev_OnBehalfOf e) of
                   Some err \<Rightarrow> st\<lparr>ds_allOK := False\<rparr>
                 | None \<Rightarrow> st)"

definition checkDelegation :: "bytes \<Rightarrow> bool" where
  "checkDelegation raw =
     (case scan_tokens maxLine raw of
        (ts, long) \<Rightarrow>
          let st = fold delegation_step ts \<lparr>ds_allOK = True, ds_events = 0, ds_withChain = 0, ds_deepest = 0\<rparr> in
          if long then False
          else if ds_events st = 0 then ds_allOK st
          else if \<not> ds_allOK st then False
          else True)"

section \<open>One file and the command line\<close>

definition checkFile :: "(bytes \<Rightarrow> bytes option) \<Rightarrow> (bytes \<Rightarrow> 'i option) \<Rightarrow> 'i compiledSchemas \<Rightarrow> bytes option \<Rightarrow> bool \<Rightarrow> bool" where
  "checkFile jcs decode schemas content chain =
     (case content of
        None \<Rightarrow> False
      | Some raw \<Rightarrow>
          let trimmed = TrimSpace raw in
          if trimmed = [] then False
          else case passportSchemaName trimmed of
              Some s \<Rightarrow>
                if s = ''taipanbox.dev/agent-passport/v0.1'' then conforms decode (cs_passport schemas) trimmed
                else if s = ''taipanbox.dev/agent-passport/v1.0'' then conforms decode (cs_passportV10 schemas) trimmed
                else False
            | None \<Rightarrow>
                let ok = checkEventStream decode schemas trimmed in
                if chain then checkDelegation trimmed \<and> checkChain jcs trimmed \<and> ok else ok)"

text \<open>What the arguments ask for.\<close>

datatype conform_mode = ModeWatch "string list" | ModePrint | ModeUsage | ModeCheck bool "string list"

fun mode_of :: "bool \<Rightarrow> string list \<Rightarrow> conform_mode" where
  "mode_of chain [] = ModeUsage"
| "mode_of chain (a # args) =
     (if a = ''-chain'' then mode_of True args
      else if a = ''watch-dir'' then ModeWatch args
      else if a \<in> {''-version'', ''--version'', ''version''} then ModePrint
      else if a \<in> {''-h'', ''-help'', ''--help''} then ModePrint
      else ModeCheck chain (a # args))"

text \<open>
  The exit code. \<open>schemas\<close> is what \<^verbatim>\<open>loadSchemas\<close> compiled, \<open>None\<close> where it failed; \<open>files\<close>
  what reading a path gives; \<open>watch\<close> the other mode.
\<close>

definition conform_main ::
  "(bytes \<Rightarrow> bytes option) \<Rightarrow> (bytes \<Rightarrow> 'i option) \<Rightarrow> 'i compiledSchemas option \<Rightarrow> (string \<Rightarrow> bytes option) \<Rightarrow>
     (string list \<Rightarrow> nat option) \<Rightarrow> string list \<Rightarrow> nat option" where
  "conform_main jcs decode schemas files watch args =
     (case mode_of False args of
        ModeWatch rest \<Rightarrow> watch rest
      | ModePrint \<Rightarrow> Some 0
      | ModeUsage \<Rightarrow> Some 2
      | ModeCheck chain paths \<Rightarrow>
          (case schemas of
             None \<Rightarrow> Some 2
           | Some ss \<Rightarrow>
               let allOK = fold (\<lambda>path ok. if \<not> checkFile jcs decode ss (files path) chain then False else ok) paths True
               in Some (if \<not> allOK then 1 else 0)))"

section \<open>What conformance is\<close>

text \<open>Line by line: blank, or an event of a known version that its own schema accepts.\<close>

definition line_conforms :: "(bytes \<Rightarrow> 'i option) \<Rightarrow> 'i compiledSchemas \<Rightarrow> bytes \<Rightarrow> bool" where
  "line_conforms decode schemas tok \<longleftrightarrow>
     (if TrimSpace tok = [] then True
      else \<exists>s schema inst. schema_field (TrimSpace tok) = Some s \<and> event_schema schemas s = Some schema \<and>
        decode (TrimSpace tok) = Some inst \<and> schema inst)"

text \<open>An event that can be read names a chain of SPEC 5.1.\<close>

definition line_delegates :: "bytes \<Rightarrow> bool" where
  "line_delegates tok \<longleftrightarrow> (case Unmarshal (TrimSpace tok) of Inl err \<Rightarrow> True | Inr e \<Rightarrow> TrimSpace tok = [] \<or> wf_chain (ev_OnBehalfOf e))"

lemma event_run:
  "fold (event_step decode schemas) ts (n, b) = (n + length ts, b \<and> list_all (line_conforms decode schemas) ts)"
proof (induction ts arbitrary: n b)
  case (Cons t ts)
  have "event_step decode schemas t (n, b) = (n + 1, b \<and> line_conforms decode schemas t)"
    by (auto simp: event_step_def line_conforms_def conforms_def Let_def split: option.split)
  with Cons show ?case by simp
qed simp

lemma wf_empty: "wf_chain []"
  by (simp add: wf_chain_def)

lemma delegation_run:
  "ds_allOK (fold delegation_step ts st) = (ds_allOK st \<and> list_all line_delegates ts)"
proof (induction ts arbitrary: st)
  case (Cons t ts)
  have "ds_allOK (delegation_step t st) = (ds_allOK st \<and> line_delegates t)"
    by (auto simp: delegation_step_def line_delegates_def Let_def Validate_iff_wf [symmetric] wf_empty [unfolded Validate_iff_wf [symmetric]]
        split: sum.split option.split)
  with Cons show ?case by simp
qed simp

lemma scan_nonempty: "scan_tokens cap t = (ts, False) \<Longrightarrow> t \<noteq> [] \<Longrightarrow> ts \<noteq> []"
  by (cases t) (auto simp: scan_tokens_def split: if_splits list.splits prod.splits)

lemma stream_conforms:
  assumes "t \<noteq> []" "scan_tokens maxLine t = (ts, long)"
  shows "checkEventStream decode schemas t \<longleftrightarrow> \<not> long \<and> list_all (line_conforms decode schemas) ts"
    and "checkDelegation t \<longleftrightarrow> \<not> long \<and> list_all line_delegates ts"
    and "checkChain jcs t \<longleftrightarrow> \<not> long \<and> cr_Ok (fst (verifyChain jcs t False))"
proof -
  show "checkEventStream decode schemas t \<longleftrightarrow> \<not> long \<and> list_all (line_conforms decode schemas) ts"
    using assms scan_nonempty [of maxLine t ts] by (auto simp: checkEventStream_def event_run)
  show "checkDelegation t \<longleftrightarrow> \<not> long \<and> list_all line_delegates ts"
    by (auto simp: checkDelegation_def assms(2) delegation_run Let_def)
  show "checkChain jcs t \<longleftrightarrow> \<not> long \<and> cr_Ok (fst (verifyChain jcs t False))"
    by (simp add: checkChain_def VerifyChain_def verifyChain_def assms(2) Let_def)
qed

text \<open>
  C29. A file passes exactly when it conforms: a passport of a version the tool carries that its
  schema accepts; or a stream no line of which is too long, every line blank or an event of a
  known version that its own schema accepts - and with \<open>-chain\<close> also no line follows a line that
  was altered, and every event that can be read names a delegation chain of SPEC 5.1. An empty file,
  one that cannot be read and one of an unknown version pass under no flag.
\<close>

theorem conformance_iff:
  "checkFile jcs decode schemas content chain \<longleftrightarrow>
   (\<exists>raw t. content = Some raw \<and> t = TrimSpace raw \<and> t \<noteq> [] \<and>
     (case passportSchemaName t of
        Some s \<Rightarrow> \<exists>inst. decode t = Some inst \<and>
          (s = ''taipanbox.dev/agent-passport/v0.1'' \<and> cs_passport schemas inst \<or>
           s = ''taipanbox.dev/agent-passport/v1.0'' \<and> cs_passportV10 schemas inst)
      | None \<Rightarrow> \<exists>ts. scan_tokens maxLine t = (ts, False) \<and> list_all (line_conforms decode schemas) ts \<and>
          (if chain then cr_Ok (fst (verifyChain jcs t False)) \<and> list_all line_delegates ts else True)))"
proof (cases content)
  case None
  then show ?thesis by (simp add: checkFile_def)
next
  case (Some raw)
  let ?t = "TrimSpace raw"
  obtain ts long where ts: "scan_tokens maxLine ?t = (ts, long)" by fastforce
  show ?thesis
  proof (cases "?t = []")
    case True
    with Some show ?thesis by (simp add: checkFile_def)
  next
    case False
    note sc = stream_conforms(1) [OF False ts, of decode schemas] stream_conforms(2) [OF False ts] stream_conforms(3) [OF False ts, of jcs]
    show ?thesis
    proof (cases "passportSchemaName ?t")
      case None
      then show ?thesis using Some False ts by (auto simp: checkFile_def sc Let_def)
    next
      case (Some s)
      then show ?thesis using \<open>content = Some raw\<close> False by (auto simp: checkFile_def conforms_def Let_def split: option.split)
    qed
  qed
qed

text \<open>And the exit code says so of all of them.\<close>

lemma all_files: "fold (\<lambda>path ok. if \<not> f path then False else ok) paths b = (b \<and> list_all f paths)"
  by (induction paths arbitrary: b) auto

lemma conform_exit:
  "mode_of False args = ModeCheck chain paths \<Longrightarrow>
   conform_main jcs decode (Some ss) files watch args = Some (if list_all (\<lambda>p. checkFile jcs decode ss (files p) chain) paths then 0 else 1)"
  by (simp add: conform_main_def all_files)

end
