(* ===== verification/Json_Slices.thy ===== *)
theory Json_Slices
  imports Json_Struct
begin

text \<open>
  \<^verbatim>\<open>json.Unmarshal\<close> into a slice of structs and into a map of strings, for any struct.
  A slice is decoded over the elements its array already has, as when a key is repeated: what a
  member does not mention keeps what an earlier element of the same index held.
\<close>

definition struct_element :: "string list \<Rightarrow> 'r setter \<Rightarrow> cst \<Rightarrow> 'r \<Rightarrow> 'r option" where
  "struct_element names put c r =
     (case c of
        CNull \<Rightarrow> Some r
      | CObj ms \<Rightarrow> (case dec_struct names put ms r of (r', ok) \<Rightarrow> if ok then Some r' else None)
      | _ \<Rightarrow> None)"

fun fill_slots :: "(cst \<Rightarrow> 'r \<Rightarrow> 'r option) \<Rightarrow> 'r \<Rightarrow> 'r list \<Rightarrow> nat \<Rightarrow> cst list \<Rightarrow> 'r list option" where
  "fill_slots element zero slots i [] = Some slots"
| "fill_slots element zero slots i (c # cs) =
     (case element c (if i < length slots then slots ! i else zero) of
        None \<Rightarrow> None
      | Some r \<Rightarrow> fill_slots element zero (if i < length slots then slots[i := r] else slots @ [r]) (Suc i) cs)"

text \<open>The array behind the slice and the slice's length.\<close>

definition set_slice :: "(cst \<Rightarrow> 'r \<Rightarrow> 'r option) \<Rightarrow> 'r \<Rightarrow> cst \<Rightarrow> 'r list \<Rightarrow> ('r list \<times> nat) option" where
  "set_slice element zero c slots =
     (case c of
        CNull \<Rightarrow> Some ([], 0)
      | CArr cs \<Rightarrow> if cs = [] then Some ([], 0) else map_option (\<lambda>b. (b, length cs)) (fill_slots element zero slots 0 cs)
      | _ \<Rightarrow> None)"

text \<open>A map is filled into what is there; null empties it.\<close>

fun fill_string_map :: "(string \<times> string) list \<Rightarrow> (string \<times> cst) list \<Rightarrow> (string \<times> string) list option" where
  "fill_string_map m [] = Some m"
| "fill_string_map m ((raw, c) # ms) =
     (case set_string c [] of None \<Rightarrow> None | Some s \<Rightarrow> fill_string_map (m_put m (dec_str raw) s) ms)"

definition set_string_map :: "cst \<Rightarrow> (string \<times> string) list \<Rightarrow> (string \<times> string) list option" where
  "set_string_map c m = (case c of CNull \<Rightarrow> Some [] | CObj ms \<Rightarrow> fill_string_map m ms | _ \<Rightarrow> None)"

end
