(* ===== verification/Snapshot_Wire.thy ===== *)
theory Snapshot_Wire
  imports Json_Slices Revocations
begin

text \<open>
  delegation/revocations.go, the list off the wire: \<^verbatim>\<open>ParseSnapshot\<close> and \<^verbatim>\<open>Fetch\<close>. The
  answer of the HTTP client is its status and its body, \<open>None\<close> where there is no answer or reading the
  body fails.
\<close>

section \<open>Parsing\<close>

definition zero_revocation :: Revocation where
  "zero_revocation = \<lparr>rev_JTI = [], rev_Subject = [], rev_IssuedBefore = 0, rev_Expires = 0\<rparr>"

definition set_revocation :: "Revocation setter" where
  "set_revocation n c r =
     (if n = ''jti'' then map_option (\<lambda>s. r\<lparr>rev_JTI := s\<rparr>) (set_string c (rev_JTI r))
      else if n = ''subject'' then map_option (\<lambda>s. r\<lparr>rev_Subject := s\<rparr>) (set_string c (rev_Subject r))
      else if n = ''issued_before'' then map_option (\<lambda>i. r\<lparr>rev_IssuedBefore := i\<rparr>) (set_int c (rev_IssuedBefore r))
      else map_option (\<lambda>i. r\<lparr>rev_Expires := i\<rparr>) (set_int c (rev_Expires r)))"

definition revocation_element :: "cst \<Rightarrow> Revocation \<Rightarrow> Revocation option" where
  "revocation_element = struct_element [''jti'', ''subject'', ''issued_before'', ''expires''] set_revocation"

definition set_snapshot :: "(Snapshot \<times> Revocation list) setter" where
  "set_snapshot n c st =
     (case st of (s, slots) \<Rightarrow>
        if n = ''revocations'' then
          map_option (\<lambda>(b, k). (s\<lparr>snap_Revocations := take k b\<rparr>, b)) (set_slice revocation_element zero_revocation c slots)
        else map_option (\<lambda>i. (s\<lparr>snap_AsOf := i\<rparr>, slots)) (set_int c (snap_AsOf s)))"

text \<open>The member of a map of raw values: the last of exactly this name.\<close>

definition raw_member :: "string \<Rightarrow> (string \<times> cst) list \<Rightarrow> cst option" where
  "raw_member n ms = map_of (rev (map (\<lambda>(k, c). (dec_str k, c)) ms)) n"

definition looksLikeJSONObject :: "cst \<Rightarrow> bool" where
  "looksLikeJSONObject c \<longleftrightarrow> (case c of CObj ms \<Rightarrow> True | _ \<Rightarrow> False)"

datatype parse_error = SnapNotJSON | SnapNotObject | SnapNotArray | SnapNoList | SnapBadEntry | SnapBadShape

definition ParseSnapshot :: "bytes \<Rightarrow> parse_error + Snapshot" where
  "ParseSnapshot raw =
     (case parse_json raw of
        None \<Rightarrow> Inl SnapNotJSON
      | Some doc \<Rightarrow>
          if dec_any doc = None then Inl SnapNotJSON
          else case doc of
              CObj ms \<Rightarrow>
                (case raw_member ''revocations'' ms of
                   None \<Rightarrow> Inl SnapNoList
                 | Some CNull \<Rightarrow> Inl SnapNoList
                 | Some (CArr entries) \<Rightarrow>
                     if \<not> list_all looksLikeJSONObject entries then Inl SnapBadEntry
                     else (case json_struct [''revocations'', ''as_of''] set_snapshot raw (\<lparr>snap_Revocations = [], snap_AsOf = 0\<rparr>, []) of
                         None \<Rightarrow> Inl SnapBadShape
                       | Some (s, slots) \<Rightarrow> Inr s)
                 | _ \<Rightarrow> Inl SnapNotArray)
            | _ \<Rightarrow> Inl SnapNotObject)"

section \<open>Fetching\<close>

definition Fetch :: "(string \<Rightarrow> (int \<times> bytes option) option) \<Rightarrow> string \<Rightarrow> Snapshot option" where
  "Fetch get url =
     (case get url of
        None \<Rightarrow> None
      | Some (status, body) \<Rightarrow>
          if status \<noteq> 200 then None
          else case body of
              None \<Rightarrow> None
            | Some bs \<Rightarrow>
                if length bs > MaxSnapshotBytes then None
                else (case ParseSnapshot bs of Inl err \<Rightarrow> None | Inr s \<Rightarrow> Some s))"

text \<open>A list that is taken came whole, and its document holds a list of objects under the exact name.\<close>

lemma Fetch_taken:
  assumes "Fetch get url = Some s"
  shows "\<exists>bs ms entries. get url = Some (200, Some bs) \<and> length bs \<le> MaxSnapshotBytes \<and> parse_json bs = Some (CObj ms) \<and>
    raw_member ''revocations'' ms = Some (CArr entries) \<and> list_all looksLikeJSONObject entries"
  using assms
  by (auto simp: Fetch_def ParseSnapshot_def split: option.splits prod.splits if_splits sum.splits cst.splits)

text \<open>
  The name is compared exactly where the list is checked and without regard to case where it is
  read. A second member in another case replaces the list that was checked, even by null: the
  body passes and nothing is revoked.
\<close>

lemma one_decodes: "dec_any (CNum ''1'') \<noteq> None"
proof -
  have parts: "literal_parts ''1'' = (False, 1, 0)" "is_number ''1''" by code_simp+
  have "f64_round 1 1 \<noteq> None"
    by (simp add: f64_round_def scale_down_def bit_len.simps round_half_even_def Let_def)
  then show ?thesis by (auto simp: float_canon_def f64_parse_def parts scale_down_def)
qed

lemma checked_and_replaced:
  "ParseSnapshot ''{\"as_of\":1,\"revocations\":[{\"jti\":\"a\"}],\"Revocations\":null}'' =
     Inr \<lparr>snap_Revocations = [], snap_AsOf = 1\<rparr>"
proof -
  let ?body = "''{\"as_of\":1,\"revocations\":[{\"jti\":\"a\"}],\"Revocations\":null}''"
  let ?ms = "[(''as_of'', CNum ''1''), (''revocations'', CArr [CObj [(''jti'', CStr ''a'')]]), (''Revocations'', CNull)]"
  have p: "parse_json ?body = Some (CObj ?ms)" by code_simp
  have d: "dec_struct [''revocations'', ''as_of''] set_snapshot ?ms (\<lparr>snap_Revocations = [], snap_AsOf = 0\<rparr>, []) =
      ((\<lparr>snap_Revocations = [], snap_AsOf = 1\<rparr>, []), True)" by code_simp
  have r: "raw_member ''revocations'' ?ms = Some (CArr [CObj [(''jti'', CStr ''a'')]])" by code_simp
  obtain z where "float_canon ''1'' = Some z" using one_decodes by auto
  then have "dec_any (CObj ?ms) \<noteq> None" by simp
  moreover have "json_struct [''revocations'', ''as_of''] set_snapshot ?body (\<lparr>snap_Revocations = [], snap_AsOf = 0\<rparr>, []) =
      Some (\<lparr>snap_Revocations = [], snap_AsOf = 1\<rparr>, [])"
    unfolding json_struct_defs p option.case cst.case d by simp
  moreover have "list_all looksLikeJSONObject [CObj [(''jti'', CStr ''a'')]]" by (simp add: looksLikeJSONObject_def)
  ultimately show ?thesis unfolding ParseSnapshot_def p option.case cst.case r by (simp only: if_False if_True option.case prod.case simp_thms)
qed

end
