(* ===== verification/Passport.thy ===== *)
theory Passport
  imports Json_Slices Record_Chain
begin

text \<open>
  Package \<^verbatim>\<open>passport\<close> (passport/passport.go): the identifiers of agents and users, and the
  Passport document with \<^verbatim>\<open>Parse\<close>. A map is held in the order of its keys; a nil map and
  an empty one are not told apart.
\<close>

section \<open>Identifiers\<close>

definition maxURIBytes :: nat where "maxURIBytes = 255"

definition lower_digit :: "char \<Rightarrow> bool" where
  "lower_digit c \<longleftrightarrow> (97 \<le> (of_char c :: nat) \<and> (of_char c :: nat) \<le> 122) \<or> (48 \<le> (of_char c :: nat) \<and> (of_char c :: nat) \<le> 57)"

definition domain_char :: "char \<Rightarrow> bool" where
  "domain_char c \<longleftrightarrow> lower_digit c \<or> c = CHR ''.'' \<or> c = CHR ''-''"

definition path_char :: "char \<Rightarrow> bool" where
  "path_char c \<longleftrightarrow> lower_digit c \<or> c = CHR ''.'' \<or> c = CHR ''_'' \<or> c = CHR ''/'' \<or> c = CHR ''-''"

text \<open>Matching scheme://[a-z0-9.-]+/[a-z0-9._/-]+ from end to end.\<close>

definition uri_matches :: "string \<Rightarrow> string \<Rightarrow> bool" where
  "uri_matches scheme s \<longleftrightarrow>
     prefix scheme s \<and>
     (let rest = drop (length scheme) s; d = takeWhile domain_char rest; q = dropWhile domain_char rest
      in d \<noteq> [] \<and> (case q of [] \<Rightarrow> False | c # p \<Rightarrow> c = CHR ''/'' \<and> p \<noteq> [] \<and> list_all path_char p))"

definition agentURIPattern :: "string \<Rightarrow> bool" where "agentURIPattern s = uri_matches ''agent://'' s"
definition userURIPattern :: "string \<Rightarrow> bool" where "userURIPattern s = uri_matches ''user://'' s"

datatype passport_error =
    Passport_ErrInvalidJSON | Passport_ErrUnsupportedSchema | Passport_ErrUnknownField "string list"
  | Passport_ErrMissingID | Passport_ErrMissingOwner | Passport_ErrInvalidURI

definition validateURI :: "string \<Rightarrow> (string \<Rightarrow> bool) \<Rightarrow> passport_error option" where
  "validateURI s pattern =
     (if length s > maxURIBytes then Some Passport_ErrInvalidURI
      else if \<not> pattern s then Some Passport_ErrInvalidURI
      else None)"

definition ValidateAgentURI :: "string \<Rightarrow> passport_error option" where
  "ValidateAgentURI s = validateURI s agentURIPattern"

definition ValidateUserURI :: "string \<Rightarrow> passport_error option" where
  "ValidateUserURI s = validateURI s userURIPattern"

definition ClaimedPrefix :: string where "ClaimedPrefix = ''claimed:''"

definition IsClaimedSubject :: "string \<Rightarrow> bool" where
  "IsClaimedSubject s \<longleftrightarrow> prefix ClaimedPrefix s"

text \<open>\<^verbatim>\<open>strings.CutPrefix\<close>.\<close>

definition CutPrefix :: "string \<Rightarrow> string \<Rightarrow> string \<times> bool" where
  "CutPrefix s p = (if prefix p s then (drop (length p) s, True) else (s, False))"

definition ValidateSubject :: "string \<Rightarrow> passport_error option" where
  "ValidateSubject s = (case CutPrefix s ClaimedPrefix of (inner, ok) \<Rightarrow> if ok then ValidateAgentURI inner else ValidateAgentURI s)"

definition ClaimedInner :: "string \<Rightarrow> string \<times> bool" where
  "ClaimedInner s = CutPrefix s ClaimedPrefix"

section \<open>The document\<close>

definition passport_SchemaV01 :: string where "passport_SchemaV01 = ''taipanbox.dev/agent-passport/v0.1''"
definition passport_SchemaV10 :: string where "passport_SchemaV10 = ''taipanbox.dev/agent-passport/v1.0''"

definition AcceptedSchemas :: "string list" where
  "AcceptedSchemas = [passport_SchemaV01, passport_SchemaV10]"

record Attestation =
  at_Method :: string
  at_Detail :: string

record FsScope =
  fs_Path :: string
  fs_Mode :: string

record Model =
  mo_Provider :: string
  mo_Model :: string
  mo_Endpoint :: string

record Passport =
  ps_Schema :: string
  ps_ID :: string
  ps_Owner :: string
  ps_DisplayName :: string
  ps_Runtime :: string
  ps_Parent :: string
  ps_Attestation :: "Attestation option"
  ps_Filesystem :: "FsScope list"
  ps_Models :: "Model list"
  ps_Labels :: "(string \<times> string) list"
  ps_CreatedAt :: string

definition zero_passport :: Passport where
  "zero_passport = \<lparr>ps_Schema = [], ps_ID = [], ps_Owner = [], ps_DisplayName = [], ps_Runtime = [], ps_Parent = [],
     ps_Attestation = None, ps_Filesystem = [], ps_Models = [], ps_Labels = [], ps_CreatedAt = []\<rparr>"

definition passport_names :: "string list" where
  "passport_names = [''schema'', ''id'', ''owner'', ''display_name'', ''runtime'', ''parent'', ''attestation'',
     ''filesystem'', ''models'', ''labels'', ''created_at'']"

definition set_attestation :: "Attestation setter" where
  "set_attestation n c a =
     (if n = ''method'' then map_option (\<lambda>s. a\<lparr>at_Method := s\<rparr>) (set_string c (at_Method a))
      else map_option (\<lambda>s. a\<lparr>at_Detail := s\<rparr>) (set_string c (at_Detail a)))"

definition set_scope :: "FsScope setter" where
  "set_scope n c f =
     (if n = ''path'' then map_option (\<lambda>s. f\<lparr>fs_Path := s\<rparr>) (set_string c (fs_Path f))
      else map_option (\<lambda>s. f\<lparr>fs_Mode := s\<rparr>) (set_string c (fs_Mode f)))"

definition set_model :: "Model setter" where
  "set_model n c m =
     (if n = ''provider'' then map_option (\<lambda>s. m\<lparr>mo_Provider := s\<rparr>) (set_string c (mo_Provider m))
      else if n = ''model'' then map_option (\<lambda>s. m\<lparr>mo_Model := s\<rparr>) (set_string c (mo_Model m))
      else map_option (\<lambda>s. m\<lparr>mo_Endpoint := s\<rparr>) (set_string c (mo_Endpoint m)))"

text \<open>A pointer: null clears it, an object fills what it points to, made when there is nothing.\<close>

definition set_attestation_ptr :: "cst \<Rightarrow> Attestation option \<Rightarrow> Attestation option option" where
  "set_attestation_ptr c p =
     (if c = CNull then Some None
      else map_option Some
        (struct_element [''method'', ''detail''] set_attestation c (case p of None \<Rightarrow> \<lparr>at_Method = [], at_Detail = []\<rparr> | Some a \<Rightarrow> a)))"

definition scope_element :: "cst \<Rightarrow> FsScope \<Rightarrow> FsScope option" where
  "scope_element = struct_element [''path'', ''mode''] set_scope"

definition model_element :: "cst \<Rightarrow> Model \<Rightarrow> Model option" where
  "model_element = struct_element [''provider'', ''model'', ''endpoint''] set_model"

definition set_passport :: "(Passport \<times> FsScope list \<times> Model list) setter" where
  "set_passport n c st =
     (case st of (p, fs, ms) \<Rightarrow>
        if n = ''schema'' then map_option (\<lambda>s. (p\<lparr>ps_Schema := s\<rparr>, fs, ms)) (set_string c (ps_Schema p))
        else if n = ''id'' then map_option (\<lambda>s. (p\<lparr>ps_ID := s\<rparr>, fs, ms)) (set_string c (ps_ID p))
        else if n = ''owner'' then map_option (\<lambda>s. (p\<lparr>ps_Owner := s\<rparr>, fs, ms)) (set_string c (ps_Owner p))
        else if n = ''display_name'' then map_option (\<lambda>s. (p\<lparr>ps_DisplayName := s\<rparr>, fs, ms)) (set_string c (ps_DisplayName p))
        else if n = ''runtime'' then map_option (\<lambda>s. (p\<lparr>ps_Runtime := s\<rparr>, fs, ms)) (set_string c (ps_Runtime p))
        else if n = ''parent'' then map_option (\<lambda>s. (p\<lparr>ps_Parent := s\<rparr>, fs, ms)) (set_string c (ps_Parent p))
        else if n = ''attestation'' then map_option (\<lambda>a. (p\<lparr>ps_Attestation := a\<rparr>, fs, ms)) (set_attestation_ptr c (ps_Attestation p))
        else if n = ''filesystem'' then
          map_option (\<lambda>(b, k). (p\<lparr>ps_Filesystem := take k b\<rparr>, b, ms)) (set_slice scope_element \<lparr>fs_Path = [], fs_Mode = []\<rparr> c fs)
        else if n = ''models'' then
          map_option (\<lambda>(b, k). (p\<lparr>ps_Models := take k b\<rparr>, fs, b)) (set_slice model_element \<lparr>mo_Provider = [], mo_Model = [], mo_Endpoint = []\<rparr> c ms)
        else if n = ''labels'' then map_option (\<lambda>m. (p\<lparr>ps_Labels := m\<rparr>, fs, ms)) (set_string_map c (ps_Labels p))
        else map_option (\<lambda>s. (p\<lparr>ps_CreatedAt := s\<rparr>, fs, ms)) (set_string c (ps_CreatedAt p)))"

definition json_passport :: "bytes \<Rightarrow> Passport option" where
  "json_passport data = map_option fst (json_struct passport_names set_passport data (zero_passport, [], []))"

section \<open>Parse\<close>

text \<open>The names of the top level, decoded into a map of raw values; null gives an empty one.\<close>

definition top_level_keys :: "bytes \<Rightarrow> string list option" where
  "top_level_keys data =
     (case parse_json data of
        Some CNull \<Rightarrow> Some []
      | Some (CObj ms) \<Rightarrow> Some (remdups (map (dec_str \<circ> fst) ms))
      | _ \<Rightarrow> None)"

definition knownTopLevelKeys :: "string \<Rightarrow> bool" where
  "knownTopLevelKeys k \<longleftrightarrow> k \<in> set passport_names"

definition refuseUnknownTopLevelKeys :: "bytes \<Rightarrow> passport_error option" where
  "refuseUnknownTopLevelKeys data =
     (case top_level_keys data of
        None \<Rightarrow> Some Passport_ErrInvalidJSON
      | Some raw \<Rightarrow>
          let unk = filter (\<lambda>k. \<not> knownTopLevelKeys k) raw in
          if unk = [] then None else Some (Passport_ErrUnknownField (sort unk)))"

definition passport_Parse :: "bytes \<Rightarrow> passport_error + Passport" where
  "passport_Parse data =
     (case json_passport data of
        None \<Rightarrow> Inl Passport_ErrInvalidJSON
      | Some p \<Rightarrow>
          (case (if ps_Schema p = passport_SchemaV01 then None
                 else if ps_Schema p = passport_SchemaV10 then refuseUnknownTopLevelKeys data
                 else Some Passport_ErrUnsupportedSchema) of
             Some err \<Rightarrow> Inl err
           | None \<Rightarrow>
               if ps_ID p = [] then Inl Passport_ErrMissingID
               else if ps_Owner p = [] then Inl Passport_ErrMissingOwner
               else case ValidateAgentURI (ps_ID p) of Some err \<Rightarrow> Inl err | None \<Rightarrow> Inr p))"

section \<open>What an identifier is\<close>

text \<open>The grammar of SPEC 3.1: a trust domain and a path, at most 255 bytes in all.\<close>

definition uri_of :: "string \<Rightarrow> string \<Rightarrow> bool" where
  "uri_of scheme s \<longleftrightarrow> length s \<le> maxURIBytes \<and>
     (\<exists>d p. s = scheme @ d @ ''/'' @ p \<and> d \<noteq> [] \<and> list_all domain_char d \<and> p \<noteq> [] \<and> list_all path_char p)"

lemma slash_not_domain: "\<not> domain_char CHR ''/''"
  by (simp add: domain_char_def lower_digit_def)

lemma uri_matches_iff:
  "uri_matches scheme s \<longleftrightarrow> (\<exists>d p. s = scheme @ d @ ''/'' @ p \<and> d \<noteq> [] \<and> list_all domain_char d \<and> p \<noteq> [] \<and> list_all path_char p)"
proof
  assume m: "uri_matches scheme s"
  then obtain rest where r: "s = scheme @ rest" by (auto simp: uri_matches_def elim: prefixE)
  let ?d = "takeWhile domain_char rest"
  from m r obtain p where p: "dropWhile domain_char rest = CHR ''/'' # p" "?d \<noteq> []" "p \<noteq> []" "list_all path_char p"
    by (auto simp: uri_matches_def Let_def split: list.splits)
  have "rest = ?d @ ''/'' @ p" using takeWhile_dropWhile_id [of domain_char rest] p(1) by simp
  moreover have "list_all domain_char ?d" by (simp add: list_all_iff) (metis set_takeWhileD)
  ultimately show "\<exists>d p. s = scheme @ d @ ''/'' @ p \<and> d \<noteq> [] \<and> list_all domain_char d \<and> p \<noteq> [] \<and> list_all path_char p"
    using r p by blast
next
  assume "\<exists>d p. s = scheme @ d @ ''/'' @ p \<and> d \<noteq> [] \<and> list_all domain_char d \<and> p \<noteq> [] \<and> list_all path_char p"
  then obtain d p where s: "s = scheme @ d @ ''/'' @ p" "d \<noteq> []" "list_all domain_char d" "p \<noteq> []" "list_all path_char p" by blast
  have "takeWhile domain_char (d @ ''/'' @ p) = d" "dropWhile domain_char (d @ ''/'' @ p) = CHR ''/'' # p"
    using s(3) slash_not_domain by (simp_all add: list_all_iff takeWhile_append2 dropWhile_append2)
  with s show "uri_matches scheme s" by (simp add: uri_matches_def)
qed

lemma agent_uri: "ValidateAgentURI s = None \<longleftrightarrow> uri_of ''agent://'' s"
  by (auto simp: ValidateAgentURI_def validateURI_def agentURIPattern_def uri_matches_iff uri_of_def)

lemma user_uri: "ValidateUserURI s = None \<longleftrightarrow> uri_of ''user://'' s"
  by (auto simp: ValidateUserURI_def validateURI_def userURIPattern_def uri_matches_iff uri_of_def)

text \<open>An identifier of this package is an entry of the record's chain; a claimed one never is.\<close>

lemma uri_entry: "uri_of ''agent://'' s \<or> uri_of ''user://'' s \<Longrightarrow> entryPattern s"
  by (auto simp: uri_of_def entryPattern_def)

lemma claimed_no_entry: "IsClaimedSubject s \<Longrightarrow> \<not> entryPattern s"
  by (auto simp: IsClaimedSubject_def ClaimedPrefix_def entryPattern_def prefix_def)

lemma uri_not_claimed: "uri_of ''agent://'' s \<Longrightarrow> \<not> IsClaimedSubject s"
  using claimed_no_entry uri_entry by blast

lemma subject_iff:
  "ValidateSubject s = None \<longleftrightarrow> uri_of ''agent://'' s \<or> (\<exists>t. s = ClaimedPrefix @ t \<and> uri_of ''agent://'' t)"
  using uri_not_claimed [of s]
  by (auto simp: ValidateSubject_def CutPrefix_def agent_uri IsClaimedSubject_def elim: prefixE)

text \<open>
  C39. A passport is parsed exactly when it decodes into the type, names a version the package
  carries - and, under v1.0, no top-level name the schema never had, compared letter for letter -
  and has an owner and an \<^verbatim>\<open>agent://\<close> identifier of SPEC 3.1's grammar. Its identifier is then
  an entry the record's delegation chain accepts and is not a claimed subject; the same identifier
  behind the claimed marker is a subject the envelope accepts and no delegation chain does.
\<close>

theorem Parse_accepts_iff:
  "passport_Parse data = Inr p \<longleftrightarrow>
     json_passport data = Some p \<and>
     (ps_Schema p = passport_SchemaV01 \<or>
      ps_Schema p = passport_SchemaV10 \<and> (\<exists>ks. top_level_keys data = Some ks \<and> set ks \<subseteq> set passport_names)) \<and>
     ps_Owner p \<noteq> [] \<and> uri_of ''agent://'' (ps_ID p) \<and>
     chain_Validate [ps_ID p] = None \<and> \<not> IsClaimedSubject (ps_ID p) \<and>
     ValidateSubject (ClaimedPrefix @ ps_ID p) = None \<and> chain_Validate [ClaimedPrefix @ ps_ID p] = Some Chain_ErrInvalidEntry"
proof -
  have claimed: "chain_Validate [ps_ID p] = None \<and> \<not> IsClaimedSubject (ps_ID p) \<and> ValidateSubject (ClaimedPrefix @ ps_ID p) = None \<and>
      chain_Validate [ClaimedPrefix @ ps_ID p] = Some Chain_ErrInvalidEntry \<and> ps_ID p \<noteq> []" if "uri_of ''agent://'' (ps_ID p)"
  proof (intro conjI)
    show "chain_Validate [ps_ID p] = None" using uri_entry that by (simp add: chain_Validate_def chain_MaxDepth_def)
    show "\<not> IsClaimedSubject (ps_ID p)" by (rule uri_not_claimed [OF that])
    show "ValidateSubject (ClaimedPrefix @ ps_ID p) = None" using that by (auto simp: subject_iff)
    show "chain_Validate [ClaimedPrefix @ ps_ID p] = Some Chain_ErrInvalidEntry"
      using claimed_no_entry [of "ClaimedPrefix @ ps_ID p"] by (simp add: chain_Validate_def chain_MaxDepth_def IsClaimedSubject_def)
    show "ps_ID p \<noteq> []" using that by (auto simp: uri_of_def)
  qed
  have keys: "refuseUnknownTopLevelKeys data = None \<longleftrightarrow> (\<exists>ks. top_level_keys data = Some ks \<and> set ks \<subseteq> set passport_names)"
    by (auto simp: refuseUnknownTopLevelKeys_def knownTopLevelKeys_def Let_def filter_empty_conv split: option.splits)
  show ?thesis
    unfolding passport_Parse_def
    using claimed agent_uri [of "ps_ID p"] keys
    by (auto split: option.splits if_splits)
qed

text \<open>A v1.0 document with a name that is only nearly one: it decodes, and is refused.\<close>

definition sample_passport :: "string \<Rightarrow> bytes" where
  "sample_passport owner = ''{\"schema\":\"taipanbox.dev/agent-passport/v1.0\",\"id\":\"agent://a/b\",\"'' @ owner @ ''\":\"o\"}''"

lemma sample_parsed:
  "passport_Parse (sample_passport ''owner'') =
     Inr (zero_passport\<lparr>ps_Schema := passport_SchemaV10, ps_ID := ''agent://a/b'', ps_Owner := ''o''\<rparr>)"
  "passport_Parse (sample_passport ''Owner'') = Inl (Passport_ErrUnknownField [''Owner''])"
  by code_simp+

end
