(* ===== verification/Passport_Load.thy ===== *)
theory Passport_Load
  imports Passport "HOL-Library.Multiset"
begin

text \<open>
  passport/load.go: reading a directory, a glob or a file of documents. The file system is a record
  of answers; \<open>parse\<close> and \<open>id\<close> are the type parameters' functions, so that the loader serves any
  document. Which error of the file system it was is left out.
\<close>

record load_fs =
  lf_Stat :: "string \<Rightarrow> bool option"
  lf_Glob :: "string \<Rightarrow> string list option"
  lf_Join :: "string \<Rightarrow> string"
  lf_ReadFile :: "string \<Rightarrow> bytes option"

record load_report =
  lr_Files :: nat
  lr_Malformed :: nat

definition resolveDir :: "load_fs \<Rightarrow> string \<Rightarrow> string list option" where
  "resolveDir fs dirOrGlob =
     (if lf_Stat fs dirOrGlob = Some True then lf_Glob fs (lf_Join fs dirOrGlob)
      else case lf_Glob fs dirOrGlob of
          None \<Rightarrow> None
        | Some matches \<Rightarrow> if matches = [] then Some [dirOrGlob] else Some matches)"

text \<open>The state of the loop: the report, the keys seen and the values kept.\<close>

fun load_loop :: "load_fs \<Rightarrow> (bytes \<Rightarrow> 'v option) \<Rightarrow> ('v \<Rightarrow> string) \<Rightarrow> string list \<Rightarrow> load_report \<Rightarrow> string set \<Rightarrow> 'v list \<Rightarrow>
    ('v list \<times> load_report) option" where
  "load_loop fs parse key [] rep seen out = Some (out, rep)"
| "load_loop fs parse key (path # paths) rep seen out =
     (case lf_ReadFile fs path of
        None \<Rightarrow> None
      | Some data \<Rightarrow>
          let rep = rep\<lparr>lr_Files := lr_Files rep + 1\<rparr> in
          (case parse data of
             None \<Rightarrow> load_loop fs parse key paths (rep\<lparr>lr_Malformed := lr_Malformed rep + 1\<rparr>) seen out
           | Some v \<Rightarrow>
               if key v \<in> seen then load_loop fs parse key paths rep seen out
               else load_loop fs parse key paths rep (insert (key v) seen) (out @ [v])))"

definition LoadDir :: "load_fs \<Rightarrow> (bytes \<Rightarrow> 'v option) \<Rightarrow> ('v \<Rightarrow> string) \<Rightarrow> string \<Rightarrow> ('v list \<times> load_report) option" where
  "LoadDir fs parse key dirOrGlob =
     (case resolveDir fs dirOrGlob of
        None \<Rightarrow> None
      | Some matches \<Rightarrow> load_loop fs parse key (sort matches) \<lparr>lr_Files = 0, lr_Malformed = 0\<rparr> {} [])"

section \<open>The first of each key\<close>

text \<open>The values of the files that parse, in the order of the paths.\<close>

definition parsed_files :: "load_fs \<Rightarrow> (bytes \<Rightarrow> 'v option) \<Rightarrow> string list \<Rightarrow> 'v list" where
  "parsed_files fs parse paths = List.map_filter (\<lambda>path. Option.bind (lf_ReadFile fs path) parse) paths"

fun first_of_each :: "('v \<Rightarrow> string) \<Rightarrow> 'v list \<Rightarrow> 'v list" where
  "first_of_each key [] = []"
| "first_of_each key (v # vs) = v # filter (\<lambda>w. key w \<noteq> key v) (first_of_each key vs)"

lemma first_distinct: "distinct (map key (first_of_each key vs))"
  by (induction vs) (auto simp: distinct_map inj_on_def)

lemma first_keys: "key ` set (first_of_each key vs) = key ` set vs"
proof (induction vs)
  case (Cons v vs)
  have "key ` set (first_of_each key (v # vs)) = insert (key v) (key ` set (first_of_each key vs))" by auto
  then show ?case by (simp add: Cons.IH)
qed simp

lemma first_found: "list_all (\<lambda>v. find (\<lambda>w. key w = key v) vs = Some v) (first_of_each key vs)"
  by (induction vs) (auto simp: list_all_iff)

lemma parsed_simps [simp]:
  "parsed_files fs parse [] = []"
  "parsed_files fs parse (path # paths) =
     (case Option.bind (lf_ReadFile fs path) parse of None \<Rightarrow> parsed_files fs parse paths | Some v \<Rightarrow> v # parsed_files fs parse paths)"
  by (simp_all add: parsed_files_def List.map_filter_simps split: option.split)

lemma load_loop_first:
  "load_loop fs parse key paths rep seen out =
     (if list_all (\<lambda>path. lf_ReadFile fs path \<noteq> None) paths
      then Some (out @ filter (\<lambda>v. key v \<notin> seen) (first_of_each key (parsed_files fs parse paths)),
        rep\<lparr>lr_Files := lr_Files rep + length paths,
          lr_Malformed := lr_Malformed rep + (length paths - length (parsed_files fs parse paths))\<rparr>)
      else None)"
proof (induction paths arbitrary: rep seen out)
  case (Cons path paths)
  have le: "length (parsed_files fs parse paths) \<le> length paths"
    by (simp add: parsed_files_def List.map_filter_def)
  show ?case
  proof (cases "lf_ReadFile fs path")
    case (Some data)
    have fl: "filter (\<lambda>w. key w \<notin> seen) (filter (\<lambda>w. key w \<noteq> key v) ws) = filter (\<lambda>w. key w \<notin> insert (key v) seen) ws" for v ws
      by (induction ws) auto
    have in_seen: "filter (\<lambda>w. key w \<noteq> key v \<and> key w \<notin> seen) ws = filter (\<lambda>w. key w \<notin> seen) ws" if "key v \<in> seen" for v ws
      using that by (induction ws) auto
    show ?thesis
      using Some le by (cases "parse data") (auto simp: Cons.IH Let_def fl in_seen)
  qed simp
qed (simp add: Let_def)

text \<open>
  C40. Loading a batch: the paths in order, every file read or the whole call fails, a document
  that does not parse counted and left out; of the rest the first of each key and no other, so no
  key twice and none lost, whatever order the directory gave.
\<close>

theorem LoadDir_first:
  "LoadDir fs parse key dirOrGlob =
     (case resolveDir fs dirOrGlob of
        None \<Rightarrow> None
      | Some matches \<Rightarrow>
          let vs = parsed_files fs parse (sort matches); out = first_of_each key vs in
          if list_all (\<lambda>path. lf_ReadFile fs path \<noteq> None) matches
          then Some (out, \<lparr>lr_Files = length matches, lr_Malformed = length matches - length vs\<rparr>)
          else None) \<and>
   distinct (map key (first_of_each key vs)) \<and> key ` set (first_of_each key vs) = key ` set vs \<and>
   list_all (\<lambda>v. find (\<lambda>w. key w = key v) vs = Some v) (first_of_each key vs)"
proof -
  have "list_all P (sort ms) = list_all P ms" for P :: "string \<Rightarrow> bool" and ms by (simp add: list_all_iff)
  then show ?thesis
    by (auto simp: LoadDir_def load_loop_first Let_def first_distinct first_keys first_found split: option.split)
qed

text \<open>The result does not depend on the order of the directory.\<close>

lemma sorted_paths: "mset ms = mset ns \<Longrightarrow> sort ms = sort (ns :: string list)"
  by (metis mset_sort properties_for_sort sorted_sort)

end
