(* ===== verification/Keyclient.thy ===== *)
theory Keyclient
  imports Json_Slices Passport Jose
begin

text \<open>
  Package \<^verbatim>\<open>keyclient\<close> (keyclient/client.go): one consumer of the key custody service. The
  credential file, what \<^verbatim>\<open>url.Parse\<close> makes of the base URL and what custody answers to a
  request are records of answers.
\<close>

section \<open>Names\<close>

definition name_char :: "char \<Rightarrow> bool" where
  "name_char c \<longleftrightarrow> lower_digit c \<or> c = CHR ''.'' \<or> c = CHR ''_'' \<or> c = CHR ''-''"

text \<open>[a-z0-9][a-z0-9._-]{0,63}, from end to end.\<close>

definition nameRe :: "string \<Rightarrow> bool" where
  "nameRe s \<longleftrightarrow> (case s of [] \<Rightarrow> False | c # cs \<Rightarrow> lower_digit c \<and> length cs \<le> 63 \<and> list_all name_char cs)"

definition purposeRe :: "string \<Rightarrow> bool" where
  "purposeRe s \<longleftrightarrow> nameRe s"

definition maxResponse :: nat where "maxResponse = 262144"

section \<open>Standard base64, with padding\<close>

definition std_char :: "char \<Rightarrow> char" where
  "std_char c = (if c = CHR ''-'' then CHR ''+'' else if c = CHR ''_'' then CHR ''/'' else c)"

definition b64std :: "bytes \<Rightarrow> string" where
  "b64std xs = map std_char (b64 xs) @ replicate ((3 - length xs mod 3) mod 3) CHR ''=''"

definition url_char :: "char \<Rightarrow> char option" where
  "url_char c = (if c = CHR ''+'' then Some CHR ''-'' else if c = CHR ''/'' then Some CHR ''_''
     else if c = CHR ''-'' \<or> c = CHR ''_'' then None else Some c)"

definition unb64std :: "string \<Rightarrow> bytes option" where
  "unb64std s =
     (let t = filter (\<lambda>c. c \<noteq> CHR 0x0A \<and> c \<noteq> CHR 0x0D) s;
          pads = (if suffix ''=='' t then 2 else if suffix ''='' t then 1 else 0)
      in if length t mod 4 \<noteq> 0 then None
         else case those (map url_char (take (length t - pads) t)) of None \<Rightarrow> None | Some u \<Rightarrow> b64_decode True u)"

section \<open>The client\<close>

record Credential =
  cr_Socket :: string
  cr_BearerFile :: string

record Config =
  cf_BaseURL :: string
  cf_Consumer :: string
  cf_Credential :: Credential

datatype key_error = KeyOther | KeyStatus string int | ErrNoValidKey

record Client =
  cl_base :: string
  cl_consumer :: string
  cl_cred :: Credential

record origin =
  or_Scheme :: string
  or_Host :: string
  or_Path :: string
  or_RawQuery :: string

definition good_origin :: "origin \<Rightarrow> bool" where
  "good_origin u \<longleftrightarrow> (or_Scheme u = ''http'' \<or> or_Scheme u = ''https'') \<and> or_Host u \<noteq> [] \<and>
     (or_Path u = [] \<or> or_Path u = ''/'') \<and> or_RawQuery u = []"

definition TrimRight_slash :: "string \<Rightarrow> string" where
  "TrimRight_slash s = rev (dropWhile (\<lambda>c. c = CHR ''/'') (rev s))"

definition New :: "(string \<Rightarrow> origin option) \<Rightarrow> Config \<Rightarrow> Client option" where
  "New parse cfg =
     (if \<not> nameRe (cf_Consumer cfg) then None
      else case parse (cf_BaseURL cfg) of
          None \<Rightarrow> None
        | Some u \<Rightarrow>
            let socket = cr_Socket (cf_Credential cfg); bearerFile = cr_BearerFile (cf_Credential cfg) in
            if \<not> good_origin u then None
            else if socket \<noteq> [] \<and> bearerFile \<noteq> [] then None
            else if socket = [] \<and> bearerFile = [] then None
            else if socket \<noteq> [] \<and> hd socket \<noteq> CHR ''/'' then None
            else Some \<lparr>cl_base = TrimRight_slash (cf_BaseURL cfg), cl_consumer = cf_Consumer cfg, cl_cred = cf_Credential cfg\<rparr>)"

section \<open>One call\<close>

record http_request =
  hr_Method :: string
  hr_URL :: string
  hr_Header :: "(string \<times> string) list"
  hr_Body :: "bytes option"

text \<open>An answer: its status, and its body unless reading it fails.\<close>

record http_answer =
  ha_StatusCode :: int
  ha_Body :: "bytes option"

record custody =
  cu_ReadFile :: "string \<Rightarrow> bytes option"
  cu_NewRequest :: "string \<Rightarrow> bool"
  cu_Do :: "http_request \<Rightarrow> http_answer option"

definition bearer :: "custody \<Rightarrow> Client \<Rightarrow> string option" where
  "bearer cu c =
     (case cu_ReadFile cu (cr_BearerFile (cl_cred c)) of
        None \<Rightarrow> None
      | Some b \<Rightarrow>
          let tok = TrimSpace b in
          if tok = [] \<or> list_ex (\<lambda>ch. ch \<in> {CHR '' '', CHR 0x09, CHR 0x0D, CHR 0x0A}) tok then None else Some tok)"

text \<open>The headers, \<open>None\<close> where the credential file does not give one.\<close>

definition request_header :: "custody \<Rightarrow> Client \<Rightarrow> bytes option \<Rightarrow> (string \<times> string) list option" where
  "request_header cu c body =
     (let h = [(''Accept'', ''application/json'')] @ (if body \<noteq> None then [(''Content-Type'', ''application/json'')] else [])
      in if cr_BearerFile (cl_cred c) \<noteq> [] then map_option (\<lambda>tok. h @ [(''Authorization'', ''Bearer '' @ tok)]) (bearer cu c)
         else Some h)"

definition client_do :: "custody \<Rightarrow> Client \<Rightarrow> string \<Rightarrow> string \<Rightarrow> bytes option \<Rightarrow> (bytes \<Rightarrow> 'a option) \<Rightarrow> key_error + 'a" where
  "client_do cu c method route body decode =
     (if \<not> cu_NewRequest cu (cl_base c @ route) then Inl KeyOther
      else case request_header cu c body of
          None \<Rightarrow> Inl KeyOther
        | Some h \<Rightarrow>
            (case cu_Do cu \<lparr>hr_Method = method, hr_URL = cl_base c @ route, hr_Header = h, hr_Body = body\<rparr> of
               None \<Rightarrow> Inl KeyOther
             | Some resp \<Rightarrow>
                 (case ha_Body resp of
                    None \<Rightarrow> Inl KeyOther
                  | Some raw \<Rightarrow>
                      if length raw > maxResponse then Inl KeyOther
                      else if ha_StatusCode resp \<noteq> 200 then Inl (KeyStatus route (ha_StatusCode resp))
                      else case decode raw of None \<Rightarrow> Inl KeyOther | Some out \<Rightarrow> Inr out)))"

section \<open>A held key\<close>

record Signature =
  sg_Alg :: string
  sg_Kid :: string
  sg_Sig :: bytes

definition set_signature :: "(string \<times> string \<times> string) setter" where
  "set_signature n c st =
     (case st of (alg, kid, sig) \<Rightarrow>
        if n = ''alg'' then map_option (\<lambda>s. (s, kid, sig)) (set_string c alg)
        else if n = ''kid'' then map_option (\<lambda>s. (alg, s, sig)) (set_string c kid)
        else map_option (\<lambda>s. (alg, kid, s)) (set_string c sig))"

definition sign_body :: "bytes \<Rightarrow> string \<Rightarrow> bytes" where
  "sign_body msg purpose =
     print_json (CObj [(''statement_b64'', CStr (enc_str (b64std msg))), (''purpose'', CStr (enc_str purpose))])"

definition Client_Sign :: "custody \<Rightarrow> Client \<Rightarrow> string \<Rightarrow> bytes \<Rightarrow> string \<Rightarrow> key_error + Signature" where
  "Client_Sign cu c name msg purpose =
     (if \<not> nameRe name \<or> \<not> purposeRe purpose \<or> msg = [] then Inl KeyOther
      else case client_do cu c ''POST'' (''/v1/keys/'' @ name @ ''/sign'') (Some (sign_body msg purpose))
          (\<lambda>raw. json_struct [''alg'', ''kid'', ''signature_b64''] set_signature raw ([], [], [])) of
          Inl err \<Rightarrow> Inl err
        | Inr (alg, kid, sig64) \<Rightarrow>
            (case unb64std sig64 of
               None \<Rightarrow> Inl KeyOther
             | Some sig \<Rightarrow>
                 if alg = [] \<or> kid = [] \<or> sig = [] then Inl KeyOther else Inr \<lparr>sg_Alg = alg, sg_Kid = kid, sg_Sig = sig\<rparr>))"

text \<open>What custody is sent: the credential only with the consumer's own key, and only to the base.\<close>

lemma request_header_auth:
  "request_header cu c body = Some h \<Longrightarrow> map_of h ''Authorization'' = Some v \<Longrightarrow>
     cr_BearerFile (cl_cred c) \<noteq> [] \<and> (\<exists>tok. bearer cu c = Some tok \<and> v = ''Bearer '' @ tok)"
  by (auto simp: request_header_def Let_def split: if_splits)

lemma nameRe_safe: "nameRe s \<Longrightarrow> s \<noteq> [] \<and> CHR ''/'' \<notin> set s \<and> CHR 0x00 \<notin> set s"
  by (auto simp: nameRe_def name_char_def lower_digit_def list_all_iff split: list.splits)

end
