(* ===== verification/Key_Set.thy ===== *)
theory Key_Set
  imports Keyclient Jose_Sign Clock
begin

text \<open>
  keyclient/jwks.go: the key set a name publishes, polled and cached. A set is installed whole or
  not at all; a verifier that reads the cache never finds a key it could not use.
\<close>

section \<open>The cache\<close>

record JWKS =
  jk_name :: string
  jk_set :: jwk_set
  jk_byKid :: "string \<Rightarrow> JWK option"
  jk_fetched :: gtime

definition zero_time :: gtime where "zero_time = - (unixToInternal * Second)"

definition Client_JWKS :: "string \<Rightarrow> JWKS option" where
  "Client_JWKS name =
     (if \<not> nameRe name then None
      else Some \<lparr>jk_name = name, jk_set = [], jk_byKid = Map.empty, jk_fetched = zero_time\<rparr>)"

text \<open>A member held as a raw value: the last of its name.\<close>

definition set_raw :: "cst option setter" where
  "set_raw n c st = Some (Some c)"

definition jwk_list :: "cst \<Rightarrow> jwk_set option" where
  "jwk_list c = map_option (\<lambda>(b, k). take k b) (set_slice (struct_element jwk_names set_jwk) zero_JWK c [])"

text \<open>One key: its curve, its members, its coordinates, its point, its name.\<close>

definition set_curve :: "JWK \<Rightarrow> (curve \<times> nat \<times> string) option" where
  "set_curve k =
     (if jw_Crv k = ''P-256'' then Some (P256, 32, ''ES256'')
      else if jw_Crv k = ''P-384'' then Some (P384, 48, ''ES384'')
      else None)"

definition usable_key :: "go_lib \<Rightarrow> JWK \<Rightarrow> bool" where
  "usable_key lib k =
     (case set_curve k of
        None \<Rightarrow> False
      | Some (C, width, alg) \<Rightarrow>
          if jw_Kty k \<noteq> ''EC'' \<or> (jw_Use k \<noteq> [] \<and> jw_Use k \<noteq> ''sig'') \<or> (jw_Alg k \<noteq> [] \<and> jw_Alg k \<noteq> alg) then False
          else if jw_Kid k = [] then False
          else case (b64_decode True (jw_X k), b64_decode True (jw_Y k)) of
              (Some x, Some y) \<Rightarrow>
                if length x \<noteq> width \<or> length y \<noteq> width then False
                else if parse_uncompressed C (CHR 0x04 # x @ y) = None then False
                else (case Thumbprint lib k of Inl err \<Rightarrow> False | Inr thumb \<Rightarrow> thumb = jw_Kid k)
            | _ \<Rightarrow> False)"

fun check_keys :: "go_lib \<Rightarrow> jwk_set \<Rightarrow> (string \<Rightarrow> JWK option) \<Rightarrow> (string \<Rightarrow> JWK option) option" where
  "check_keys lib [] byKid = Some byKid"
| "check_keys lib (k # ks) byKid =
     (if \<not> usable_key lib k then None
      else if byKid (jw_Kid k) \<noteq> None then None
      else check_keys lib ks (byKid(jw_Kid k \<mapsto> k)))"

definition checkSet :: "go_lib \<Rightarrow> jwk_set \<Rightarrow> (jwk_set \<times> (string \<Rightarrow> JWK option)) option" where
  "checkSet lib ks = map_option (\<lambda>byKid. (ks, byKid)) (check_keys lib ks Map.empty)"

definition JWKS_Refresh :: "go_lib \<Rightarrow> custody \<Rightarrow> Client \<Rightarrow> gtime \<Rightarrow> JWKS \<Rightarrow> JWKS \<times> key_error option" where
  "JWKS_Refresh lib cu c now j =
     (case client_do cu c ''GET'' (''/v1/jwks/'' @ jk_name j) None (\<lambda>raw. json_struct [''keys''] set_raw raw None) of
        Inl err \<Rightarrow> (j, Some err)
      | Inr None \<Rightarrow> (j, Some KeyOther)
      | Inr (Some doc) \<Rightarrow>
          if doc = CNull then (j, Some KeyOther)
          else case jwk_list doc of
              None \<Rightarrow> (j, Some KeyOther)
            | Some ks \<Rightarrow>
                (case checkSet lib ks of
                   None \<Rightarrow> (j, Some KeyOther)
                 | Some (set', byKid) \<Rightarrow> (j\<lparr>jk_set := set', jk_byKid := byKid, jk_fetched := now\<rparr>, None)))"

definition JWKS_Set :: "JWKS \<Rightarrow> jwk_set" where
  "JWKS_Set j = jk_set j"

definition Lookup :: "JWKS \<Rightarrow> string \<Rightarrow> deleg_error + JWK" where
  "Lookup j kid =
     (if kid = [] then Inl ErrNoKid
      else case jk_byKid j kid of None \<Rightarrow> Inl ErrUnknownKid | Some k \<Rightarrow> Inr k)"

definition JWKS_Fetched :: "JWKS \<Rightarrow> gtime" where
  "JWKS_Fetched j = jk_fetched j"

text \<open>
  The poll loop over the turns the process meets: what custody is and the time then. The result is
  the cache and the errors reported; an interval under a second is refused as the only report.
\<close>

fun poll :: "go_lib \<Rightarrow> Client \<Rightarrow> (custody \<times> gtime) list \<Rightarrow> JWKS \<Rightarrow> JWKS \<times> key_error list" where
  "poll lib c [] j = (j, [])"
| "poll lib c ((cu, now) # turns) j =
     (case JWKS_Refresh lib cu c now j of
        (j', err) \<Rightarrow> (case poll lib c turns j' of (j'', errs) \<Rightarrow> (j'', (case err of None \<Rightarrow> errs | Some e \<Rightarrow> e # errs))))"

definition JWKS_Run :: "go_lib \<Rightarrow> Client \<Rightarrow> duration \<Rightarrow> (custody \<times> gtime) list \<Rightarrow> JWKS \<Rightarrow> JWKS \<times> key_error list" where
  "JWKS_Run lib c every turns j = (if every < Second then (j, [KeyOther]) else poll lib c turns j)"

section \<open>What is cached can be used\<close>

lemma strict_decode: "b64_decode True s = Some x \<Longrightarrow> unb64 s = Some x"
proof -
  have "bytes_of_sextets True vs = Some x \<Longrightarrow> bytes_of_sextets False vs = Some x" for vs
    by (induction "True" vs arbitrary: x rule: bytes_of_sextets.induct) (auto split: if_splits)
  then show "b64_decode True s = Some x \<Longrightarrow> unb64 s = Some x"
    by (auto simp: b64_decode_def unb64_def split: option.splits)
qed

lemma coord_P384 [simp]: "coord_size P384 = 48" by (simp add: coord_size_def P384_def)

lemma usable_public:
  assumes "usable_key lib k"
  shows "\<exists>pub. ecPublic k = Some pub \<and> ek_curve pub \<in> {P256, P384} \<and> on_curve (ek_curve pub) (ek_point pub)"
proof -
  obtain C width alg where C: "set_curve k = Some (C, width, alg)" using assms by (auto simp: usable_key_def split: option.splits)
  obtain x y where xy: "b64_decode True (jw_X k) = Some x" "b64_decode True (jw_Y k) = Some y"
    using assms C by (auto simp: usable_key_def split: option.splits if_splits)
  have l: "length x = width" "length y = width" "parse_uncompressed C (CHR 0x04 # x @ y) \<noteq> None"
    using assms C xy by (auto simp: usable_key_def split: if_splits)
  have w: "width = coord_size C" "C \<in> {P256, P384}" "C = P256 \<longleftrightarrow> jw_Crv k = ''P-256''" "C = P384 \<longleftrightarrow> jw_Crv k = ''P-384''"
    using C curves_differ by (auto simp: set_curve_def split: if_splits)
  obtain pub where p: "parse_uncompressed C (CHR 0x04 # x @ y) = Some pub" using l(3) by blast
  have "ecPublic k = Some pub"
    using C xy l(1,2) p strict_decode w(1) by (auto simp: ecPublic_def set_curve_def split: if_splits)
  moreover have "ek_curve pub = C \<and> on_curve C (ek_point pub)"
    using p by (auto simp: parse_uncompressed_def Let_def split: if_splits)
  ultimately show ?thesis using w(2) by blast
qed

text \<open>The cache: the set and its index agree, every key usable and under its own thumbprint.\<close>

definition cache_ok :: "go_lib \<Rightarrow> JWKS \<Rightarrow> bool" where
  "cache_ok lib j \<longleftrightarrow> list_all (usable_key lib) (jk_set j) \<and> distinct (map jw_Kid (jk_set j)) \<and> jk_byKid j = Find (jk_set j)"

lemma check_keys_sound:
  "check_keys lib ks m = Some m' \<Longrightarrow>
     list_all (usable_key lib) ks \<and> distinct (map jw_Kid ks) \<and> (\<forall>k \<in> set ks. m (jw_Kid k) = None) \<and>
     m' = (\<lambda>kid. case Find ks kid of Some k \<Rightarrow> Some k | None \<Rightarrow> m kid)"
proof (induction ks arbitrary: m)
  case (Cons k ks)
  have u: "usable_key lib k" "m (jw_Kid k) = None" "check_keys lib ks (m(jw_Kid k \<mapsto> k)) = Some m'"
    using Cons.prems by (auto split: if_splits)
  note IH = Cons.IH [OF u(3)]
  have kid: "jw_Kid k \<noteq> []" using u(1) by (auto simp: usable_key_def split: option.splits if_splits)
  have fresh: "jw_Kid k \<notin> jw_Kid ` set ks" using IH by auto
  have none: "Find ks (jw_Kid k) = None"
    using fresh by (induction ks) auto
  have "m' = (\<lambda>kid'. case Find (k # ks) kid' of Some k \<Rightarrow> Some k | None \<Rightarrow> m kid')"
    using IH none kid by (auto simp: fun_eq_iff split: option.split)
  moreover have "\<forall>k' \<in> set (k # ks). m (jw_Kid k') = None" using IH u(2) by (auto split: if_splits)
  ultimately show ?case using u(1) IH fresh by simp
qed (auto simp: fun_eq_iff)

lemma refresh_cache:
  assumes "cache_ok lib j"
  shows "cache_ok lib (fst (JWKS_Refresh lib cu c now j))"
    and "snd (JWKS_Refresh lib cu c now j) \<noteq> None \<Longrightarrow> fst (JWKS_Refresh lib cu c now j) = j"
proof -
  have "cache_ok lib (j\<lparr>jk_set := ks, jk_byKid := m, jk_fetched := now\<rparr>)" if "check_keys lib ks Map.empty = Some m" for ks m
    using check_keys_sound [OF that] by (auto simp: cache_ok_def fun_eq_iff split: option.split)
  with assms show "cache_ok lib (fst (JWKS_Refresh lib cu c now j))"
    by (auto simp: JWKS_Refresh_def checkSet_def split: sum.split option.split)
  show "snd (JWKS_Refresh lib cu c now j) \<noteq> None \<Longrightarrow> fst (JWKS_Refresh lib cu c now j) = j"
    by (auto simp: JWKS_Refresh_def split: sum.splits option.splits prod.splits if_splits)
qed

lemma poll_cache: "cache_ok lib j \<Longrightarrow> cache_ok lib (fst (poll lib c turns j))"
proof (induction lib c turns j rule: poll.induct)
  case (2 lib c cu now turns j)
  obtain j' err where r: "JWKS_Refresh lib cu c now j = (j', err)" by fastforce
  from refresh_cache(1) [OF "2.prems", of cu c now] r have "cache_ok lib j'" by simp
  from "2.IH" [OF r [symmetric] this] show ?case by (simp add: r case_prod_beta)
qed simp

lemma fresh_cache: "Client_JWKS name = Some j \<Longrightarrow> cache_ok lib j"
  by (auto simp: Client_JWKS_def cache_ok_def fun_eq_iff split: if_splits)

section \<open>The cache as a source of keys\<close>

lemma Find_member: "Find ks kid = Some k \<Longrightarrow> k \<in> set ks"
  by (induction ks) (auto split: if_splits)

text \<open>
  What a verifier relies on when it takes its keys from a source that changes behind it: a lookup is
  the verifier's own search of the set handed out, no key id is ambiguous, and every key can be
  computed with. What the package's cache promises is this contract.
\<close>

locale key_source =
  fixes keys :: "'s \<Rightarrow> jwk_set"
    and lookup :: "'s \<Rightarrow> string \<Rightarrow> deleg_error + JWK"
    and good :: "'s \<Rightarrow> bool"
  assumes lookup_find: "good s \<Longrightarrow>
      lookup s kid = (if kid = [] then Inl ErrNoKid else case Find (keys s) kid of None \<Rightarrow> Inl ErrUnknownKid | Some k \<Rightarrow> Inr k)"
    and kids_distinct: "good s \<Longrightarrow> distinct (map jw_Kid (keys s))"
    and keys_usable: "good s \<Longrightarrow> k \<in> set (keys s) \<Longrightarrow> \<exists>pub. ecPublic k = Some pub \<and> on_curve (ek_curve pub) (ek_point pub)"
begin

lemma looked_up: "good s \<Longrightarrow> lookup s kid = Inr k \<Longrightarrow> Find (keys s) kid = Some k"
  by (auto simp: lookup_find split: if_splits option.splits)

text \<open>A token the set verifies is one the key under its kid verifies, and that key can be computed with.\<close>

lemma token_by_lookup:
  assumes "good s" "VerifyToken token (keys s) = Inr claims"
  shows "\<exists>kid k alg h p sg. split_at CHR ''.'' token = [h, p, sg] \<and> lookup s kid = Inr k \<and> verify_parts k alg h p sg = Inr claims \<and>
    (\<exists>pub. ecPublic k = Some pub \<and> on_curve (ek_curve pub) (ek_point pub))"
proof -
  obtain h p sg raw alg kid k where t: "split_at CHR ''.'' token = [h, p, sg]" "unb64 h = Some raw"
    "json_struct [''alg'', ''kid''] set_alg_kid raw ([], []) = Some (alg, kid)" "kid \<noteq> []" "Find (keys s) kid = Some k" "verify_parts k alg h p sg = Inr claims"
    using assms(2) by (auto simp: VerifyToken_def split: list.splits option.splits prod.splits if_splits)
  have "k \<in> set (keys s)" by (rule Find_member [OF t(5)])
  note usable = keys_usable [OF assms(1) this]
  have "lookup s kid = Inr k" using lookup_find [OF assms(1), of kid] t(4,5) by simp
  with t(1,6) usable show ?thesis
    by (intro exI [of _ kid] exI [of _ k] exI [of _ alg] exI [of _ h] exI [of _ p] exI [of _ sg] conjI)
qed

end

interpretation cached: key_source JWKS_Set Lookup "cache_ok lib" for lib
  by unfold_locales (auto simp: cache_ok_def JWKS_Set_def Lookup_def list_all_iff dest: usable_public)


definition sample_client :: Client where
  "sample_client = \<lparr>cl_base = ''http://k'', cl_consumer = ''c'', cl_cred = \<lparr>cr_Socket = ''/s'', cr_BearerFile = []\<rparr>\<rparr>"

definition answering :: "bytes \<Rightarrow> custody" where
  "answering body = \<lparr>cu_ReadFile = (\<lambda>p. None), cu_NewRequest = (\<lambda>u. True), cu_Do = (\<lambda>r. Some \<lparr>ha_StatusCode = 200, ha_Body = Some body\<rparr>)\<rparr>"

definition sample_cache :: JWKS where
  "sample_cache = \<lparr>jk_name = ''n'', jk_set = [], jk_byKid = Map.empty, jk_fetched = 7\<rparr>"

lemma sample_poll:
  "JWKS_Run lib sample_client Second [(answering ''{\"keys\":[]}'', 7)] \<lparr>jk_name = ''n'', jk_set = [], jk_byKid = Map.empty, jk_fetched = zero_time\<rparr> =
     (sample_cache, [])"
proof -
  have "client_do (answering ''{\"keys\":[]}'') sample_client ''GET'' ''/v1/jwks/n'' None (\<lambda>raw. json_struct [''keys''] set_raw raw None) = Inr (Some (CArr []))"
  proof -
    have "json_struct [''keys''] set_raw ''{\"keys\":[]}'' None = Some (Some (CArr []))" by code_simp
    then show ?thesis by (simp add: client_do_def answering_def request_header_def sample_client_def maxResponse_def)
  qed
  then show ?thesis
    by (simp add: JWKS_Run_def JWKS_Refresh_def jwk_list_def set_slice_def checkSet_def sample_cache_def)
qed


end
