(* ===== verification/Key_Delegated.thy ===== *)
theory Key_Delegated
  imports Key_Set
begin

text \<open>
  keyclient/delegated.go: keys this process makes and custody certifies for a while. The process
  signs on its own, but only inside the life of a statement; it asks for the next key at half the
  life of the newest. Making a key and signing a digest are arguments. A statement is held as the
  document it is, not as the bytes it came in.
\<close>

section \<open>State\<close>

definition Hour :: duration where "Hour = 60 * Minute"
definition minLifetime :: duration where "minLifetime = 10 * Minute"
definition maxLifetime :: duration where "maxLifetime = 7 * 24 * Hour"
definition defaultRetry :: duration where "defaultRetry = 5 * Minute"

record Key =
  ky_Kid :: string
  ky_JWK :: JWK
  ky_Statement :: cst
  ky_NotBefore :: gtime
  ky_NotAfter :: gtime

record certified =
  ce_key :: Key
  ce_priv :: ec_private
  ce_notBefore :: gtime
  ce_notAfter :: gtime

record Delegated =
  de_name :: string
  de_alg :: string
  de_lifetime :: duration
  de_retry :: duration
  de_keys :: "certified list"
  de_nextTry :: gtime

definition Client_Delegated :: "string \<Rightarrow> string \<Rightarrow> duration \<Rightarrow> Delegated option" where
  "Client_Delegated name alg lifetime =
     (if \<not> nameRe name then None
      else if alg \<noteq> ''ES256'' \<and> alg \<noteq> ''ES384'' then None
      else if lifetime < minLifetime \<or> lifetime > maxLifetime \<or> lifetime mod Second \<noteq> 0 then None
      else Some \<lparr>de_name = name, de_alg = alg, de_lifetime = lifetime, de_retry = defaultRetry, de_keys = [], de_nextTry = zero_time\<rparr>)"

text \<open>\<^verbatim>\<open>Duration\<close> division by two goes towards zero.\<close>

definition halfLife :: "certified \<Rightarrow> gtime" where
  "halfLife c = (let d = time_Sub (ce_notAfter c) (ce_notBefore c) in ce_notBefore c + (if d \<ge> 0 then d div 2 else - ((- d) div 2)))"

section \<open>Which key\<close>

definition newestLocked :: "Delegated \<Rightarrow> certified option" where
  "newestLocked d =
     fold (\<lambda>c newest. case newest of None \<Rightarrow> Some c | Some b \<Rightarrow> if ce_notBefore c > ce_notBefore b then Some c else newest) (de_keys d) None"

definition valid_step :: "gtime \<Rightarrow> certified \<Rightarrow> certified option \<Rightarrow> certified option" where
  "valid_step now c best =
     (if now < ce_notBefore c \<or> \<not> now < ce_notAfter c then best
      else case best of None \<Rightarrow> Some c | Some b \<Rightarrow> if ce_notBefore c > ce_notBefore b then Some c else best)"

definition validLocked :: "Delegated \<Rightarrow> gtime \<Rightarrow> certified option" where
  "validLocked d now = fold (valid_step now) (de_keys d) None"

definition dueLocked :: "Delegated \<Rightarrow> gtime \<Rightarrow> bool" where
  "dueLocked d now =
     (if now < de_nextTry d then False
      else case newestLocked d of None \<Rightarrow> True | Some newest \<Rightarrow> \<not> now < halfLife newest)"

definition nextDueLocked :: "Delegated \<Rightarrow> gtime \<Rightarrow> gtime" where
  "nextDueLocked d now =
     (if now < de_nextTry d then de_nextTry d
      else case newestLocked d of None \<Rightarrow> now | Some newest \<Rightarrow> halfLife newest)"

definition Current :: "Delegated \<Rightarrow> gtime \<Rightarrow> key_error + Key" where
  "Current d now = (case validLocked d now of None \<Rightarrow> Inl ErrNoValidKey | Some k \<Rightarrow> Inr (ce_key k))"

section \<open>Signing\<close>

definition curveFor :: "string \<Rightarrow> curve" where
  "curveFor alg = (if alg = ''ES384'' then P384 else P256)"

definition key_digestFor :: "string \<Rightarrow> bytes \<Rightarrow> bytes" where
  "key_digestFor alg b = (if alg = ''ES384'' then sha384 b else sha256 b)"

definition ecSign :: "ec_private \<Rightarrow> bytes \<Rightarrow> bytes option" where
  "ecSign priv hashed =
     (case sk_Sign priv hashed of
        None \<Rightarrow> None
      | Some (r, s) \<Rightarrow> let width = coord_size (sk_Curve priv) in Some (int_be width r @ int_be width s))"

definition Delegated_Sign :: "Delegated \<Rightarrow> gtime \<Rightarrow> bytes \<Rightarrow> key_error + Signature" where
  "Delegated_Sign d now msg =
     (case validLocked d now of
        None \<Rightarrow> Inl ErrNoValidKey
      | Some k \<Rightarrow>
          (case ecSign (ce_priv k) (key_digestFor (de_alg d) msg) of
             None \<Rightarrow> Inl KeyOther
           | Some sig \<Rightarrow> Inr \<lparr>sg_Alg = de_alg d, sg_Kid = ky_Kid (ce_key k), sg_Sig = sig\<rparr>))"

section \<open>The statement\<close>

definition proofInput :: "string \<Rightarrow> string \<Rightarrow> string \<Rightarrow> string \<Rightarrow> bytes" where
  "proofInput name consumer kid challenge =
     ''keyryx/delegate/v1'' @ [CHR 0x00] @ name @ [CHR 0x00] @ consumer @ [CHR 0x00] @ kid @ [CHR 0x00] @ challenge"

definition set_envelope :: "(string \<times> nat) setter" where
  "set_envelope n c st =
     (case st of (payload, sigs) \<Rightarrow>
        if n = ''payload'' then map_option (\<lambda>s. (s, sigs)) (set_string c payload)
        else (case c of CNull \<Rightarrow> Some (payload, 0) | CArr cs \<Rightarrow> Some (payload, length cs) | _ \<Rightarrow> None))"

record statement_claims =
  sc_V :: int
  sc_Iss :: string
  sc_Name :: string
  sc_Owner :: string
  sc_Kid :: string
  sc_JWK :: JWK
  sc_NotBefore :: int
  sc_NotAfter :: int

definition no_claims :: statement_claims where
  "no_claims = \<lparr>sc_V = 0, sc_Iss = [], sc_Name = [], sc_Owner = [], sc_Kid = [], sc_JWK = zero_JWK, sc_NotBefore = 0, sc_NotAfter = 0\<rparr>"

definition claim_names :: "string list" where
  "claim_names = [''v'', ''iss'', ''name'', ''owner'', ''kid'', ''jwk'', ''not_before'', ''not_after'']"

definition set_claim :: "statement_claims setter" where
  "set_claim n c s =
     (if n = ''v'' then map_option (\<lambda>i. s\<lparr>sc_V := i\<rparr>) (set_int c (sc_V s))
      else if n = ''iss'' then map_option (\<lambda>x. s\<lparr>sc_Iss := x\<rparr>) (set_string c (sc_Iss s))
      else if n = ''name'' then map_option (\<lambda>x. s\<lparr>sc_Name := x\<rparr>) (set_string c (sc_Name s))
      else if n = ''owner'' then map_option (\<lambda>x. s\<lparr>sc_Owner := x\<rparr>) (set_string c (sc_Owner s))
      else if n = ''kid'' then map_option (\<lambda>x. s\<lparr>sc_Kid := x\<rparr>) (set_string c (sc_Kid s))
      else if n = ''jwk'' then map_option (\<lambda>j. s\<lparr>sc_JWK := j\<rparr>) (struct_element jwk_names set_jwk c (sc_JWK s))
      else if n = ''not_before'' then map_option (\<lambda>i. s\<lparr>sc_NotBefore := i\<rparr>) (set_int c (sc_NotBefore s))
      else map_option (\<lambda>i. s\<lparr>sc_NotAfter := i\<rparr>) (set_int c (sc_NotAfter s)))"

text \<open>A raw value decoded into a struct, and the claims the payload holds.\<close>

definition statement_payload :: "cst option \<Rightarrow> string option" where
  "statement_payload raw =
     (case raw of
        None \<Rightarrow> None
      | Some doc \<Rightarrow>
          (case struct_element [''payload'', ''signatures''] set_envelope doc ([], 0) of
             None \<Rightarrow> None
           | Some (payload, sigs) \<Rightarrow> if payload = [] \<or> sigs = 0 then None else Some payload))"

definition statement_of :: "cst option \<Rightarrow> statement_claims option" where
  "statement_of raw =
     (case statement_payload raw of
        None \<Rightarrow> None
      | Some payload \<Rightarrow>
          (case b64_decode True payload of None \<Rightarrow> None | Some p \<Rightarrow> json_struct claim_names set_claim p no_claims))"

definition checkStatement :: "Delegated \<Rightarrow> Client \<Rightarrow> cst option \<Rightarrow> JWK \<Rightarrow> int \<Rightarrow> int \<Rightarrow> bool" where
  "checkStatement d c raw jwk notBefore notAfter =
     (case statement_of raw of
        None \<Rightarrow> False
      | Some cl \<Rightarrow>
          if sc_V cl \<noteq> 1 \<or> sc_Iss cl \<noteq> ''keyryx'' then False
          else if sc_Name cl \<noteq> de_name d \<or> sc_Owner cl \<noteq> cl_consumer c then False
          else if sc_Kid cl \<noteq> jw_Kid jwk \<or> jw_Kid (sc_JWK cl) \<noteq> jw_Kid jwk then False
          else if jw_Kty (sc_JWK cl) \<noteq> jw_Kty jwk \<or> jw_Crv (sc_JWK cl) \<noteq> jw_Crv jwk \<or> jw_X (sc_JWK cl) \<noteq> jw_X jwk \<or>
            jw_Y (sc_JWK cl) \<noteq> jw_Y jwk \<or> jw_Alg (sc_JWK cl) \<noteq> de_alg d then False
          else if sc_NotBefore cl \<noteq> notBefore \<or> sc_NotAfter cl \<noteq> notAfter then False
          else wrap64 (notAfter - notBefore) = de_lifetime d div Second)"

section \<open>Renewal\<close>

text \<open>\<^verbatim>\<open>json.Marshal\<close> of the request, empty members of the key left out.\<close>

definition jwk_member :: "string \<Rightarrow> string \<Rightarrow> (string \<times> cst) list" where
  "jwk_member n s = (if s = [] then [] else [(n, CStr (enc_str s))])"

definition jwk_doc :: "JWK \<Rightarrow> cst" where
  "jwk_doc j = CObj ([(''kty'', CStr (enc_str (jw_Kty j)))] @ jwk_member ''crv'' (jw_Crv j) @ jwk_member ''x'' (jw_X j) @
     jwk_member ''y'' (jw_Y j) @ jwk_member ''n'' (jw_N j) @ jwk_member ''e'' (jw_E j) @ jwk_member ''kid'' (jw_Kid j) @
     jwk_member ''use'' (jw_Use j) @ jwk_member ''alg'' (jw_Alg j))"

definition delegate_body :: "JWK \<Rightarrow> string \<Rightarrow> bytes \<Rightarrow> duration \<Rightarrow> bytes" where
  "delegate_body jwk challenge proof lifetime =
     print_json (CObj [(''jwk'', jwk_doc jwk), (''challenge'', CStr (enc_str challenge)), (''proof_b64'', CStr (enc_str (b64std proof))),
       (''lifetime_s'', CNum (int_text (lifetime div Second)))])"

definition set_challenge :: "string setter" where
  "set_challenge n c s = set_string c s"

record delegate_answer =
  da_Statement :: "cst option"
  da_Kid :: string
  da_NotBefore :: int
  da_NotAfter :: int

definition set_delegate :: "delegate_answer setter" where
  "set_delegate n c a =
     (if n = ''statement'' then Some (a\<lparr>da_Statement := Some c\<rparr>)
      else if n = ''kid'' then map_option (\<lambda>s. a\<lparr>da_Kid := s\<rparr>) (set_string c (da_Kid a))
      else if n = ''not_before'' then map_option (\<lambda>i. a\<lparr>da_NotBefore := i\<rparr>) (set_int c (da_NotBefore a))
      else map_option (\<lambda>i. a\<lparr>da_NotAfter := i\<rparr>) (set_int c (da_NotAfter a)))"

definition read_delegate :: "bytes \<Rightarrow> delegate_answer option" where
  "read_delegate raw =
     json_struct [''statement'', ''kid'', ''not_before'', ''not_after''] set_delegate raw
       \<lparr>da_Statement = None, da_Kid = [], da_NotBefore = 0, da_NotAfter = 0\<rparr>"

text \<open>What one renewal meets: the key it makes, and custody.\<close>

record renewal =
  rn_Generate :: "curve \<Rightarrow> (ec_private \<times> ec_key) option"
  rn_Custody :: custody

definition offered_jwk :: "JWK \<Rightarrow> string \<Rightarrow> string \<Rightarrow> JWK" where
  "offered_jwk pub kid alg =
     zero_JWK\<lparr>jw_Kty := ''EC'', jw_Crv := jw_Crv pub, jw_X := jw_X pub, jw_Y := jw_Y pub, jw_Kid := kid, jw_Alg := alg, jw_Use := ''sig''\<rparr>"

definition certify :: "Delegated \<Rightarrow> Client \<Rightarrow> ec_private \<Rightarrow> JWK \<Rightarrow> delegate_answer \<Rightarrow> key_error + certified" where
  "certify d c priv jwk out =
     (if da_Kid out \<noteq> jw_Kid jwk then Inl KeyOther
      else case da_Statement out of
          None \<Rightarrow> Inl KeyOther
        | Some doc \<Rightarrow>
            if \<not> checkStatement d c (Some doc) jwk (da_NotBefore out) (da_NotAfter out) then Inl KeyOther
            else let nb = time_of_unix (da_NotBefore out); na = time_of_unix (da_NotAfter out) in
              Inr \<lparr>ce_key = \<lparr>ky_Kid = jw_Kid jwk, ky_JWK = jwk, ky_Statement = doc, ky_NotBefore = nb, ky_NotAfter = na\<rparr>,
                ce_priv = priv, ce_notBefore = nb, ce_notAfter = na\<rparr>)"

definition renew :: "go_lib \<Rightarrow> Delegated \<Rightarrow> Client \<Rightarrow> renewal \<Rightarrow> key_error + certified" where
  "renew lib d c rn =
     (case rn_Generate rn (curveFor (de_alg d)) of
        None \<Rightarrow> Inl KeyOther
      | Some (priv, public) \<Rightarrow>
          (case Thumbprint lib (FromPublic public []) of
             Inl err \<Rightarrow> Inl KeyOther
           | Inr kid \<Rightarrow>
               let jwk = offered_jwk (FromPublic public []) kid (de_alg d) in
               (case client_do (rn_Custody rn) c ''POST'' (''/v1/keys/'' @ de_name d @ ''/challenge'') None
                   (\<lambda>raw. json_struct [''challenge''] set_challenge raw []) of
                  Inl err \<Rightarrow> Inl err
                | Inr challenge \<Rightarrow>
                    if challenge = [] then Inl KeyOther
                    else case ecSign priv (key_digestFor (de_alg d) (proofInput (de_name d) (cl_consumer c) kid challenge)) of
                        None \<Rightarrow> Inl KeyOther
                      | Some proof \<Rightarrow>
                          (case client_do (rn_Custody rn) c ''POST'' (''/v1/keys/'' @ de_name d @ ''/delegate'')
                              (Some (delegate_body jwk challenge proof (de_lifetime d))) read_delegate of
                             Inl err \<Rightarrow> Inl err
                           | Inr out \<Rightarrow> certify d c priv jwk out))))"

text \<open>
  \<^verbatim>\<open>RenewIfDue\<close>: the clock is read when it starts and again when the answer is in. The result is
  the state, whether custody was asked, and the error.
\<close>

definition RenewIfDue :: "go_lib \<Rightarrow> Client \<Rightarrow> renewal \<Rightarrow> gtime \<Rightarrow> gtime \<Rightarrow> Delegated \<Rightarrow> Delegated \<times> bool \<times> key_error option" where
  "RenewIfDue lib c rn now later d =
     (if \<not> dueLocked d now then (d, False, None)
      else case renew lib d c rn of
          Inl err \<Rightarrow> (d\<lparr>de_nextTry := later + de_retry d\<rparr>, True, Some err)
        | Inr k \<Rightarrow> (d\<lparr>de_nextTry := zero_time, de_keys := filter (\<lambda>old. later < ce_notAfter old) (de_keys d) @ [k]\<rparr>, True, None))"

text \<open>The loop over the turns it meets: the state and the errors reported. And how long it sleeps.\<close>

fun Delegated_Run :: "go_lib \<Rightarrow> Client \<Rightarrow> (renewal \<times> gtime \<times> gtime) list \<Rightarrow> Delegated \<Rightarrow> Delegated \<times> key_error list" where
  "Delegated_Run lib c [] d = (d, [])"
| "Delegated_Run lib c ((rn, now, later) # turns) d =
     (case RenewIfDue lib c rn now later d of
        (d', asked, err) \<Rightarrow> (case Delegated_Run lib c turns d' of (d'', errs) \<Rightarrow> (d'', (case err of None \<Rightarrow> errs | Some e \<Rightarrow> e # errs))))"

definition run_wait :: "Delegated \<Rightarrow> gtime \<Rightarrow> gtime \<Rightarrow> duration" where
  "run_wait d now later = max (time_Sub (nextDueLocked d now) later) Second"

end
