(* ===== verification/Key_Sound.thy ===== *)
theory Key_Sound
  imports Key_Delegated
begin

text \<open>
  What the delegated key promises: no signature outside the life of a statement, no key lost by a
  renewal, no hammering of a custody that is down.
\<close>

section \<open>Which key is valid\<close>

definition in_life :: "gtime \<Rightarrow> certified \<Rightarrow> bool" where
  "in_life t k \<longleftrightarrow> ce_notBefore k \<le> t \<and> t < ce_notAfter k"

lemma valid_step_cases: "valid_step t c best = best \<or> valid_step t c best = Some c \<and> in_life t c"
  by (auto simp: valid_step_def in_life_def split: option.split)

lemma valid_fold: "fold (valid_step t) ks best = Some k \<Longrightarrow> best = Some k \<or> k \<in> set ks \<and> in_life t k"
proof (induction ks arbitrary: best)
  case (Cons c ks)
  then have "valid_step t c best = Some k \<or> k \<in> set ks \<and> in_life t k" by simp
  with valid_step_cases [of t c best] show ?case by auto
qed simp

lemma valid_fold_None: "fold (valid_step t) ks best = None \<longleftrightarrow> best = None \<and> list_all (\<lambda>k. \<not> in_life t k) ks"
proof (induction ks arbitrary: best)
  case (Cons c ks)
  have "valid_step t c best = None \<longleftrightarrow> best = None \<and> \<not> in_life t c"
    by (auto simp: valid_step_def in_life_def split: option.split)
  then show ?case by (auto simp: Cons.IH)
qed simp

lemma valid_member: "validLocked d t = Some k \<Longrightarrow> k \<in> set (de_keys d) \<and> in_life t k"
  using valid_fold [of t "de_keys d" None k] by (simp add: validLocked_def)

definition can_sign :: "Delegated \<Rightarrow> gtime \<Rightarrow> bool" where
  "can_sign d t \<longleftrightarrow> validLocked d t \<noteq> None"

lemma can_sign_iff: "can_sign d t \<longleftrightarrow> list_ex (in_life t) (de_keys d)"
  by (auto simp: can_sign_def validLocked_def valid_fold_None list_all_iff list_ex_iff)

section \<open>What is kept\<close>

text \<open>A key custody certified: for this name, consumer and key, with the life asked for.\<close>

definition certified_for :: "string \<Rightarrow> string \<Rightarrow> duration \<Rightarrow> string \<Rightarrow> certified \<Rightarrow> bool" where
  "certified_for name alg lifetime consumer k \<longleftrightarrow>
     (\<exists>cl. statement_of (Some (ky_Statement (ce_key k))) = Some cl \<and> sc_V cl = 1 \<and> sc_Iss cl = ''keyryx'' \<and>
        sc_Name cl = name \<and> sc_Owner cl = consumer \<and> sc_Kid cl = ky_Kid (ce_key k) \<and> jw_Alg (sc_JWK cl) = alg \<and>
        jw_Kty (sc_JWK cl) = jw_Kty (ky_JWK (ce_key k)) \<and> jw_Kid (sc_JWK cl) = ky_Kid (ce_key k) \<and>
        jw_Crv (sc_JWK cl) = jw_Crv (ky_JWK (ce_key k)) \<and> jw_X (sc_JWK cl) = jw_X (ky_JWK (ce_key k)) \<and> jw_Y (sc_JWK cl) = jw_Y (ky_JWK (ce_key k)) \<and>
        ce_notBefore k = time_of_unix (sc_NotBefore cl) \<and> ce_notAfter k = time_of_unix (sc_NotAfter cl) \<and>
        wrap64 (sc_NotAfter cl - sc_NotBefore cl) = lifetime div Second)"

lemma certify_sound:
  assumes "certify d c priv jwk out = Inr k"
  shows "certified_for (de_name d) (de_alg d) (de_lifetime d) (cl_consumer c) k"
proof -
  obtain doc where doc: "da_Statement out = Some doc" "checkStatement d c (Some doc) jwk (da_NotBefore out) (da_NotAfter out)"
    using assms by (auto simp: certify_def split: if_splits option.splits)
  have k: "ky_Statement (ce_key k) = doc" "ky_Kid (ce_key k) = jw_Kid jwk" "ky_JWK (ce_key k) = jwk"
    "ce_notBefore k = time_of_unix (da_NotBefore out)" "ce_notAfter k = time_of_unix (da_NotAfter out)"
    using assms doc by (auto simp: certify_def Let_def split: if_splits)
  from doc(2) obtain cl where cl: "statement_of (Some doc) = Some cl" by (auto simp: checkStatement_def split: option.splits)
  show ?thesis
    unfolding certified_for_def k
    by (rule exI [of _ cl]) (use doc(2) cl in \<open>auto simp: checkStatement_def split: if_splits\<close>)
qed

lemma renew_sound:
  assumes "renew lib d c rn = Inr k"
  shows "certified_for (de_name d) (de_alg d) (de_lifetime d) (cl_consumer c) k"
proof -
  obtain priv jwk out where "certify d c priv jwk out = Inr k"
    using assms by (auto simp: renew_def Let_def split: option.splits sum.splits if_splits prod.splits)
  then show ?thesis by (rule certify_sound)
qed

text \<open>A key this process made in one of its turns, offered under its own thumbprint.\<close>

definition made_in :: "go_lib \<Rightarrow> string \<Rightarrow> (renewal \<times> gtime \<times> gtime) list \<Rightarrow> certified \<Rightarrow> bool" where
  "made_in lib alg turns k \<longleftrightarrow>
     (\<exists>rn t u pub. (rn, t, u) \<in> set turns \<and> rn_Generate rn (curveFor alg) = Some (ce_priv k, pub) \<and>
        Thumbprint lib (FromPublic pub []) = Inr (ky_Kid (ce_key k)) \<and>
        ky_JWK (ce_key k) = offered_jwk (FromPublic pub []) (ky_Kid (ce_key k)) alg)"

lemma renew_made:
  assumes "renew lib d c rn = Inr k"
  shows "made_in lib (de_alg d) [(rn, t, u)] k"
proof -
  obtain priv pub kid out where r: "rn_Generate rn (curveFor (de_alg d)) = Some (priv, pub)" "Thumbprint lib (FromPublic pub []) = Inr kid"
    "certify d c priv (offered_jwk (FromPublic pub []) kid (de_alg d)) out = Inr k"
    using assms by (auto simp: renew_def Let_def split: option.splits sum.splits if_splits prod.splits)
  from r(3) have "ce_priv k = priv" "ky_Kid (ce_key k) = kid" "ky_JWK (ce_key k) = offered_jwk (FromPublic pub []) kid (de_alg d)"
    by (auto simp: certify_def offered_jwk_def Let_def split: if_splits option.splits)
  with r(1,2) show ?thesis by (auto simp: made_in_def)
qed

lemma RenewIfDue_made:
  "k \<in> set (de_keys (fst (RenewIfDue lib c rn now later d))) \<Longrightarrow> k \<in> set (de_keys d) \<or> made_in lib (de_alg d) [(rn, now, later)] k"
  by (auto simp: RenewIfDue_def renew_made split: if_splits sum.splits)

lemma RenewIfDue_alg: "de_alg (fst (RenewIfDue lib c rn now later d)) = de_alg d"
  by (auto simp: RenewIfDue_def split: sum.splits)

lemma made_in_more: "made_in lib alg [x] k \<Longrightarrow> made_in lib alg (x # turns) k" "made_in lib alg turns k \<Longrightarrow> made_in lib alg (x # turns) k"
  by (auto simp: made_in_def)

lemma run_made:
  "k \<in> set (de_keys (fst (Delegated_Run lib c turns d))) \<Longrightarrow> k \<in> set (de_keys d) \<or> made_in lib (de_alg d) turns k"
proof (induction lib c turns d rule: Delegated_Run.induct)
  case (2 lib c rn now later turns d)
  obtain d' asked err where r: "RenewIfDue lib c rn now later d = (d', asked, err)" by (metis prod_cases3)
  have "k \<in> set (de_keys d') \<or> made_in lib (de_alg d') turns k" using "2.IH" [OF r [symmetric] refl] "2.prems" by (simp add: r case_prod_beta)
  moreover have "de_alg d' = de_alg d" using RenewIfDue_alg [of lib c rn now later d] by (simp add: r)
  ultimately show ?case using RenewIfDue_made [of k lib c rn now later d] made_in_more r by fastforce
qed simp

definition delegated_ok :: "string \<Rightarrow> string \<Rightarrow> duration \<Rightarrow> string \<Rightarrow> Delegated \<Rightarrow> bool" where
  "delegated_ok name alg lifetime consumer d \<longleftrightarrow>
     de_name d = name \<and> de_alg d = alg \<and> de_lifetime d = lifetime \<and> list_all (certified_for name alg lifetime consumer) (de_keys d)"

lemma renew_ok:
  "delegated_ok name alg lifetime (cl_consumer c) d \<Longrightarrow>
   delegated_ok name alg lifetime (cl_consumer c) (fst (RenewIfDue lib c rn now later d))"
  using renew_sound [of lib d c rn]
  by (auto simp: RenewIfDue_def delegated_ok_def list_all_iff split: sum.split)

lemma run_ok:
  "delegated_ok name alg lifetime (cl_consumer c) d \<Longrightarrow>
   delegated_ok name alg lifetime (cl_consumer c) (fst (Delegated_Run lib c turns d))"
proof (induction lib c turns d rule: Delegated_Run.induct)
  case (2 lib c rn now later turns d)
  obtain d' asked err where r: "RenewIfDue lib c rn now later d = (d', asked, err)" by (metis prod_cases3)
  have "delegated_ok name alg lifetime (cl_consumer c) d'" using renew_ok [OF "2.prems", of lib rn now later] r by simp
  from "2.IH" [OF r [symmetric] refl this] show ?case by (simp add: r case_prod_beta)
qed simp

text \<open>Seconds that wrap: inside its life a statement has exactly the life asked for.\<close>

lemma wrap_difference:
  assumes "wrap64 (a - b) = l" "0 < l" "wrap64 (b + u) < wrap64 (a + u)"
  shows "wrap64 (a + u) - wrap64 (b + u) = l"
proof -
  have "\<exists>i. wrap64 x = x + i * 2 ^ 64" for x
  proof -
    have "wrap64 x = x + (- ((x + 2 ^ 63) div 2 ^ 64)) * 2 ^ 64"
      using div_mult_mod_eq [of "x + 2 ^ 63" "2 ^ 64"] by (simp add: wrap64_def algebra_simps)
    then show ?thesis by blast
  qed
  then obtain i j k where w: "wrap64 (a + u) = a + u + i * 2 ^ 64" "wrap64 (b + u) = b + u + j * 2 ^ 64" "wrap64 (a - b) = a - b + k * 2 ^ 64" by metis
  have bounds: "- (2 ^ 63) \<le> wrap64 x \<and> wrap64 x < 2 ^ 63" for x
    using is_int64_wrap64 [of x] by (auto simp: int64_defs)
  have d: "wrap64 (a + u) - wrap64 (b + u) = l + (i - j - k) * 2 ^ 64" using w assms(1) by (simp add: algebra_simps)
  define m where "m = i - j - k"
  have "wrap64 (a + u) - wrap64 (b + u) = l + m * 18446744073709551616" using d by (simp add: m_def)
  moreover have "l < 9223372036854775808" using bounds [of "a - b"] assms(1) by simp
  moreover have "wrap64 (a + u) < 9223372036854775808" "- 9223372036854775808 \<le> wrap64 (b + u)"
    using bounds [of "a + u"] bounds [of "b + u"] by simp_all
  ultimately have "m < 1" "- 1 < m" using assms(2,3) by simp_all
  then have "i - j - k = 0" by (simp add: m_def)
  with d show ?thesis by simp
qed

lemma in_life_exact:
  assumes "certified_for name alg lifetime consumer k" "in_life t k" "0 < lifetime div Second" "lifetime mod Second = 0"
  shows "ce_notAfter k = ce_notBefore k + lifetime"
proof -
  obtain cl :: statement_claims where cl: "ce_notBefore k = time_of_unix (sc_NotBefore cl)" "ce_notAfter k = time_of_unix (sc_NotAfter cl)"
    "wrap64 (sc_NotAfter cl - sc_NotBefore cl) = lifetime div Second" using assms(1) unfolding certified_for_def by (elim exE conjE) (rule that)
  have "ce_notBefore k < ce_notAfter k" using assms(2) by (simp add: in_life_def)
  then have "wrap64 (sc_NotBefore cl + unixToInternal) < wrap64 (sc_NotAfter cl + unixToInternal)"
    by (simp add: cl time_of_unix_def Second_def)
  from wrap_difference [OF cl(3) assms(3) this]
  have "ce_notAfter k - ce_notBefore k = lifetime div Second * Second" by (simp add: cl time_of_unix_def algebra_simps)
  with assms(4) show ?thesis using div_mult_mod_eq [of lifetime Second] by simp
qed

text \<open>
  C36. A signature is never made outside the life of a statement, nor with another key than the one it
  names. After any run of renewals, whatever custody answered, a signature is refused, or made with a
  private key this process generated in one of its turns, under a statement that is version 1 from
  keyryx and names this name, this consumer, this algorithm, the thumbprint of the public half as key
  id, and the public half itself: its type, curve and both coordinates. The moment is not before the
  statement begins and strictly less than the life asked for after that.
\<close>

theorem delegated_signs_in_time:
  assumes "Client_Delegated name alg lifetime = Some d0" "Delegated_Run lib c turns d0 = (d, errs)"
  shows "Delegated_Sign d now msg = Inl ErrNoValidKey \<or> Delegated_Sign d now msg = Inl KeyOther \<or>
    (\<exists>rn t u priv pub k cl sig. (rn, t, u) \<in> set turns \<and> rn_Generate rn (curveFor alg) = Some (priv, pub) \<and>
       ecSign priv (key_digestFor alg msg) = Some sig \<and>
       Delegated_Sign d now msg = Inr \<lparr>sg_Alg = alg, sg_Kid = sc_Kid cl, sg_Sig = sig\<rparr> \<and>
       k \<in> set (de_keys d) \<and> ce_priv k = priv \<and> statement_of (Some (ky_Statement (ce_key k))) = Some cl \<and>
       sc_V cl = 1 \<and> sc_Iss cl = ''keyryx'' \<and> sc_Name cl = name \<and> sc_Owner cl = cl_consumer c \<and>
       Thumbprint lib (FromPublic pub []) = Inr (sc_Kid cl) \<and> jw_Kid (sc_JWK cl) = sc_Kid cl \<and> jw_Alg (sc_JWK cl) = alg \<and>
       jw_Kty (sc_JWK cl) = ''EC'' \<and> jw_Crv (sc_JWK cl) = jw_Crv (FromPublic pub []) \<and>
       jw_X (sc_JWK cl) = jw_X (FromPublic pub []) \<and> jw_Y (sc_JWK cl) = jw_Y (FromPublic pub []) \<and>
       time_of_unix (sc_NotBefore cl) \<le> now \<and> now < time_of_unix (sc_NotBefore cl) + lifetime)"
proof (cases "validLocked d now")
  case None
  then show ?thesis by (simp add: Delegated_Sign_def)
next
  case (Some k)
  have d0: "delegated_ok name alg lifetime (cl_consumer c) d0" "de_keys d0 = []" "de_alg d0 = alg"
    and life: "0 < lifetime div Second" "lifetime mod Second = 0"
    using assms(1) by (auto simp: Client_Delegated_def delegated_ok_def minLifetime_def Minute_def Second_def pos_imp_zdiv_pos_iff split: if_splits)
  have d: "delegated_ok name alg lifetime (cl_consumer c) d" using run_ok [OF d0(1), of lib turns] assms(2) by simp
  from valid_member [OF Some] have k: "k \<in> set (de_keys d)" "in_life now k" by simp_all
  with d have ce: "certified_for name alg lifetime (cl_consumer c) k" by (auto simp: delegated_ok_def list_all_iff)
  have "made_in lib alg turns k" using run_made [of k lib c turns d0] k(1) assms(2) d0(2,3) by simp
  then obtain rn t u pub where made: "(rn, t, u) \<in> set turns" "rn_Generate rn (curveFor alg) = Some (ce_priv k, pub)"
    "Thumbprint lib (FromPublic pub []) = Inr (ky_Kid (ce_key k))"
    "ky_JWK (ce_key k) = offered_jwk (FromPublic pub []) (ky_Kid (ce_key k)) alg" unfolding made_in_def by blast
  from in_life_exact [OF ce k(2) life] have exact: "ce_notAfter k = ce_notBefore k + lifetime" .
  from ce obtain cl where cl: "statement_of (Some (ky_Statement (ce_key k))) = Some cl" "sc_V cl = 1" "sc_Iss cl = ''keyryx''"
    "sc_Name cl = name" "sc_Owner cl = cl_consumer c" "sc_Kid cl = ky_Kid (ce_key k)" "jw_Alg (sc_JWK cl) = alg"
    "ce_notBefore k = time_of_unix (sc_NotBefore cl)"
    and key: "jw_Kty (sc_JWK cl) = jw_Kty (ky_JWK (ce_key k))" "jw_Kid (sc_JWK cl) = ky_Kid (ce_key k)"
    "jw_Crv (sc_JWK cl) = jw_Crv (ky_JWK (ce_key k))" "jw_X (sc_JWK cl) = jw_X (ky_JWK (ce_key k))" "jw_Y (sc_JWK cl) = jw_Y (ky_JWK (ce_key k))"
    unfolding certified_for_def by (elim exE conjE) (rule that)
  have key': "jw_Kid (sc_JWK cl) = sc_Kid cl" "jw_Kty (sc_JWK cl) = ''EC''" "jw_Crv (sc_JWK cl) = jw_Crv (FromPublic pub [])"
    "jw_X (sc_JWK cl) = jw_X (FromPublic pub [])" "jw_Y (sc_JWK cl) = jw_Y (FromPublic pub [])"
    using key cl(6) by (simp_all add: made(4) offered_jwk_def)
  have al: "de_alg d = alg" using d by (simp add: delegated_ok_def)
  show ?thesis
  proof (cases "ecSign (ce_priv k) (key_digestFor alg msg)")
    case None
    then show ?thesis by (simp add: Delegated_Sign_def Some al)
  next
    case sig: (Some sig)
    have "Delegated_Sign d now msg = Inr \<lparr>sg_Alg = alg, sg_Kid = sc_Kid cl, sg_Sig = sig\<rparr>"
      using sig by (simp add: Delegated_Sign_def Some al cl(6))
    with sig k cl made(1-3) key' exact show ?thesis unfolding in_life_def
      by (intro disjI2 exI [of _ rn] exI [of _ t] exI [of _ u] exI [of _ "ce_priv k"] exI [of _ pub] exI [of _ k] exI [of _ cl] exI [of _ sig])
        simp
  qed
qed

text \<open>
  C38. Every outcome of a renewal. Before it is due nothing is asked and nothing changes. A renewal
  that fails keeps every key and is not due again for the five minutes after the failure. One that
  succeeds can sign, at every later moment, exactly when the process could before or the new key is
  in its life: it never costs a key that was still good.
\<close>

theorem renewal_outcome:
  "case RenewIfDue lib c rn now later d of
     (d', False, err) \<Rightarrow> d' = d \<and> err = None \<and> \<not> dueLocked d now
   | (d', True, Some err) \<Rightarrow> renew lib d c rn = Inl err \<and> de_keys d' = de_keys d \<and> dueLocked d now \<and>
       \<not> dueLocked d' (later + de_retry d - 1 - int n)
   | (d', True, None) \<Rightarrow> \<exists>k. renew lib d c rn = Inr k \<and> dueLocked d now \<and>
       can_sign d' (later + int n) = (can_sign d (later + int n) \<or> in_life (later + int n) k)"
proof (cases "dueLocked d now")
  case False
  then show ?thesis by (simp add: RenewIfDue_def)
next
  case True
  show ?thesis
  proof (cases "renew lib d c rn")
    case (Inl err)
    with True show ?thesis by (simp add: RenewIfDue_def dueLocked_def)
  next
    case (Inr k)
    have "list_ex (in_life (later + int n)) (filter (\<lambda>old. later < ce_notAfter old) (de_keys d)) = list_ex (in_life (later + int n)) (de_keys d)"
      by (auto simp: list_ex_iff in_life_def)
    with True Inr show ?thesis by (auto simp: RenewIfDue_def can_sign_iff)
  qed
qed

text \<open>
  A statement that begins in the future is accepted, and while it is the newest nothing is due: the
  process cannot sign, and does not ask.
\<close>

definition future_key :: certified where
  "future_key = \<lparr>ce_key = \<lparr>ky_Kid = ''k'', ky_JWK = zero_JWK, ky_Statement = CNull, ky_NotBefore = 100 * Second, ky_NotAfter = 700 * Second\<rparr>,
     ce_priv = \<lparr>sk_Curve = P256, sk_Sign = (\<lambda>h. None)\<rparr>, ce_notBefore = 100 * Second, ce_notAfter = 700 * Second\<rparr>"

lemma future_key_waits:
  "\<not> can_sign (d\<lparr>de_keys := [future_key], de_nextTry := zero_time\<rparr>) 0 \<and> \<not> dueLocked (d\<lparr>de_keys := [future_key], de_nextTry := zero_time\<rparr>) 0"
  by (simp add: can_sign_iff in_life_def dueLocked_def newestLocked_def future_key_def halfLife_def time_Sub_def clamp64_def
      zero_time_def unixToInternal_def Second_def minInt64_def maxInt64_def)

end
