(* ===== verification/Key_Sample.thy ===== *)
theory Key_Sample
  imports Key_Sound Jose_Sample Jose_Thumb
begin

text \<open>
  A renewal that succeeds, from custody's bytes to a signature: the instance the property of the
  delegated key is tried on. The key is the one of theory \<open>Jose_Sample\<close>; its thumbprint stays
  symbolic, since nothing depends on the digest but its length.
\<close>

section \<open>Base64 text inside a document\<close>

lemma b64_char_enc: "n < 64 \<Longrightarrow> esc_ascii (b64_char n) = [b64_char n] \<and> (of_char (b64_char n) :: nat) < 128"
proof -
  assume n: "n < 64"
  have v: "(of_char (b64_char n) :: nat) \<in> {45} \<union> {48..57} \<union> {65..90} \<union> {95} \<union> {97..122}"
    using n by (auto simp: of_char_b64_char)
  have "b64_char n \<noteq> k" if "(of_char k :: nat) \<notin> {45} \<union> {48..57} \<union> {65..90} \<union> {95} \<union> {97..122}" for k
    using v that by blast
  with v show ?thesis by (auto simp: esc_ascii_def html_special_def)
qed

lemma b64_enc: "enc_str (b64 xs) = b64 xs"
proof -
  have "list_all (\<lambda>v. v < 64) vs \<Longrightarrow> enc_str (map b64_char vs) = map b64_char vs" for vs
    by (induction vs) (simp_all add: enc_str_ascii b64_char_enc)
  then show ?thesis by (simp add: b64_def sextets_bound)
qed

lemma b64_ascii_text: "ascii (b64 xs)"
  using sextets_bound [of xs] by (auto simp: b64_def ascii_def list_all_iff b64_char_enc)

lemma b64_dec: "dec_str (b64 xs) = b64 xs"
  using dec_enc_valid [OF ascii_valid [OF b64_ascii_text]] by (simp add: b64_enc)

lemma b64_raw: "raw_ok (b64 xs)"
  using raw_ok_enc_str [of "b64 xs"] by (simp add: b64_enc)

lemma b64_length: "length (b64 xs) \<le> 2 * length xs"
proof -
  have "length (sextets_of xs) \<le> 2 * length xs" by (induction xs rule: sextets_of.induct) simp_all
  then show ?thesis by (simp add: b64_def)
qed

lemma b64_empty: "b64 xs = [] \<longleftrightarrow> xs = []"
  using b64_inj [of xs "[]"] by (simp add: b64_def)

section \<open>The key and its statement\<close>

definition sample_kid :: string where
  "sample_kid = b64 (sha256 (the (thumb_input plain_lib (FromPublic sample_pub []))))"

definition sample_signer :: ec_private where
  "sample_signer = \<lparr>sk_Curve = P256, sk_Sign = (\<lambda>d. Some (sample_r, sample_r))\<rparr>"

definition sample_x :: string where "sample_x = b64 (int_be 32 (fst sample_pt))"
definition sample_y :: string where "sample_y = b64 (int_be 32 (snd sample_pt))"

definition sample_claims :: cst where
  "sample_claims = CObj [(''v'', CNum ''1''), (''iss'', CStr ''keyryx''), (''name'', CStr ''n''), (''owner'', CStr ''c''),
     (''kid'', CStr sample_kid),
     (''jwk'', CObj [(''kty'', CStr ''EC''), (''crv'', CStr ''P-256''), (''x'', CStr sample_x), (''y'', CStr sample_y),
       (''kid'', CStr sample_kid), (''alg'', CStr ''ES256'')]),
     (''not_before'', CNum ''0''), (''not_after'', CNum ''600'')]"

definition sample_statement :: cst where
  "sample_statement = CObj [(''payload'', CStr (b64 (print_json sample_claims))), (''signatures'', CArr [CNull])]"

text \<open>One body that answers both requests: a challenge and, beside it, the certificate.\<close>

definition sample_answer :: cst where
  "sample_answer = CObj [(''challenge'', CStr ''x''), (''statement'', sample_statement), (''kid'', CStr sample_kid),
     (''not_before'', CNum ''0''), (''not_after'', CNum ''600'')]"

lemma document_words:
  "dec_str ''keyryx'' = ''keyryx''" "dec_str ''n'' = ''n''" "dec_str ''c'' = ''c''" "dec_str ''x'' = ''x''"
  "dec_str ''EC'' = ''EC''" "dec_str ''P-256'' = ''P-256''" "dec_str ''ES256'' = ''ES256''"
  "json_int64 ''1'' = Some 1" "json_int64 ''0'' = Some 0" "json_int64 ''600'' = Some 600"
  by code_simp+

lemma document_raws:
  "raw_ok ''keyryx''" "raw_ok ''n''" "raw_ok ''c''" "raw_ok ''x''" "raw_ok ''EC''" "raw_ok ''P-256''" "raw_ok ''ES256''"
  "raw_ok ''v''" "raw_ok ''iss''" "raw_ok ''name''" "raw_ok ''owner''" "raw_ok ''kid''" "raw_ok ''jwk''" "raw_ok ''kty''"
  "raw_ok ''crv''" "raw_ok ''y''" "raw_ok ''alg''" "raw_ok ''not_before''" "raw_ok ''not_after''" "raw_ok ''payload''"
  "raw_ok ''signatures''" "raw_ok ''challenge''" "raw_ok ''statement''" "is_number ''0''" "is_number ''1''" "is_number ''600''"
  by code_simp+

lemma sample_texts [simp]:
  "dec_str sample_kid = sample_kid" "dec_str sample_x = sample_x" "dec_str sample_y = sample_y"
  "raw_ok sample_kid" "raw_ok sample_x" "raw_ok sample_y" "sample_kid \<noteq> []" "sample_x \<noteq> []" "sample_y \<noteq> []"
  "length sample_kid \<le> 64" "length sample_x \<le> 64" "length sample_y \<le> 64"
proof -
  show "length sample_kid \<le> 64" "length sample_x \<le> 64" "length sample_y \<le> 64"
    using b64_length [of "sha256 (the (thumb_input plain_lib (FromPublic sample_pub [])))"]
      b64_length [of "int_be 32 (fst sample_pt)"] b64_length [of "int_be 32 (snd sample_pt)"]
    by (simp_all add: sample_kid_def sample_x_def sample_y_def)
  have "sha256 b \<noteq> []" "int_be 32 n \<noteq> []" for b n
    using length_sha256 [of b] length_int_be [of 32 n] by (metis list.size(3) zero_neq_numeral)+
  then show "sample_kid \<noteq> []" "sample_x \<noteq> []" "sample_y \<noteq> []"
    by (simp_all add: sample_kid_def sample_x_def sample_y_def b64_empty)
qed (simp_all add: sample_kid_def sample_x_def sample_y_def b64_dec b64_raw)

lemma claims_parse: "parse_json (print_json sample_claims) = Some sample_claims"
  by (rule parse_print) (simp_all add: sample_claims_def document_raws maxNestingDepth_def)

lemma answer_parse: "parse_json (print_json sample_answer) = Some sample_answer"
  by (rule parse_print) (simp_all add: sample_answer_def sample_statement_def document_raws b64_raw maxNestingDepth_def)

text \<open>Both documents are short enough to be read.\<close>

lemma print_length: "length (print_json c) = sum_list (map (length \<circ> spell) (toks c))"
  by (simp add: print_json_def length_concat)

lemma answer_short: "length (print_json sample_answer) \<le> maxResponse"
proof -
  have c: "length (print_json sample_claims) \<le> 1000"
    unfolding sample_claims_def print_length using sample_texts(10-12) by (simp, linarith)
  have "length (b64 (print_json sample_claims)) \<le> 2000"
    using b64_length [of "print_json sample_claims"] c by linarith
  then show ?thesis
    unfolding sample_answer_def sample_statement_def print_length maxResponse_def using sample_texts(10) by (simp, linarith)
qed

section \<open>The renewal\<close>

definition sample_offer :: JWK where
  "sample_offer = zero_JWK\<lparr>jw_Kty := ''EC'', jw_Crv := ''P-256'', jw_X := sample_x, jw_Y := sample_y, jw_Kid := sample_kid,
     jw_Alg := ''ES256'', jw_Use := ''sig''\<rparr>"

definition issued_claims :: statement_claims where
  "issued_claims = \<lparr>sc_V = 1, sc_Iss = ''keyryx'', sc_Name = ''n'', sc_Owner = ''c'', sc_Kid = sample_kid,
     sc_JWK = sample_offer\<lparr>jw_Use := []\<rparr>, sc_NotBefore = 0, sc_NotAfter = 600\<rparr>"

lemma document_fields:
  "field_for claim_names (dec_str ''v'') = Some ''v''" "field_for claim_names (dec_str ''iss'') = Some ''iss''"
  "field_for claim_names (dec_str ''name'') = Some ''name''" "field_for claim_names (dec_str ''owner'') = Some ''owner''"
  "field_for claim_names (dec_str ''kid'') = Some ''kid''" "field_for claim_names (dec_str ''jwk'') = Some ''jwk''"
  "field_for claim_names (dec_str ''not_before'') = Some ''not_before''" "field_for claim_names (dec_str ''not_after'') = Some ''not_after''"
  "field_for jwk_names (dec_str ''kty'') = Some ''kty''" "field_for jwk_names (dec_str ''crv'') = Some ''crv''"
  "field_for jwk_names ''x'' = Some ''x''" "field_for jwk_names (dec_str ''y'') = Some ''y''"
  "field_for jwk_names (dec_str ''kid'') = Some ''kid''" "field_for jwk_names (dec_str ''alg'') = Some ''alg''"
  "field_for [''payload'', ''signatures''] (dec_str ''payload'') = Some ''payload''"
  "field_for [''payload'', ''signatures''] (dec_str ''signatures'') = Some ''signatures''"
  by code_simp+

lemma answer_fields:
  "field_for [''challenge''] (dec_str ''challenge'') = Some ''challenge''" "field_for [''challenge''] (dec_str ''statement'') = None"
  "field_for [''challenge''] (dec_str ''kid'') = None" "field_for [''challenge''] (dec_str ''not_before'') = None"
  "field_for [''challenge''] (dec_str ''not_after'') = None"
  "field_for [''statement'', ''kid'', ''not_before'', ''not_after''] (dec_str ''challenge'') = None"
  "field_for [''statement'', ''kid'', ''not_before'', ''not_after''] (dec_str ''statement'') = Some ''statement''"
  "field_for [''statement'', ''kid'', ''not_before'', ''not_after''] (dec_str ''kid'') = Some ''kid''"
  "field_for [''statement'', ''kid'', ''not_before'', ''not_after''] (dec_str ''not_before'') = Some ''not_before''"
  "field_for [''statement'', ''kid'', ''not_before'', ''not_after''] (dec_str ''not_after'') = Some ''not_after''"
  by code_simp+

lemma statement_read: "statement_of (Some sample_statement) = Some issued_claims"
proof -
  have p: "statement_payload (Some sample_statement) = Some (b64 (print_json sample_claims))"
  proof -
    have "print_json sample_claims \<noteq> []" by (simp add: sample_claims_def print_json_def)
    then show ?thesis
      by (simp add: statement_payload_def sample_statement_def struct_element_def document_fields set_envelope_def set_string_def
          b64_dec b64_empty)
  qed
  have "json_struct claim_names set_claim (print_json sample_claims) no_claims = Some issued_claims"
    unfolding json_struct_defs claims_parse
    by (simp add: sample_claims_def document_fields set_claim_def set_string_def set_int_def document_words struct_element_def set_jwk_def
        issued_claims_def no_claims_def sample_offer_def zero_JWK_def)
  with p show ?thesis by (simp add: statement_of_def b64_roundtrip)
qed

lemma sample_published:
  "Thumbprint plain_lib (FromPublic sample_pub []) = Inr sample_kid"
  "offered_jwk (FromPublic sample_pub []) sample_kid ''ES256'' = sample_offer"
proof -
  have f: "FromPublic sample_pub [] = zero_JWK\<lparr>jw_Kty := ''EC'', jw_Crv := ''P-256'', jw_X := sample_x, jw_Y := sample_y,
      jw_Kid := [], jw_Use := ''sig'', jw_Alg := ''ES256''\<rparr>"
    using published_P256 [OF sample_on_curve, of "[]"] by (simp add: sample_pub_def sample_x_def sample_y_def)
  have "thumb_input plain_lib (FromPublic sample_pub []) \<noteq> None" unfolding f by (simp add: thumb_input_def)
  then show "Thumbprint plain_lib (FromPublic sample_pub []) = Inr sample_kid"
    by (auto simp: Thumbprint_def sample_kid_def)
  show "offered_jwk (FromPublic sample_pub []) sample_kid ''ES256'' = sample_offer"
    unfolding f by (simp add: offered_jwk_def sample_offer_def zero_JWK_def)
qed

definition sample_delegated :: Delegated where
  "sample_delegated = \<lparr>de_name = ''n'', de_alg = ''ES256'', de_lifetime = minLifetime, de_retry = defaultRetry, de_keys = [], de_nextTry = zero_time\<rparr>"

definition good_renewal :: renewal where
  "good_renewal = \<lparr>rn_Generate = (\<lambda>C. Some (sample_signer, sample_pub)), rn_Custody = answering (print_json sample_answer)\<rparr>"

definition issued_key :: certified where
  "issued_key = \<lparr>ce_key = \<lparr>ky_Kid = sample_kid, ky_JWK = sample_offer, ky_Statement = sample_statement, ky_NotBefore = 0,
     ky_NotAfter = 600 * Second\<rparr>, ce_priv = sample_signer, ce_notBefore = 0, ce_notAfter = 600 * Second\<rparr>"

lemma asked:
  assumes "decode (print_json sample_answer) = Some out"
  shows "client_do (answering (print_json sample_answer)) sample_client ''POST'' route b decode = Inr out"
  using assms answer_short by (simp add: client_do_def answering_def request_header_def sample_client_def)

lemma unix_epoch: "time_of_unix 0 = 0" "time_of_unix 600 = 600 * Second"
  by (simp_all add: time_of_unix_def wrap64_def unixToInternal_def Second_def)

lemma sample_renewed: "renew plain_lib sample_delegated sample_client good_renewal = Inr issued_key"
proof -
  have 1: "json_struct [''challenge''] set_challenge (print_json sample_answer) [] = Some ''x''"
    unfolding json_struct_defs answer_parse
    by (simp add: sample_answer_def answer_fields set_challenge_def set_string_def document_words)
  have 2: "read_delegate (print_json sample_answer) =
      Some \<lparr>da_Statement = Some sample_statement, da_Kid = sample_kid, da_NotBefore = 0, da_NotAfter = 600\<rparr>"
    unfolding read_delegate_def json_struct_defs answer_parse
    by (simp add: sample_answer_def answer_fields set_delegate_def set_string_def set_int_def document_words)
  have sign: "ecSign sample_signer m \<noteq> None" for m by (simp add: ecSign_def sample_signer_def Let_def)
  have "certify sample_delegated sample_client sample_signer sample_offer
      \<lparr>da_Statement = Some sample_statement, da_Kid = sample_kid, da_NotBefore = 0, da_NotAfter = 600\<rparr> = Inr issued_key"
    by (simp add: certify_def checkStatement_def statement_read issued_claims_def sample_offer_def sample_delegated_def sample_client_def
        unix_epoch issued_key_def wrap64_def minLifetime_def Minute_def Second_def Let_def)
  then show ?thesis
    using sign asked [where decode = "\<lambda>raw. json_struct [''challenge''] set_challenge raw []", OF 1] asked [where decode = read_delegate, OF 2]
    by (auto simp: renew_def good_renewal_def sample_delegated_def sample_published split: option.splits)
qed

theorem delegated_signs_in_time_witness:
  "\<exists>rn t u priv pub (cl :: statement_claims) sig. (rn, t, u) \<in> set [(good_renewal, 5 :: gtime, 7 :: gtime)] \<and> rn_Generate rn (curveFor ''ES256'') = Some (priv, pub) \<and>
     Delegated_Sign (sample_delegated\<lparr>de_keys := [issued_key]\<rparr>) 8 ''m'' = Inr \<lparr>sg_Alg = ''ES256'', sg_Kid = sc_Kid cl, sg_Sig = sig\<rparr> \<and>
     Thumbprint plain_lib (FromPublic pub []) = Inr (sc_Kid cl) \<and> jw_X (sc_JWK cl) = jw_X (FromPublic pub []) \<and>
     8 < time_of_unix (sc_NotBefore cl) + minLifetime"
proof -
  have 1: "Client_Delegated ''n'' ''ES256'' minLifetime = Some sample_delegated"
    by (simp add: Client_Delegated_def sample_delegated_def nameRe_def lower_digit_def minLifetime_def maxLifetime_def Hour_def Minute_def Second_def)
  have 2: "Delegated_Run plain_lib sample_client [(good_renewal, 5, 7)] sample_delegated = (sample_delegated\<lparr>de_keys := [issued_key]\<rparr>, [])"
  proof -
    have "dueLocked sample_delegated 5"
      by (simp add: dueLocked_def newestLocked_def sample_delegated_def zero_time_def unixToInternal_def Second_def)
    then have "RenewIfDue plain_lib sample_client good_renewal 5 7 sample_delegated = (sample_delegated\<lparr>de_keys := [issued_key]\<rparr>, True, None)"
      using sample_renewed by (simp add: RenewIfDue_def sample_delegated_def)
    then show ?thesis by simp
  qed
  have "Delegated_Sign (sample_delegated\<lparr>de_keys := [issued_key]\<rparr>) 8 ''m'' \<noteq> Inl e" for e
    by (simp add: Delegated_Sign_def validLocked_def valid_step_def sample_delegated_def issued_key_def Second_def ecSign_def sample_signer_def Let_def)
  with delegated_signs_in_time [OF 1 2, of 8 "''m''"] show ?thesis by blast
qed

end
