(* ===== verification/Spec2Isabelle.thy ===== *)
theory Spec2Isabelle
  imports Prelude Record_Chain Deleg_Chain Clock Replay Revocations Text Json_String Json Json_Prefix
    Float64 Json_Value Sha2 Lines Event Event_Writer Event_Chain Chain_Verify Shared_Stream Tamper
    Line_Scanner Json_Struct Ecdsa Checkpoint Checkpoint_Writer Checkpoint_Verify Checkpoint_Track
    Checkpoint_Honest Jcs Checkpoint_Kept Checkpoint_Sound Checkpoint_Written Checkpoint_Accepted Checkpoint_Later
    Jose Jose_Sound Jose_Sign Jose_Sample Jose_Thumb
    Dpop Agent_Token Verify Verify_Sound Access Access_Sound Access_Door Revoked_Doors
    Watch_Read Watch_State Watch_Pass Watch_Sound Watch_Run Watch_Keys Conform
    Json_Slices Snapshot_Wire Passport Passport_Load Keyclient Key_Set Key_Delegated Key_Sound Key_Sample
begin

text \<open>
  The agent-stack Go module: what a record of agents' actions holds, how it is kept, and how the
  tokens that name an agent's delegation chain are checked. This development translates the module
  to definitions that compute and proves what makes each part correct.

  \<^bold>\<open>The program and how its parts meet.\<close>
  A \<^emph>\<open>chain\<close> is the root-first list of parties an agent acts for. The record holds it in events
  (\<^verbatim>\<open>chain/chain.go\<close>), a token holds it as nested \<^verbatim>\<open>act\<close> claims
  (\<^verbatim>\<open>delegation/chain.go\<close>). A door that receives a request
  verifies a token (\<^verbatim>\<open>delegation/verify.go\<close>, \<^verbatim>\<open>access.go\<close>):
  its signature under a key set (\<^verbatim>\<open>jose.go\<close>), the proof of possession it is bound to
  (\<^verbatim>\<open>dpop.go\<close>), the memory that spends a proof once (\<^verbatim>\<open>replay.go\<close>), and the revocation
  list (\<^verbatim>\<open>revocations.go\<close>). The keys come from a custody service
  (\<^verbatim>\<open>keyclient\<close>). What happened is appended as JSON lines (\<^verbatim>\<open>event/event.go\<close>,
  \<^verbatim>\<open>create.go\<close>, the locks and the owner check), each line chained to the one before by a
  hash (\<^verbatim>\<open>event/chain.go\<close>) and the whole signed from time to time in a sidecar
  (\<^verbatim>\<open>event/checkpoint.go\<close>, \<^verbatim>\<open>scan.go\<close>). The command \<^verbatim>\<open>agent-conform\<close> checks a
  file, or watches a directory of streams and reports what breaks as events of its own. A
  Passport (\<^verbatim>\<open>passport\<close>) names an agent and its owner with the identifiers chains are made of.

  \<^bold>\<open>Theories and source.\<close>
  Each theory opens with what it holds. Definitions carry the source's names where Isabelle allows.

    \<^item> \<open>Prelude\<close>: byte strings, error sums, two's complement, and the lemmas shared by all.
    \<^item> \<open>Record_Chain\<close>, \<open>Deleg_Chain\<close>: \<^verbatim>\<open>chain/chain.go\<close>, \<^verbatim>\<open>delegation/chain.go\<close>.
    \<^item> \<open>Clock\<close>, \<open>Text\<close>, \<open>Lines\<close>, \<open>Json_String\<close>, \<open>Json\<close>, \<open>Json_Prefix\<close>, \<open>Float64\<close>, \<open>Json_Value\<close>,
      \<open>Json_Struct\<close>, \<open>Json_Slices\<close>, \<open>Sha2\<close>, \<open>Ecdsa\<close>: what the module uses of \<^verbatim>\<open>time\<close>,
      \<^verbatim>\<open>strings\<close>, \<^verbatim>\<open>bufio\<close>, \<^verbatim>\<open>encoding/json\<close>, \<^verbatim>\<open>crypto\<close>.
    \<^item> \<open>Replay\<close>: \<^verbatim>\<open>delegation/replay.go\<close> and the seen-set of \<^verbatim>\<open>dpop.go\<close>.
    \<^item> \<open>Revocations\<close>, \<open>Snapshot_Wire\<close>: \<^verbatim>\<open>delegation/revocations.go\<close>, the cache and the list off the wire.
    \<^item> \<open>Event\<close>, \<open>Event_Writer\<close>: \<^verbatim>\<open>event/event.go\<close>, \<^verbatim>\<open>create.go\<close>,
      \<^verbatim>\<open>lock_flock.go\<close>, \<^verbatim>\<open>owner_unix.go\<close>.
    \<^item> \<open>Event_Chain\<close>, \<open>Chain_Verify\<close>, \<open>Shared_Stream\<close>, \<open>Tamper\<close>: \<^verbatim>\<open>event/chain.go\<close>; the
      writer, the verifier, what they owe each other, many writers on one file, an edited line.
    \<^item> \<open>Line_Scanner\<close>: \<^verbatim>\<open>event/scan.go\<close>.
    \<^item> \<open>Checkpoint\<close>, \<open>Checkpoint_Writer\<close>, \<open>Checkpoint_Verify\<close>: \<^verbatim>\<open>event/checkpoint.go\<close>; its
      lemmas are \<open>Checkpoint_Track\<close>, \<open>_Kept\<close>, \<open>_Sound\<close>, \<open>_Honest\<close>, \<open>_Written\<close>, \<open>_Accepted\<close>, \<open>_Later\<close> and \<open>Jcs\<close>.
    \<^item> \<open>Jose\<close> with \<open>Jose_Sound\<close>, \<open>_Sign\<close>, \<open>_Sample\<close>, \<open>_Thumb\<close>: \<^verbatim>\<open>delegation/jose.go\<close>.
    \<^item> \<open>Dpop\<close>, \<open>Verify\<close>, \<open>Verify_Sound\<close>: \<^verbatim>\<open>delegation/dpop.go\<close>, \<^verbatim>\<open>verify.go\<close>.
    \<^item> \<open>Agent_Token\<close>, \<open>Access\<close>, \<open>Access_Sound\<close>, \<open>Access_Door\<close>: \<^verbatim>\<open>delegation/access.go\<close>.
    \<^item> \<open>Revoked_Doors\<close>: the revocation list behind the verifiers of both kinds of token.
    \<^item> \<open>Keyclient\<close>, \<open>Key_Set\<close>, \<open>Key_Delegated\<close>, \<open>Key_Sound\<close>, \<open>Key_Sample\<close>: \<^verbatim>\<open>keyclient/client.go\<close>,
      \<^verbatim>\<open>jwks.go\<close>, \<^verbatim>\<open>delegated.go\<close>.
    \<^item> \<open>Passport\<close>, \<open>Passport_Load\<close>: \<^verbatim>\<open>passport/passport.go\<close>, \<^verbatim>\<open>load.go\<close>.
    \<^item> \<open>Conform\<close>: \<^verbatim>\<open>cmd/agent-conform/main.go\<close>. \<open>Watch_Read\<close>, \<open>Watch_State\<close>, \<open>Watch_Pass\<close>,
      \<open>Watch_Run\<close>, \<open>Watch_Sound\<close>, \<open>Watch_Keys\<close>: \<^verbatim>\<open>watchdir.go\<close> and \<^verbatim>\<open>checkpoints.go\<close>.

  \<^bold>\<open>How code became definitions.\<close>
  A struct is a \<^verbatim>\<open>record\<close>, an enumeration a \<^verbatim>\<open>datatype\<close>, an error a value of a sum; a
  \<^verbatim>\<open>string\<close> and a \<^verbatim>\<open>[]byte\<close> are both strings of bytes. State is passed
  and returned. A mutex or a file lock makes an operation atomic, so interleavings are sequences of
  whole operations (\<open>shared\<close>, \<open>ck_life\<close>, \<open>ck_later\<close>, the runs of \<open>Access_Door\<close>, \<open>Watch_Run\<close>, \<open>Key_Sound\<close>). Words are
  kept at their width in SHA-2; \<^verbatim>\<open>int64\<close> arithmetic that can overflow is written with its
  wrap-around or saturation (\<open>Clock\<close>).

  \<^bold>\<open>Interfaces.\<close>
  \<open>chain_builder\<close> is what extending a chain promises, interpreted as \<open>on_record\<close> and
  \<open>at_door\<close>. \<open>single_use\<close> is what a verifier relies on of a replay memory, interpreted as \<open>cache\<close>
  (\<^verbatim>\<open>ReplayCache\<close>) and \<open>seen_set\<close> (\<^verbatim>\<open>Verifier\<close>). \<open>key_source\<close> is what a
  verifier relies on of cached keys, interpreted as \<open>cached\<close> (\<^verbatim>\<open>JWKS\<close>); \<open>revocation_list\<close> what it
  relies on of the list behind its hook, interpreted as \<open>polled\<close> (\<^verbatim>\<open>Revocations\<close>).

  \<^bold>\<open>What the properties show.\<close>
    \<^item> Chains: \<open>Validate\<close> accepts exactly the well-formed chains; \<open>BuildAct\<close> and \<open>ReadAct\<close> are inverse;
      the door and the record agree on what a chain is.
    \<^item> Memories: a proof is spent once while it is fresh, in bounded space, at whatever door;
      a revoked party is turned away at every door through any run of polls, and every answer of the list is explained.
    \<^item> Streams: \<open>Unmarshal\<close> undoes \<open>Marshal\<close>; a write never damages a file it did not create; any number of
      writers on one file build one chain; an edit is reported at the next line and nowhere later.
    \<^item> Checkpoints: a scan does not depend on how reads cut the stream; the writer stands where the
      stream stood; a record is valid exactly under the conditions of \<open>attests\<close>; the writer's records
      pass them and chain; a read that fails part way spoils the records after it.
    \<^item> Tokens: acceptance is characterised exactly for a signature, a proof, a delegation token
      and an agent token; kinds are never confused; revocation only takes away; numbers
      are bounded; signing and verifying agree; thumbprints bind the key.
    \<^item> Keys: cached keys are usable ones and survive a failed refresh; the process signs only inside
      the life of a statement; every outcome of a renewal is listed.
    \<^item> Passports: what \<open>Parse\<close> accepts, and that loading a batch keeps the first of each key.
    \<^item> \<^verbatim>\<open>agent-conform\<close>: exactly which files pass; the watcher reads a bounded prefix,
      delivers an alert for each finding whatever fails and wherever it is killed, and repeats one only
      after a write whose outcome was unknown, a kill before the save or a failed save; it exits with an
      honest code, keeps its state across restarts, and loops until the first interruption or fatal pass.

  \<^bold>\<open>Bounds and fuel.\<close>
  The caps are the source's: 32 entries of a chain, lines and resume window of 4 MiB, 1 MiB of
  checkpoint record, 255 bytes
  of an identifier, 64 KiB of key, 256 KiB of a response. Recursion that is not structural has a
  measure; \<open>watchLoop\<close> is a \<^verbatim>\<open>partial_function (option)\<close>, and when it returns is a
  property. Only the printing of doubles uses fuel: 17 digits identify a double, the estimate
  \<open>dec_point\<close> starts from is at most a few below the exponent (6 steps are given), and 17 digits have
  fewer than 20 trailing zeros.

  \<^bold>\<open>Parameters.\<close>
  Code that is not in the repository is an argument. \<open>jcs\<close> is RFC 8785 canonicalisation
  (github.com/gowebpki/jcs); where a property needs more of it than being a function, that is the
  hypothesis \<open>jcs_laws\<close>, which \<open>value_jcs\<close> satisfies. The JSON Schema library is a decoder and
  compiled predicates. The record \<open>go_lib\<close> holds what Go leaves to the platform or to Unicode tables.
  \<^verbatim>\<open>ecdsa.Sign\<close> and key generation draw randomness and are answers, as are the clock, the
  file system, the HTTP client and \<^verbatim>\<open>flag.FlagSet.Parse\<close>.

  \<^bold>\<open>Not modelled.\<close>
  Texts of error messages, what is printed, and usage; signals;
  \<^verbatim>\<open>Close\<close> where it only releases a descriptor; the HTTP transport (the unix socket, no
  proxy, no redirect, the timeout); \<^verbatim>\<open>loadSchemas\<close> and \<^verbatim>\<open>addEmbedded\<close>, which only call
  the schema library; \<^verbatim>\<open>lock_other.go\<close> and \<^verbatim>\<open>owner_other.go\<close>, for platforms without
  the locks; \<^verbatim>\<open>internal/apisurface\<close> and \<^verbatim>\<open>internal/manifest\<close>, which check this
  repository and serve its tests; shell scripts, schemas, golden files. Simplifications: a pass of the
  watcher reads the clock once; a nil map and an empty map are one value; a certificate statement is kept
  as the document it is and not as its bytes; the order in which Go ranges over a map never matters to
  a result that is modelled.
\<close>

end
